(* ===== verification/Prelude.thy ===== *)
theory Prelude
  imports Main "HOL-Library.Word" "HOL-Library.Multiset"
begin

text \<open>
  Shared vocabulary of the development: names for Rust's fixed-width integers, Rust's
  \<open>std::cmp::Ordering\<close> with the comparison combinators the code uses, the contract of a
  lawful \<open>Ord\<close> implementation as a locale, and the facts on sorting and deduplication by
  such a comparison that the clients share.
\<close>

named_theorems cmp_simps \<open>evaluation of comparison functions\<close>

type_synonym u8 = "8 word"
type_synonym u16 = "16 word"
type_synonym u32 = "32 word"
type_synonym u64 = "64 word"
type_synonym u128 = "128 word"

section \<open>Results\<close>

text \<open>The \<open>?\<close> operator: an error returns early, a value goes on.\<close>

definition bind_res :: "'e + 'a \<Rightarrow> ('a \<Rightarrow> 'e + 'b) \<Rightarrow> 'e + 'b" where
  "bind_res r f = (case r of Inl e \<Rightarrow> Inl e | Inr x \<Rightarrow> f x)"

lemma bind_res_simps [simp]:
  "bind_res (Inl e) f = Inl e"
  "bind_res (Inr x) f = f x"
  by (simp_all add: bind_res_def)

lemma bind_res_Inr_iff: "bind_res r f = Inr y \<longleftrightarrow> (\<exists>x. r = Inr x \<and> f x = Inr y)"
  by (cases r) auto

fun mapM_res :: "('a \<Rightarrow> 'e + 'b) \<Rightarrow> 'a list \<Rightarrow> 'e + 'b list" where
  "mapM_res f [] = Inr []"
| "mapM_res f (x # xs) = bind_res (f x) (\<lambda>y. bind_res (mapM_res f xs) (\<lambda>ys. Inr (y # ys)))"

lemma mapM_res_cong [fundef_cong]:
  "xs = ys \<Longrightarrow> (\<And>x. x \<in> set ys \<Longrightarrow> f x = g x) \<Longrightarrow> mapM_res f xs = mapM_res g ys"
  by (induction xs arbitrary: ys) auto

lemma mapM_res_Inr_map: "(\<And>x. x \<in> set xs \<Longrightarrow> f (g x) = Inr x) \<Longrightarrow> mapM_res f (map g xs) = Inr xs"
  by (induction xs) auto

lemma mapM_res_length: "mapM_res f xs = Inr ys \<Longrightarrow> length ys = length xs"
  by (induction xs arbitrary: ys) (auto simp: bind_res_Inr_iff)

text \<open>Elements of a list are smaller than the list: recursion through nested data.\<close>

lemma size_in_list [termination_simp]: "x \<in> set xs \<Longrightarrow> size x < Suc (size_list size xs)"
  by (induction xs) auto

section \<open>Comparison\<close>

text \<open>\<open>std::cmp::Ordering\<close>, its \<open>then\<close>, and \<open>cmp\<close> of the built-in types: integers,
  \<open>Option\<close> (\<open>None\<close> first), slices (lexicographic) and strings (by bytes).\<close>

datatype cmp_ord = Less | Equal | Greater

fun cmp_rev :: "cmp_ord \<Rightarrow> cmp_ord" where
  "cmp_rev Less = Greater"
| "cmp_rev Equal = Equal"
| "cmp_rev Greater = Less"

definition cmp_then :: "cmp_ord \<Rightarrow> cmp_ord \<Rightarrow> cmp_ord" where
  "cmp_then a b = (case a of Equal \<Rightarrow> b | _ \<Rightarrow> a)"

definition cmp_lin :: "'a::linorder \<Rightarrow> 'a \<Rightarrow> cmp_ord" where
  "cmp_lin a b = (if a < b then Less else if a = b then Equal else Greater)"

fun cmp_option :: "('a \<Rightarrow> 'a \<Rightarrow> cmp_ord) \<Rightarrow> 'a option \<Rightarrow> 'a option \<Rightarrow> cmp_ord" where
  "cmp_option c None None = Equal"
| "cmp_option c None (Some b) = Less"
| "cmp_option c (Some a) None = Greater"
| "cmp_option c (Some a) (Some b) = c a b"

fun cmp_list :: "('a \<Rightarrow> 'a \<Rightarrow> cmp_ord) \<Rightarrow> 'a list \<Rightarrow> 'a list \<Rightarrow> cmp_ord" where
  "cmp_list c [] [] = Equal"
| "cmp_list c [] (b # bs) = Less"
| "cmp_list c (a # as) [] = Greater"
| "cmp_list c (a # as) (b # bs) = cmp_then (c a b) (cmp_list c as bs)"

definition cmp_string :: "string \<Rightarrow> string \<Rightarrow> cmp_ord" where
  "cmp_string a b = cmp_list (\<lambda>x y. cmp_lin (of_char x :: nat) (of_char y)) a b"

lemma cmp_then_simps [simp, cmp_simps]:
  "cmp_then Equal b = b" "cmp_then Less b = Less" "cmp_then Greater b = Greater"
  by (simp_all add: cmp_then_def)

lemma cmp_then_Equal_iff: "cmp_then a b = Equal \<longleftrightarrow> a = Equal \<and> b = Equal"
  by (cases a) simp_all

lemma cmp_rev_then: "cmp_rev (cmp_then a b) = cmp_then (cmp_rev a) (cmp_rev b)"
  by (cases a) simp_all

lemma cmp_rev_rev [simp]: "cmp_rev (cmp_rev a) = a"
  by (cases a) simp_all

lemma cmp_rev_Equal_iff [simp]: "cmp_rev a = Equal \<longleftrightarrow> a = Equal"
  by (cases a) simp_all

lemma cmp_lin_Equal_iff [simp]: "cmp_lin a b = Equal \<longleftrightarrow> a = b"
  by (simp add: cmp_lin_def)

lemma cmp_lin_refl [simp]: "cmp_lin a a = Equal"
  by simp

lemma cmp_lin_rev: "cmp_lin b a = cmp_rev (cmp_lin a b)"
  by (auto simp: cmp_lin_def)

lemma cmp_lin_le_iff: "cmp_lin a b \<noteq> Greater \<longleftrightarrow> a \<le> b"
  by (auto simp: cmp_lin_def)

text \<open>
  Local laws of a comparison around one element: they pass through the recursive types
  one constructor at a time.
\<close>

definition cmp_eq_at :: "('a \<Rightarrow> 'a \<Rightarrow> cmp_ord) \<Rightarrow> 'a \<Rightarrow> bool" where
  "cmp_eq_at c a \<longleftrightarrow> (\<forall>b. c a b = Equal \<longleftrightarrow> a = b)"

definition cmp_rev_at :: "('a \<Rightarrow> 'a \<Rightarrow> cmp_ord) \<Rightarrow> 'a \<Rightarrow> bool" where
  "cmp_rev_at c a \<longleftrightarrow> (\<forall>b. c b a = cmp_rev (c a b))"

definition cmp_trans_at :: "('a \<Rightarrow> 'a \<Rightarrow> cmp_ord) \<Rightarrow> 'a \<Rightarrow> bool" where
  "cmp_trans_at c a \<longleftrightarrow> (\<forall>b d. c a b = Less \<longrightarrow> c b d = Less \<longrightarrow> c a d = Less)"

lemma cmp_list_eq_at: "\<forall>a \<in> set as. cmp_eq_at c a \<Longrightarrow> cmp_eq_at (cmp_list c) as"
proof (induction as)
  case Nil
  have "cmp_list c [] bs = Equal \<longleftrightarrow> [] = bs" for bs by (cases bs) simp_all
  then show ?case by (simp add: cmp_eq_at_def)
next
  case (Cons a as)
  then have "cmp_list c (a # as) bs = Equal \<longleftrightarrow> a # as = bs" for bs
    by (cases bs) (auto simp: cmp_then_Equal_iff cmp_eq_at_def)
  then show ?case by (simp add: cmp_eq_at_def)
qed

lemma cmp_list_rev_at: "\<forall>a \<in> set as. cmp_rev_at c a \<Longrightarrow> cmp_rev_at (cmp_list c) as"
proof (induction as)
  case Nil
  have "cmp_list c bs [] = cmp_rev (cmp_list c [] bs)" for bs by (cases bs) simp_all
  then show ?case by (simp add: cmp_rev_at_def)
next
  case (Cons a as)
  have "cmp_list c bs (a # as) = cmp_rev (cmp_list c (a # as) bs)" for bs
  proof (cases bs)
    case Nil
    then show ?thesis by simp
  next
    case (Cons b bs')
    have "c b a = cmp_rev (c a b)" "cmp_list c bs' as = cmp_rev (cmp_list c as bs')"
      using Cons.IH Cons.prems by (auto simp: cmp_rev_at_def)
    with Cons show ?thesis by (simp add: cmp_rev_then)
  qed
  then show ?case by (simp add: cmp_rev_at_def)
qed

lemma cmp_list_trans_at:
  assumes eq: "\<And>x. cmp_eq_at c x"
  shows "\<forall>a \<in> set as. cmp_trans_at c a \<Longrightarrow> cmp_trans_at (cmp_list c) as"
proof (induction as)
  case Nil
  have "cmp_list c [] bs = Less \<Longrightarrow> cmp_list c bs ds = Less \<Longrightarrow> cmp_list c [] ds = Less" for bs ds
    by (cases bs; cases ds) simp_all
  then show ?case unfolding cmp_trans_at_def by blast
next
  case (Cons a as)
  have IH: "cmp_trans_at (cmp_list c) as" and a: "cmp_trans_at c a" using Cons by simp_all
  have "cmp_list c (a # as) ds = Less"
    if ab: "cmp_list c (a # as) bs = Less" and bd: "cmp_list c bs ds = Less" for bs ds
  proof -
    from ab obtain b bs' where bs: "bs = b # bs'" by (cases bs) simp_all
    with bd obtain d ds' where ds: "ds = d # ds'" by (cases ds) simp_all
    have e: "c x y = Equal \<longleftrightarrow> x = y" for x y using eq [of x] by (simp add: cmp_eq_at_def)
    consider "c a b = Less" "c b d = Less" | "c a b = Less" "b = d"
      | "a = b" "c b d = Less"
      | "a = b" "b = d" "cmp_list c as bs' = Less" "cmp_list c bs' ds' = Less"
      using ab bd bs ds e [of a b] e [of b d] by (cases "c a b"; cases "c b d") auto
    then show ?thesis
    proof cases
      case 1
      then have "c a d = Less" using a unfolding cmp_trans_at_def by blast
      then show ?thesis using ds by simp
    next
      case 4
      then have "cmp_list c as ds' = Less" using IH unfolding cmp_trans_at_def by blast
      moreover have "c a d = Equal" using 4 e by simp
      ultimately show ?thesis using ds by simp
    qed (simp_all add: ds)
  qed
  then show ?case unfolding cmp_trans_at_def by blast
qed

lemma cmp_option_eq_at: "\<forall>x. a = Some x \<longrightarrow> cmp_eq_at c x \<Longrightarrow> cmp_eq_at (cmp_option c) a"
proof -
  assume *: "\<forall>x. a = Some x \<longrightarrow> cmp_eq_at c x"
  have "cmp_option c a b = Equal \<longleftrightarrow> a = b" for b
    using * by (cases a; cases b) (auto simp: cmp_eq_at_def)
  then show ?thesis by (simp add: cmp_eq_at_def)
qed

lemma cmp_option_rev_at: "\<forall>x. a = Some x \<longrightarrow> cmp_rev_at c x \<Longrightarrow> cmp_rev_at (cmp_option c) a"
proof -
  assume *: "\<forall>x. a = Some x \<longrightarrow> cmp_rev_at c x"
  have "cmp_option c b a = cmp_rev (cmp_option c a b)" for b
    using * by (cases a; cases b) (auto simp: cmp_rev_at_def)
  then show ?thesis by (simp add: cmp_rev_at_def)
qed

lemma cmp_option_trans_at: "\<forall>x. a = Some x \<longrightarrow> cmp_trans_at c x \<Longrightarrow> cmp_trans_at (cmp_option c) a"
proof -
  assume *: "\<forall>x. a = Some x \<longrightarrow> cmp_trans_at c x"
  have "cmp_option c a d = Less" if "cmp_option c a b = Less" "cmp_option c b d = Less" for b d
  proof (cases a)
    case (Some x)
    show ?thesis
    proof (cases b)
      case None
      with that Some show ?thesis by simp
    next
      case b: (Some y)
      show ?thesis
      proof (cases d)
        case None
        with that b show ?thesis by simp
      next
        case d: (Some z)
        have "c x y = Less" "c y z = Less" using that Some b d by simp_all
        moreover have "cmp_trans_at c x" using * Some by simp
        ultimately show ?thesis using Some d unfolding cmp_trans_at_def by simp
      qed
    qed
  next
    case None
    with that show ?thesis by (cases b; cases d) simp_all
  qed
  then show ?thesis unfolding cmp_trans_at_def by blast
qed

lemma cmp_lin_at [simp]: "cmp_eq_at cmp_lin a" "cmp_rev_at cmp_lin a" "cmp_trans_at cmp_lin a"
  by (auto simp: cmp_eq_at_def cmp_rev_at_def cmp_trans_at_def cmp_lin_def)

lemma cmp_then_trans:
  assumes "cmp_eq_at c x" "cmp_eq_at c y" "cmp_trans_at c x" "cmp_trans_at d x'"
    and xy: "cmp_then (c x y) (d x' y') = Less" and yz: "cmp_then (c y z) (d y' z') = Less"
  shows "cmp_then (c x z) (d x' z') = Less"
proof -
  have e: "c x y = Equal \<longleftrightarrow> x = y" "c y z = Equal \<longleftrightarrow> y = z"
    using assms(1,2) by (simp_all add: cmp_eq_at_def)
  consider "c x y = Less" "c y z = Less" | "c x y = Less" "y = z" | "x = y" "c y z = Less"
    | "x = y" "y = z" "c y z = Equal" "d x' y' = Less" "d y' z' = Less"
    using xy yz e by (cases "c x y"; cases "c y z") auto
  then show ?thesis
  proof cases
    case 1
    then have "c x z = Less" using assms(3) unfolding cmp_trans_at_def by blast
    then show ?thesis by simp
  next
    case 4
    then have "d x' z' = Less" using assms(4) unfolding cmp_trans_at_def by blast
    with 4 show ?thesis by simp
  qed simp_all
qed

lemma cmp_option_lin_at [simp]:
  "cmp_eq_at (cmp_option cmp_lin) x" "cmp_rev_at (cmp_option cmp_lin) x" "cmp_trans_at (cmp_option cmp_lin) x"
  by (simp_all add: cmp_option_eq_at cmp_option_rev_at cmp_option_trans_at)

lemma cmp_atD:
  "cmp_eq_at c a \<Longrightarrow> c a b = Equal \<longleftrightarrow> a = b"
  "cmp_rev_at c a \<Longrightarrow> c b a = cmp_rev (c a b)"
  "cmp_trans_at c a \<Longrightarrow> c a b = Less \<Longrightarrow> c b d = Less \<Longrightarrow> c a d = Less"
  unfolding cmp_eq_at_def cmp_rev_at_def cmp_trans_at_def by blast+

lemma cmp_char_at:
  fixes x :: char
  defines "c \<equiv> \<lambda>x y. cmp_lin (of_char x :: nat) (of_char y)"
  shows "cmp_eq_at c x" "cmp_rev_at c x" "cmp_trans_at c x"
  using cmp_lin_at [of "of_char x :: nat"]
  by (auto simp: c_def cmp_eq_at_def cmp_rev_at_def cmp_trans_at_def)

lemma cmp_string_at [simp]: "cmp_eq_at cmp_string s" "cmp_rev_at cmp_string s" "cmp_trans_at cmp_string s"
proof -
  let ?c = "\<lambda>x y. cmp_lin (of_char x :: nat) (of_char y)"
  have eq: "cmp_string = cmp_list ?c" by (intro ext) (simp add: cmp_string_def)
  show "cmp_eq_at cmp_string s" unfolding eq by (rule cmp_list_eq_at) (simp add: cmp_char_at)
  show "cmp_rev_at cmp_string s" unfolding eq by (rule cmp_list_rev_at) (simp add: cmp_char_at)
  show "cmp_trans_at cmp_string s" unfolding eq by (rule cmp_list_trans_at) (simp_all add: cmp_char_at)
qed

section \<open>The contract of a total order\<close>

text \<open>
  Rust's \<open>Ord\<close>: \<open>cmp\<close> is antisymmetric, transitive and consistent with \<open>==\<close>. The
  standard library's sort relies on it. Everything the code derives from sorting (a
  normal form of a collection, equality independent of the order of observation) is
  proved once here.
\<close>

locale total_cmp =
  fixes cmp :: "'a \<Rightarrow> 'a \<Rightarrow> cmp_ord"
  assumes eq_at: "cmp_eq_at cmp a"
    and rev_at: "cmp_rev_at cmp a"
    and trans_at: "cmp_trans_at cmp a"
begin

lemma cmp_Equal [simp]: "cmp a b = Equal \<longleftrightarrow> a = b"
  using eq_at [of a] by (simp add: cmp_eq_at_def)

lemma cmp_swap: "cmp b a = cmp_rev (cmp a b)"
  using rev_at [of a] by (simp add: cmp_rev_at_def)

lemma cmp_less_trans: "cmp a b = Less \<Longrightarrow> cmp b c = Less \<Longrightarrow> cmp a c = Less"
  using trans_at [of a] unfolding cmp_trans_at_def by blast

lemma cmp_refl [simp]: "cmp a a = Equal"
  by (rule cmp_Equal [THEN iffD2]) (rule refl)

lemma cmp_irrefl: "cmp a a \<noteq> Less"
  by simp

lemma cmp_antisym: "cmp a b \<noteq> Greater \<Longrightarrow> cmp b a \<noteq> Greater \<Longrightarrow> a = b"
  using cmp_swap [of b a] by (cases "cmp a b") auto

lemma cmp_le_trans:
  assumes "cmp a b \<noteq> Greater" and "cmp b c \<noteq> Greater"
  shows "cmp a c \<noteq> Greater"
proof -
  consider "cmp a b = Less" | "a = b" using assms(1) by (cases "cmp a b") auto
  then show ?thesis
  proof cases
    case 1
    consider "cmp b c = Less" | "b = c" using assms(2) by (cases "cmp b c") auto
    then show ?thesis using 1 cmp_less_trans by cases fastforce+
  qed (use assms in simp)
qed

lemma cmp_total: "cmp a b \<noteq> Greater \<or> cmp b a \<noteq> Greater"
  using cmp_swap [of b a] by (cases "cmp a b") auto

end

section \<open>Sorting and deduplication by a comparison\<close>

text \<open>
  \<open>slice::sort\<close> is a stable sort by \<open>Ord::cmp\<close>; a stable sort has one result, so the
  model is insertion from the right. \<open>Vec::dedup\<close> removes an element equal to the last
  one kept.
\<close>

fun insert_by :: "('a \<Rightarrow> 'a \<Rightarrow> cmp_ord) \<Rightarrow> 'a \<Rightarrow> 'a list \<Rightarrow> 'a list" where
  "insert_by c x [] = [x]"
| "insert_by c x (y # ys) = (if c x y = Greater then y # insert_by c x ys else x # y # ys)"

definition sort_by :: "('a \<Rightarrow> 'a \<Rightarrow> cmp_ord) \<Rightarrow> 'a list \<Rightarrow> 'a list" where
  "sort_by c xs = foldr (insert_by c) xs []"

fun dedup_by :: "('a \<Rightarrow> 'a \<Rightarrow> bool) \<Rightarrow> 'a list \<Rightarrow> 'a list" where
  "dedup_by eq [] = []"
| "dedup_by eq [x] = [x]"
| "dedup_by eq (x # y # ys) = (if eq y x then dedup_by eq (x # ys) else x # dedup_by eq (y # ys))"

lemma mset_insert_by [simp]: "mset (insert_by c x xs) = add_mset x (mset xs)"
  by (induction xs) auto

lemma mset_sort_by [simp]: "mset (sort_by c xs) = mset xs"
  unfolding sort_by_def by (induction xs) auto

lemma set_sort_by [simp]: "set (sort_by c xs) = set xs"
  using mset_sort_by by (rule mset_eq_setD)

lemma set_dedup_by: "set (dedup_by eq xs) \<subseteq> set xs"
  by (induction eq xs rule: dedup_by.induct) auto

lemma set_dedup_by_eq [simp]: "set (dedup_by (=) xs) = set xs"
  by (induction "(=) :: 'a \<Rightarrow> 'a \<Rightarrow> bool" xs rule: dedup_by.induct) auto

lemma dedup_by_Cons_hd: "\<exists>ys. dedup_by eq (x # xs) = x # ys"
  by (induction xs) auto

lemma sorted_wrt_unique:
  "sorted_wrt R xs \<Longrightarrow> sorted_wrt R ys \<Longrightarrow> set xs = set ys \<Longrightarrow> (\<And>a b. R a b \<Longrightarrow> \<not> R b a) \<Longrightarrow> xs = ys"
proof (induction xs arbitrary: ys)
  case Nil
  then show ?case by simp
next
  case (Cons x xs)
  then obtain y ys' where ys: "ys = y # ys'" by (cases ys) auto
  have notin: "x \<notin> set xs" "y \<notin> set ys'" using Cons.prems(1,2) Cons.prems(4) [of x x] Cons.prems(4) [of y y] ys by auto
  have "x = y"
  proof (rule ccontr)
    assume "x \<noteq> y"
    then have "x \<in> set ys'" "y \<in> set xs" using Cons.prems(3) ys by auto
    then have "R y x" "R x y" using Cons.prems ys by auto
    then show False using Cons.prems(4) by blast
  qed
  moreover have "set xs = set ys'" using Cons.prems(3) ys notin calculation by auto
  ultimately show ?case using Cons.prems ys by (auto intro: Cons.IH)
qed

context total_cmp
begin

lemma sorted_insert_by:
  "sorted_wrt (\<lambda>a b. cmp (f a) (f b) \<noteq> Greater) xs \<Longrightarrow>
   sorted_wrt (\<lambda>a b. cmp (f a) (f b) \<noteq> Greater) (insert_by (\<lambda>a b. cmp (f a) (f b)) x xs)"
proof (induction xs)
  case Nil
  then show ?case by simp
next
  case (Cons y ys)
  let ?c = "\<lambda>a b. cmp (f a) (f b)"
  have s: "set (insert_by ?c x ys) = insert x (set ys)"
    using arg_cong [OF mset_insert_by [of ?c x ys], of set_mset] unfolding set_mset_mset by simp
  show ?case
  proof (cases "?c x y = Greater")
    case True
    then have "?c y x \<noteq> Greater" using cmp_total by blast
    with True Cons s show ?thesis by auto
  next
    case False
    then have "\<forall>z \<in> set ys. ?c x z \<noteq> Greater" using Cons.prems cmp_le_trans by fastforce
    with False Cons show ?thesis by simp
  qed
qed

text \<open>Sorting by a key.\<close>

lemma sorted_sort_by_key:
  "sorted_wrt (\<lambda>a b. cmp (f a) (f b) \<noteq> Greater) (sort_by (\<lambda>a b. cmp (f a) (f b)) xs)"
  unfolding sort_by_def by (induction xs) (auto intro: sorted_insert_by)

lemma sorted_sort_by: "sorted_wrt (\<lambda>a b. cmp a b \<noteq> Greater) (sort_by cmp xs)"
  using sorted_sort_by_key [of "\<lambda>x. x" xs] by simp

lemma sorted_dedup_by:
  "sorted_wrt (\<lambda>a b. cmp a b \<noteq> Greater) xs \<Longrightarrow>
   sorted_wrt (\<lambda>a b. cmp a b = Less) (dedup_by (=) xs)"
proof (induction "(=) :: 'a \<Rightarrow> 'a \<Rightarrow> bool" xs rule: dedup_by.induct)
  case (3 x y ys)
  show ?case
  proof (cases "y = x")
    case True
    with 3 show ?thesis by simp
  next
    case False
    have "cmp x z = Less" if "z \<in> set (y # ys)" for z
    proof -
      have xz: "cmp x z \<noteq> Greater" and xy: "cmp x y \<noteq> Greater" and yz: "z = y \<or> cmp y z \<noteq> Greater"
        using "3.prems" that by auto
      have "z \<noteq> x" using xy yz False cmp_antisym [of x y] by auto
      with xz show ?thesis by (cases "cmp x z") auto
    qed
    with False 3 show ?thesis by (auto dest!: set_mp [OF set_dedup_by])
  qed
qed simp_all

lemma strict_sorted_unique:
  "sorted_wrt (\<lambda>a b. cmp a b = Less) xs \<Longrightarrow> sorted_wrt (\<lambda>a b. cmp a b = Less) ys \<Longrightarrow>
   set xs = set ys \<Longrightarrow> xs = ys"
  by (rule sorted_wrt_unique) (use cmp_less_trans cmp_irrefl in blast)+

text \<open>Sorting then deduplicating is a function of the set of elements alone.\<close>

lemma sort_dedup_cong:
  "set xs = set ys \<Longrightarrow> dedup_by (=) (sort_by cmp xs) = dedup_by (=) (sort_by cmp ys)"
  by (rule strict_sorted_unique) (simp_all add: sorted_dedup_by sorted_sort_by)

end

end
