(* ===== verification/DataTypes.thy ===== *)
theory DataTypes
  imports Prelude
begin

text \<open>
  The canonical type model of \<open>crates/types\<close>: \<open>DataType\<close> and its equality, order and wire
  format (\<open>data_type.rs\<close>), and the schema-side half of the extension interface for
  connector-specific types, \<open>DynType\<close> (\<open>dynamic.rs\<close>).

  A \<open>Box<dyn DynType>\<close> is an element of the type parameter \<open>'c\<close>; its methods are the
  fields of a record \<open>dyn_ops\<close> that the definitions take as an argument, as the code
  dispatches through the trait object. The descriptors the connectors define are in the
  theory of connector types. Declared sizes are \<open>u32\<close>.
\<close>

section \<open>The type model\<close>

datatype 'c data_type =
    TBool
  | TInt8
  | TInt16
  | TInt32
  | TInt64
  | TUInt8
  | TUInt16
  | TUInt32
  | TUInt64
  | TFloat32
  | TFloat64
  | TBigInt (bigint_width: "u32 option")
  | TDecimal (dec_precision: "u32 option") (dec_scale: "u32 option")
  | TText (text_size: "u32 option")
  | TBytes (bytes_size: "u32 option")
  | TDate
  | TTimestamp
  | TUuid
  | TIpv4
  | TIpv6
  | TJson
  | TXml
  | TUnion (union_members: "'c data_type list")
  | TObject
  | TArray (array_element: "'c data_type option") (array_nullable: bool)
  | TInterval
  | TCustom (custom_descriptor: 'c)

record 'c dyn_ops =
  dyn_kind :: "'c \<Rightarrow> string"
  dyn_cursor_compatible :: "'c \<Rightarrow> bool"
  dyn_is_object :: "'c \<Rightarrow> bool"
  dyn_can_convert_to :: "'c \<Rightarrow> 'c data_type \<Rightarrow> bool \<Rightarrow> bool"
  dyn_can_construct_from :: "'c \<Rightarrow> 'c data_type \<Rightarrow> bool \<Rightarrow> bool"
  dyn_is_equal :: "'c \<Rightarrow> 'c \<Rightarrow> bool"

text \<open>\<open>PartialEq\<close> and \<open>Ord\<close> of \<open>Box<dyn DynType>\<close>: equality needs equal kinds and the
  descriptor's own \<open>is_equal\<close>; the order looks at the kind alone.\<close>

definition dyn_eq :: "'c dyn_ops \<Rightarrow> 'c \<Rightarrow> 'c \<Rightarrow> bool" where
  "dyn_eq ops a b \<longleftrightarrow> dyn_kind ops a = dyn_kind ops b \<and> dyn_is_equal ops a b"

definition dyn_cmp :: "'c dyn_ops \<Rightarrow> 'c \<Rightarrow> 'c \<Rightarrow> cmp_ord" where
  "dyn_cmp ops a b = cmp_string (dyn_kind ops a) (dyn_kind ops b)"

definition dt_text :: "'c data_type" where
  "dt_text = TText None"

definition dt_bytes :: "'c data_type" where
  "dt_bytes = TBytes None"

text \<open>Derived \<open>PartialEq\<close> of \<open>DataType\<close>.\<close>

function dt_eq :: "'c dyn_ops \<Rightarrow> 'c data_type \<Rightarrow> 'c data_type \<Rightarrow> bool" where
  "dt_eq ops a b =
     (case a of
        TUnion xs \<Rightarrow> (case b of TUnion ys \<Rightarrow> list_all2 (dt_eq ops) xs ys | _ \<Rightarrow> False)
      | TArray e n \<Rightarrow>
          (case b of
             TArray f m \<Rightarrow>
               (case e of
                  None \<Rightarrow> f = None
                | Some x \<Rightarrow> (case f of None \<Rightarrow> False | Some y \<Rightarrow> dt_eq ops x y)) \<and> n = m
           | _ \<Rightarrow> False)
      | TCustom c \<Rightarrow> (case b of TCustom d \<Rightarrow> dyn_eq ops c d | _ \<Rightarrow> False)
      | _ \<Rightarrow> a = b)"
  by pat_completeness auto
termination
  by (relation "measure (\<lambda>(ops, a, b). size a)") (auto simp: size_in_list)

declare dt_eq.simps [simp del]

text \<open>\<open>DataType::cursor_compatible\<close> and \<open>DataType::is_object\<close>.\<close>

definition cursor_compatible :: "'c dyn_ops \<Rightarrow> 'c data_type \<Rightarrow> bool" where
  "cursor_compatible ops t =
     (case t of
        TJson \<Rightarrow> False
      | TXml \<Rightarrow> False
      | TObject \<Rightarrow> False
      | TInterval \<Rightarrow> False
      | TArray _ _ \<Rightarrow> False
      | TUnion _ \<Rightarrow> False
      | TCustom c \<Rightarrow> dyn_cursor_compatible ops c
      | _ \<Rightarrow> True)"

definition is_object :: "'c dyn_ops \<Rightarrow> 'c data_type \<Rightarrow> bool" where
  "is_object ops t =
     (case t of TJson \<Rightarrow> True | TObject \<Rightarrow> True | TCustom c \<Rightarrow> dyn_is_object ops c | _ \<Rightarrow> False)"

section \<open>The order\<close>

primrec variant_order :: "'c data_type \<Rightarrow> nat" where
  "variant_order TBool = 0"
| "variant_order TInt8 = 1"
| "variant_order TInt16 = 2"
| "variant_order TInt32 = 3"
| "variant_order TInt64 = 4"
| "variant_order TUInt8 = 5"
| "variant_order TUInt16 = 6"
| "variant_order TUInt32 = 7"
| "variant_order TUInt64 = 8"
| "variant_order TFloat32 = 9"
| "variant_order TFloat64 = 10"
| "variant_order (TBigInt _) = 11"
| "variant_order (TDecimal _ _) = 12"
| "variant_order (TText _) = 13"
| "variant_order (TBytes _) = 14"
| "variant_order TDate = 15"
| "variant_order TTimestamp = 16"
| "variant_order TUuid = 17"
| "variant_order TIpv4 = 18"
| "variant_order TIpv6 = 19"
| "variant_order TJson = 20"
| "variant_order TXml = 21"
| "variant_order TObject = 22"
| "variant_order (TUnion _) = 23"
| "variant_order (TCustom _) = 24"
| "variant_order TInterval = 25"
| "variant_order (TArray _ _) = 26"

lemma cmp_list_cong [fundef_cong]:
  "as = as' \<Longrightarrow> bs = bs' \<Longrightarrow> (\<And>a b. a \<in> set as' \<Longrightarrow> b \<in> set bs' \<Longrightarrow> c a b = c' a b) \<Longrightarrow>
   cmp_list c as bs = cmp_list c' as' bs'"
proof (induction as arbitrary: bs as' bs')
  case Nil
  then show ?case by (cases bs) auto
next
  case (Cons a as)
  show ?case
  proof (cases bs)
    case Nil
    with Cons.prems show ?thesis by auto
  next
    case (Cons b bs1)
    have "cmp_list c as bs1 = cmp_list c' as bs1"
      using Cons Cons.prems by (intro Cons.IH) auto
    with Cons Cons.prems show ?thesis by auto
  qed
qed

lemma cmp_option_cong [fundef_cong]:
  "a = a' \<Longrightarrow> b = b' \<Longrightarrow> (\<And>x y. a' = Some x \<Longrightarrow> b' = Some y \<Longrightarrow> c x y = c' x y) \<Longrightarrow>
   cmp_option c a b = cmp_option c' a' b'"
  by (cases a; cases b) auto

text \<open>\<open>Ord::cmp\<close>: the discriminants first, the payload where they are equal.\<close>

function dt_cmp :: "'c dyn_ops \<Rightarrow> 'c data_type \<Rightarrow> 'c data_type \<Rightarrow> cmp_ord" where
  "dt_cmp ops a b =
     cmp_then (cmp_lin (variant_order a) (variant_order b))
       (case a of
          TBigInt x \<Rightarrow> (case b of TBigInt y \<Rightarrow> cmp_option cmp_lin x y | _ \<Rightarrow> Equal)
        | TDecimal p s \<Rightarrow>
            (case b of
               TDecimal q t \<Rightarrow> cmp_then (cmp_option cmp_lin p q) (cmp_option cmp_lin s t)
             | _ \<Rightarrow> Equal)
        | TText x \<Rightarrow> (case b of TText y \<Rightarrow> cmp_option cmp_lin x y | _ \<Rightarrow> Equal)
        | TBytes x \<Rightarrow> (case b of TBytes y \<Rightarrow> cmp_option cmp_lin x y | _ \<Rightarrow> Equal)
        | TUnion xs \<Rightarrow> (case b of TUnion ys \<Rightarrow> cmp_list (dt_cmp ops) xs ys | _ \<Rightarrow> Equal)
        | TArray e n \<Rightarrow>
            (case b of
               TArray f m \<Rightarrow> cmp_then (cmp_option (dt_cmp ops) e f) (cmp_lin n m)
             | _ \<Rightarrow> Equal)
        | TCustom c \<Rightarrow> (case b of TCustom d \<Rightarrow> dyn_cmp ops c d | _ \<Rightarrow> Equal)
        | _ \<Rightarrow> Equal)"
  by pat_completeness auto
termination
  by (relation "measure (\<lambda>(ops, a, b). size a)") (auto simp: size_in_list)

declare dt_cmp.simps [simp del]


section \<open>The contract of connector descriptors\<close>

text \<open>
  What a descriptor owes the type model: \<open>is_equal\<close> is reflexive, and, where the kind is
  the identity of the descriptor as \<open>dynamic.rs\<close> documents, equal kinds mean the same
  descriptor.
\<close>

locale dyn_reflexive =
  fixes ops :: "'c dyn_ops"
  assumes is_equal_refl: "dyn_is_equal ops a a"

locale dyn_identity = dyn_reflexive ops for ops :: "'c dyn_ops" +
  assumes kind_inj: "dyn_kind ops a = dyn_kind ops b \<Longrightarrow> a = b"

context dyn_reflexive
begin

lemma dyn_eq_refl [simp]: "dyn_eq ops a a"
  by (simp add: dyn_eq_def is_equal_refl)

lemma dt_eq_refl [simp]: "dt_eq ops t t"
proof (induction t)
  case (TUnion xs)
  then show ?case by (simp add: dt_eq.simps list_all2_same)
next
  case (TArray e n)
  then show ?case by (cases e) (simp_all add: dt_eq.simps)
qed (simp_all add: dt_eq.simps)

end

context dyn_identity
begin

lemma dyn_eq_iff [simp]: "dyn_eq ops a b \<longleftrightarrow> a = b"
  using kind_inj is_equal_refl by (auto simp: dyn_eq_def)

lemma dt_eq_imp_eq: "dt_eq ops a b \<Longrightarrow> a = b"
proof (induction a arbitrary: b)
  case (TUnion xs)
  then obtain ys where b: "b = TUnion ys" and ys: "list_all2 (dt_eq ops) xs ys"
    by (cases b) (auto simp: dt_eq.simps [of _ "TUnion xs"])
  from ys TUnion.IH have "list_all2 (=) xs ys"
    by (auto intro: list.rel_mono_strong)
  with b show ?case by (simp add: list.rel_eq)
next
  case (TArray e n)
  then show ?case
    by (cases b) (auto simp: dt_eq.simps [of _ "TArray e n"] split: option.splits)
next
  case (TCustom c)
  then show ?case by (cases b) (auto simp: dt_eq.simps)
qed (simp_all add: dt_eq.simps)

lemma dt_eq_iff [simp]: "dt_eq ops a b \<longleftrightarrow> a = b"
  using dt_eq_imp_eq by auto

end

lemma variant_lt: "variant_order a < variant_order b \<Longrightarrow> dt_cmp ops a b = Less"
  by (simp add: dt_cmp.simps cmp_lin_def)

lemma variant_gt: "variant_order b < variant_order a \<Longrightarrow> dt_cmp ops a b = Greater"
  by (simp add: dt_cmp.simps cmp_lin_def)

lemma dt_cmp_Less_variant: "dt_cmp ops a b = Less \<Longrightarrow> variant_order a \<le> variant_order b"
  using variant_gt [of b a ops] by (cases "variant_order b < variant_order a") auto

lemma dt_cmp_Equal_variant: "dt_cmp ops a b = Equal \<Longrightarrow> variant_order a = variant_order b"
  using variant_gt [of b a ops] variant_lt [of a b ops]
  by (cases "variant_order a" "variant_order b" rule: linorder_cases) auto

lemma dt_cmp_same [simp, cmp_simps]:
  "dt_cmp ops (TBigInt x) (TBigInt y) = cmp_option cmp_lin x y"
  "dt_cmp ops (TDecimal p s) (TDecimal q t) = cmp_then (cmp_option cmp_lin p q) (cmp_option cmp_lin s t)"
  "dt_cmp ops (TText x) (TText y) = cmp_option cmp_lin x y"
  "dt_cmp ops (TBytes x) (TBytes y) = cmp_option cmp_lin x y"
  "dt_cmp ops (TUnion xs) (TUnion ys) = cmp_list (dt_cmp ops) xs ys"
  "dt_cmp ops (TArray e n) (TArray f m) = cmp_then (cmp_option (dt_cmp ops) e f) (cmp_lin n m)"
  "dt_cmp ops (TCustom c) (TCustom d) = dyn_cmp ops c d"
  by (simp_all add: dt_cmp.simps cmp_lin_def)


lemma variant_order_iff:
  "variant_order b = 0 \<longleftrightarrow> b = TBool"
  "variant_order b = Suc 0 \<longleftrightarrow> b = TInt8"
  "variant_order b = 2 \<longleftrightarrow> b = TInt16"
  "variant_order b = 3 \<longleftrightarrow> b = TInt32"
  "variant_order b = 4 \<longleftrightarrow> b = TInt64"
  "variant_order b = 5 \<longleftrightarrow> b = TUInt8"
  "variant_order b = 6 \<longleftrightarrow> b = TUInt16"
  "variant_order b = 7 \<longleftrightarrow> b = TUInt32"
  "variant_order b = 8 \<longleftrightarrow> b = TUInt64"
  "variant_order b = 9 \<longleftrightarrow> b = TFloat32"
  "variant_order b = 10 \<longleftrightarrow> b = TFloat64"
  "variant_order b = 11 \<longleftrightarrow> (\<exists>w. b = TBigInt w)"
  "variant_order b = 12 \<longleftrightarrow> (\<exists>p s. b = TDecimal p s)"
  "variant_order b = 13 \<longleftrightarrow> (\<exists>n. b = TText n)"
  "variant_order b = 14 \<longleftrightarrow> (\<exists>n. b = TBytes n)"
  "variant_order b = 15 \<longleftrightarrow> b = TDate"
  "variant_order b = 16 \<longleftrightarrow> b = TTimestamp"
  "variant_order b = 17 \<longleftrightarrow> b = TUuid"
  "variant_order b = 18 \<longleftrightarrow> b = TIpv4"
  "variant_order b = 19 \<longleftrightarrow> b = TIpv6"
  "variant_order b = 20 \<longleftrightarrow> b = TJson"
  "variant_order b = 21 \<longleftrightarrow> b = TXml"
  "variant_order b = 22 \<longleftrightarrow> b = TObject"
  "variant_order b = 23 \<longleftrightarrow> (\<exists>xs. b = TUnion xs)"
  "variant_order b = 24 \<longleftrightarrow> (\<exists>c. b = TCustom c)"
  "variant_order b = 25 \<longleftrightarrow> b = TInterval"
  "variant_order b = 26 \<longleftrightarrow> (\<exists>e n. b = TArray e n)"
  by (cases b; simp)+

text \<open>The laws of the order need to be checked within one variant only.\<close>

lemma dt_cmp_eq_atI:
  "(\<And>b. variant_order b = variant_order a \<Longrightarrow> dt_cmp ops a b = Equal \<longleftrightarrow> a = b) \<Longrightarrow> cmp_eq_at (dt_cmp ops) a"
  unfolding cmp_eq_at_def using dt_cmp_Equal_variant by metis

lemma dt_cmp_rev_atI:
  assumes "\<And>b. variant_order b = variant_order a \<Longrightarrow> dt_cmp ops b a = cmp_rev (dt_cmp ops a b)"
  shows "cmp_rev_at (dt_cmp ops) a"
proof -
  have "dt_cmp ops b a = cmp_rev (dt_cmp ops a b)" for b
    using assms [of b] variant_lt [of a b ops] variant_gt [of a b ops] variant_lt [of b a ops] variant_gt [of b a ops]
    by (cases "variant_order b" "variant_order a" rule: linorder_cases) simp_all
  then show ?thesis by (simp add: cmp_rev_at_def)
qed

lemma dt_cmp_trans_atI:
  assumes "\<And>b d. variant_order b = variant_order a \<Longrightarrow> variant_order d = variant_order a \<Longrightarrow>
    dt_cmp ops a b = Less \<Longrightarrow> dt_cmp ops b d = Less \<Longrightarrow> dt_cmp ops a d = Less"
  shows "cmp_trans_at (dt_cmp ops) a"
proof -
  have "dt_cmp ops a d = Less" if ab: "dt_cmp ops a b = Less" and bd: "dt_cmp ops b d = Less" for b d
  proof (cases "variant_order a < variant_order d")
    case True
    then show ?thesis by (rule variant_lt)
  next
    case False
    with dt_cmp_Less_variant [OF ab] dt_cmp_Less_variant [OF bd] show ?thesis
      by (intro assms [OF _ _ ab bd]) simp_all
  qed
  then show ?thesis unfolding cmp_trans_at_def by blast
qed

context dyn_identity
begin

lemma dyn_cmp_at: "cmp_eq_at (dyn_cmp ops) a" "cmp_rev_at (dyn_cmp ops) a" "cmp_trans_at (dyn_cmp ops) a"
  using cmp_string_at [of "dyn_kind ops a"] kind_inj
  unfolding cmp_eq_at_def cmp_rev_at_def cmp_trans_at_def dyn_cmp_def by metis+

lemma dt_cmp_eq_at: "cmp_eq_at (dt_cmp ops) a"
proof (induction a)
  case (TUnion xs)
  then have e: "cmp_eq_at (cmp_list (dt_cmp ops)) xs" by (simp add: cmp_list_eq_at)
  show ?case by (rule dt_cmp_eq_atI) (auto simp: variant_order_iff cmp_atD(1) [OF e])
next
  case (TArray e n)
  then have e: "cmp_eq_at (cmp_option (dt_cmp ops)) e" by (simp add: cmp_option_eq_at)
  show ?case
    by (rule dt_cmp_eq_atI) (auto simp: variant_order_iff cmp_then_Equal_iff cmp_atD(1) [OF e])
qed (rule dt_cmp_eq_atI; auto simp: variant_order_iff dt_cmp.simps cmp_then_Equal_iff
       cmp_atD(1) [OF dyn_cmp_at(1)] cmp_atD(1) [OF cmp_option_lin_at(1)])+

lemma dt_cmp_rev_at: "cmp_rev_at (dt_cmp ops) a"
proof (induction a)
  case (TUnion xs)
  then have e: "cmp_rev_at (cmp_list (dt_cmp ops)) xs" by (simp add: cmp_list_rev_at)
  show ?case by (rule dt_cmp_rev_atI) (auto simp: variant_order_iff cmp_atD(2) [OF e])
next
  case (TArray e n)
  then have e: "cmp_rev_at (cmp_option (dt_cmp ops)) e" by (simp add: cmp_option_rev_at)
  show ?case
    by (rule dt_cmp_rev_atI)
      (auto simp: variant_order_iff cmp_rev_then cmp_atD(2) [OF e] cmp_atD(2) [OF cmp_lin_at(2), of n])
next
  case (TCustom c)
  show ?case by (rule dt_cmp_rev_atI) (auto simp: variant_order_iff cmp_atD(2) [OF dyn_cmp_at(2), of c])
next
  case (TDecimal p s)
  show ?case
    by (rule dt_cmp_rev_atI)
      (auto simp: variant_order_iff cmp_rev_then cmp_atD(2) [OF cmp_option_lin_at(2), of _ p]
        cmp_atD(2) [OF cmp_option_lin_at(2), of _ s])
next
  case (TBigInt x)
  show ?case by (rule dt_cmp_rev_atI) (auto simp: variant_order_iff cmp_atD(2) [OF cmp_option_lin_at(2), of _ x])
next
  case (TText x)
  show ?case by (rule dt_cmp_rev_atI) (auto simp: variant_order_iff cmp_atD(2) [OF cmp_option_lin_at(2), of _ x])
next
  case (TBytes x)
  show ?case by (rule dt_cmp_rev_atI) (auto simp: variant_order_iff cmp_atD(2) [OF cmp_option_lin_at(2), of _ x])
qed (rule dt_cmp_rev_atI; auto simp: variant_order_iff dt_cmp.simps)+

lemma dt_cmp_trans_at: "cmp_trans_at (dt_cmp ops) a"
proof (induction a)
  case (TUnion xs)
  then have "cmp_trans_at (cmp_list (dt_cmp ops)) xs" by (simp add: cmp_list_trans_at dt_cmp_eq_at)
  then show ?case
    by (intro dt_cmp_trans_atI) (auto simp: variant_order_iff dest: cmp_atD(3))
next
  case (TArray e n)
  then have e: "cmp_trans_at (cmp_option (dt_cmp ops)) e" by (simp add: cmp_option_trans_at)
  have eq: "cmp_eq_at (cmp_option (dt_cmp ops)) f" for f by (simp add: cmp_option_eq_at dt_cmp_eq_at)
  show ?case
    by (rule dt_cmp_trans_atI)
      (use cmp_then_trans [OF eq eq e cmp_lin_at(3)] in \<open>auto simp: variant_order_iff\<close>)
next
  case (TDecimal p s)
  show ?case
    by (rule dt_cmp_trans_atI)
      (use cmp_then_trans [where c = "cmp_option cmp_lin" and d = "cmp_option cmp_lin"] in
        \<open>auto simp: variant_order_iff\<close>)
qed (rule dt_cmp_trans_atI; auto simp: variant_order_iff dt_cmp.simps
       dest: cmp_atD(3) [OF cmp_option_lin_at(3)] cmp_atD(3) [OF dyn_cmp_at(3)])+

end

sublocale dyn_identity \<subseteq> dt: total_cmp "dt_cmp ops"
  by unfold_locales (rule dt_cmp_eq_at dt_cmp_rev_at dt_cmp_trans_at)+

context dyn_identity
begin

lemma dt_cmp_laws:
  "dt_cmp ops a b = Equal \<longleftrightarrow> dt_eq ops a b"
  "dt_eq ops a b \<longleftrightarrow> a = b"
  "dt_cmp ops b a = cmp_rev (dt_cmp ops a b)"
  "dt_cmp ops a b \<noteq> Greater \<Longrightarrow> dt_cmp ops b c \<noteq> Greater \<Longrightarrow> dt_cmp ops a c \<noteq> Greater"
  using dt.cmp_le_trans by (auto intro: dt.cmp_swap)

end

section \<open>The wire format\<close>

text \<open>
  \<open>serde_json::Value\<close>, with objects as lists of entries in insertion order (the
  workspace enables \<open>preserve_order\<close>) and floats by their bits.
\<close>

datatype json =
    JNull
  | JBool bool
  | JInt int
  | JFloat u64
  | JStr string
  | JArr "json list"
  | JObj "(string \<times> json) list"

fun json_opt_u32 :: "u32 option \<Rightarrow> json" where
  "json_opt_u32 None = JNull"
| "json_opt_u32 (Some n) = JInt (uint n)"

text \<open>\<open>Serialize for DataType\<close>: a string for a unit variant, a map with one key for the rest.\<close>

primrec dt_serialize :: "'c dyn_ops \<Rightarrow> 'c data_type \<Rightarrow> json" where
  "dt_serialize ops TBool = JStr ''bool''"
| "dt_serialize ops TInt8 = JStr ''int8''"
| "dt_serialize ops TInt16 = JStr ''int16''"
| "dt_serialize ops TInt32 = JStr ''int32''"
| "dt_serialize ops TInt64 = JStr ''int64''"
| "dt_serialize ops TUInt8 = JStr ''u_int8''"
| "dt_serialize ops TUInt16 = JStr ''u_int16''"
| "dt_serialize ops TUInt32 = JStr ''u_int32''"
| "dt_serialize ops TUInt64 = JStr ''u_int64''"
| "dt_serialize ops TFloat32 = JStr ''float32''"
| "dt_serialize ops TFloat64 = JStr ''float64''"
| "dt_serialize ops TDate = JStr ''date''"
| "dt_serialize ops TTimestamp = JStr ''timestamp''"
| "dt_serialize ops TUuid = JStr ''uuid''"
| "dt_serialize ops TIpv4 = JStr ''ipv4''"
| "dt_serialize ops TIpv6 = JStr ''ipv6''"
| "dt_serialize ops TJson = JStr ''json''"
| "dt_serialize ops TXml = JStr ''xml''"
| "dt_serialize ops TObject = JStr ''object''"
| "dt_serialize ops TInterval = JStr ''interval''"
| "dt_serialize ops (TBigInt w) = JObj [(''big_int'', JObj [(''width'', json_opt_u32 w)])]"
| "dt_serialize ops (TDecimal p s) =
     JObj [(''decimal'', JObj [(''precision'', json_opt_u32 p), (''scale'', json_opt_u32 s)])]"
| "dt_serialize ops (TText n) = JObj [(''text'', JObj [(''size'', json_opt_u32 n)])]"
| "dt_serialize ops (TBytes n) = JObj [(''bytes'', JObj [(''size'', json_opt_u32 n)])]"
| "dt_serialize ops (TUnion vs) = JObj [(''union'', JArr (map (dt_serialize ops) vs))]"
| "dt_serialize ops (TArray e n) =
     JObj [(''array'', JObj [(''element'', case map_option (dt_serialize ops) e of None \<Rightarrow> JNull | Some j \<Rightarrow> j),
                           (''element_nullable'', JBool n)])]"
| "dt_serialize ops (TCustom t) = JObj [(''custom'', JObj [(''kind'', JStr (dyn_kind ops t))])]"

text \<open>\<open>DataTypeVisitor::visit_str\<close>.\<close>

definition visit_str :: "string \<Rightarrow> string + 'c data_type" where
  "visit_str v =
     (if v = ''bool'' then Inr TBool
      else if v = ''int8'' then Inr TInt8
      else if v = ''int16'' then Inr TInt16
      else if v = ''int32'' then Inr TInt32
      else if v = ''int64'' then Inr TInt64
      else if v = ''u_int8'' then Inr TUInt8
      else if v = ''u_int16'' then Inr TUInt16
      else if v = ''u_int32'' then Inr TUInt32
      else if v = ''u_int64'' then Inr TUInt64
      else if v = ''float32'' then Inr TFloat32
      else if v = ''float64'' then Inr TFloat64
      else if v = ''date'' then Inr TDate
      else if v = ''timestamp'' then Inr TTimestamp
      else if v = ''uuid'' then Inr TUuid
      else if v = ''ipv4'' then Inr TIpv4
      else if v = ''ipv6'' then Inr TIpv6
      else if v = ''json'' then Inr TJson
      else if v = ''xml'' then Inr TXml
      else if v = ''object'' then Inr TObject
      else if v = ''interval'' then Inr TInterval
      else Inl ''unknown variant'')"

text \<open>
  The derived payload readers. A struct comes as an object, where unknown keys are skipped,
  or as an array with one element for each field in order; an \<open>Option\<close> field may be
  missing from an object or null, a number has to fit \<open>u32\<close>, a \<open>bool\<close> field is mandatory.
\<close>

definition payload_entry :: "string list \<Rightarrow> string \<Rightarrow> json \<Rightarrow> string + json option" where
  "payload_entry names field j =
     (case j of
        JObj kvs \<Rightarrow> Inr (map_of kvs field)
      | JArr vs \<Rightarrow>
          if length vs = length names then Inr (map_of (zip names vs) field) else Inl ''invalid length''
      | _ \<Rightarrow> Inl ''invalid type'')"

definition payload_opt_u32 :: "string list \<Rightarrow> string \<Rightarrow> json \<Rightarrow> string + u32 option" where
  "payload_opt_u32 names field j =
     bind_res (payload_entry names field j) (\<lambda>entry.
       case entry of
         None \<Rightarrow> Inr None
       | Some JNull \<Rightarrow> Inr None
       | Some (JInt i) \<Rightarrow> if 0 \<le> i \<and> i < 2 ^ 32 then Inr (Some (word_of_int i)) else Inl ''invalid value''
       | Some _ \<Rightarrow> Inl ''invalid type'')"

definition payload_bool :: "string list \<Rightarrow> string \<Rightarrow> json \<Rightarrow> string + bool" where
  "payload_bool names field j =
     bind_res (payload_entry names field j) (\<lambda>entry.
       case entry of
         None \<Rightarrow> Inl ''missing field''
       | Some (JBool b) \<Rightarrow> Inr b
       | Some _ \<Rightarrow> Inl ''invalid type'')"

lemma payload_entry_size:
  assumes "payload_entry names field j = Inr (Some x)"
  shows "size x < size j"
proof (cases j)
  case (JArr vs)
  with assms have "(field, x) \<in> set (zip names vs)"
    by (auto simp: payload_entry_def dest: map_of_SomeD split: if_splits)
  then have "x \<in> set vs" by (rule set_zip_rightD)
  with JArr show ?thesis by (simp add: size_in_list)
next
  case (JObj kvs)
  with assms have "(field, x) \<in> set kvs" by (auto simp: payload_entry_def dest: map_of_SomeD)
  then have "size x < Suc (size_list (size_prod (\<lambda>_. 0) size) kvs)"
    by (induction kvs) auto
  with JObj show ?thesis by simp
qed (use assms in \<open>simp_all add: payload_entry_def\<close>)

text \<open>\<open>Deserialize for DataType\<close>: \<open>visit_str\<close> or \<open>visit_map\<close> on the single key.\<close>

function dt_deserialize :: "json \<Rightarrow> string + 'c data_type" where
  "dt_deserialize j =
     (case j of
        JStr v \<Rightarrow> visit_str v
      | JObj [] \<Rightarrow> Inl ''DataType map missing key''
      | JObj [(key, p)] \<Rightarrow>
          (if key = ''big_int'' then bind_res (payload_opt_u32 [''width''] ''width'' p) (\<lambda>w. Inr (TBigInt w))
           else if key = ''decimal'' then
             bind_res (payload_opt_u32 [''precision'', ''scale''] ''precision'' p) (\<lambda>pr.
             bind_res (payload_opt_u32 [''precision'', ''scale''] ''scale'' p) (\<lambda>s. Inr (TDecimal pr s)))
           else if key = ''text'' then bind_res (payload_opt_u32 [''size''] ''size'' p) (\<lambda>n. Inr (TText n))
           else if key = ''bytes'' then bind_res (payload_opt_u32 [''size''] ''size'' p) (\<lambda>n. Inr (TBytes n))
           else if key = ''union'' then
             (case p of
                JArr vs \<Rightarrow> bind_res (mapM_res dt_deserialize vs) (\<lambda>ts. Inr (TUnion ts))
              | _ \<Rightarrow> Inl ''invalid type'')
           else if key = ''array'' then
             bind_res
               (case payload_entry [''element'', ''element_nullable''] ''element'' p of
                  Inl e \<Rightarrow> Inl e
                | Inr None \<Rightarrow> Inr None
                | Inr (Some e) \<Rightarrow> if e = JNull then Inr None else bind_res (dt_deserialize e) (\<lambda>t. Inr (Some t))) (\<lambda>e.
             bind_res (payload_bool [''element'', ''element_nullable''] ''element_nullable'' p) (\<lambda>n. Inr (TArray e n)))
           else if key = ''custom'' then Inl ''DataType::Custom cannot be deserialized''
           else Inl ''unknown variant'')
      | JObj _ \<Rightarrow> Inl ''invalid length''
      | _ \<Rightarrow> Inl ''invalid type'')"
  by pat_completeness auto
termination
proof (relation "measure size", goal_cases)
  case (2 j x7 x list a b x6 z)
  then show ?case by (auto dest: size_in_list)
next
  case (3 j x7 x list a b e)
  then show ?case by (auto dest: payload_entry_size)
qed auto

declare dt_deserialize.simps [simp del]

section \<open>Round trip of the wire format\<close>

primrec custom_free :: "'c data_type \<Rightarrow> bool" where
  "custom_free TBool = True"
| "custom_free TInt8 = True"
| "custom_free TInt16 = True"
| "custom_free TInt32 = True"
| "custom_free TInt64 = True"
| "custom_free TUInt8 = True"
| "custom_free TUInt16 = True"
| "custom_free TUInt32 = True"
| "custom_free TUInt64 = True"
| "custom_free TFloat32 = True"
| "custom_free TFloat64 = True"
| "custom_free (TBigInt _) = True"
| "custom_free (TDecimal _ _) = True"
| "custom_free (TText _) = True"
| "custom_free (TBytes _) = True"
| "custom_free TDate = True"
| "custom_free TTimestamp = True"
| "custom_free TUuid = True"
| "custom_free TIpv4 = True"
| "custom_free TIpv6 = True"
| "custom_free TJson = True"
| "custom_free TXml = True"
| "custom_free TObject = True"
| "custom_free (TUnion vs) = list_all (\<lambda>b. b) (map custom_free vs)"
| "custom_free TInterval = True"
| "custom_free (TArray e _) = (case map_option custom_free e of None \<Rightarrow> True | Some b \<Rightarrow> b)"
| "custom_free (TCustom _) = False"

lemma dt_serialize_not_null [simp]: "dt_serialize ops t \<noteq> JNull"
  by (cases t) simp_all

lemma payload_opt_u32_hit [simp]:
  "payload_opt_u32 fs f (JObj ((f, json_opt_u32 n) # kvs)) = Inr n"
  using uint_lt2p [of "the n"]
  by (cases n) (auto simp: payload_opt_u32_def payload_entry_def)

lemma payload_opt_u32_skip [simp]:
  "g \<noteq> f \<Longrightarrow> payload_opt_u32 fs f (JObj ((g, v) # kvs)) = payload_opt_u32 fs f (JObj kvs)"
  by (simp add: payload_opt_u32_def payload_entry_def)

lemma mapM_res_decode:
  "(\<And>x u. x \<in> set xs \<Longrightarrow> (f (g x) = Inr u) = (P x \<and> u = x)) \<Longrightarrow>
   (mapM_res f (map g xs) = Inr ys) = (list_all P xs \<and> ys = xs)"
proof (induction xs arbitrary: ys)
  case Nil
  then show ?case by auto
next
  case (Cons x xs)
  have "(mapM_res f (map g xs) = Inr zs) = (list_all P xs \<and> zs = xs)" for zs
    using Cons by simp
  with Cons.prems [of x] show ?case by (auto simp: bind_res_Inr_iff)
qed

text \<open>
  C1: reading back a written \<open>DataType\<close> gives exactly the type that was written when no
  connector type occurs in it, at any depth of unions and arrays; a type that carries a
  connector descriptor is never read back as something else, it is refused.
\<close>

theorem dt_wire_roundtrip:
  "dt_deserialize (dt_serialize ops t) = Inr u \<longleftrightarrow> custom_free t \<and> u = t"
proof (induction t arbitrary: u)
  case (TUnion vs)
  have "(mapM_res dt_deserialize (map (dt_serialize ops) vs) = Inr ts) = (list_all custom_free vs \<and> ts = vs)" for ts
    by (rule mapM_res_decode) (rule TUnion)
  then show ?case by (auto simp: dt_deserialize.simps bind_res_Inr_iff list_all_iff)
next
  case (TArray e n)
  then show ?case
    by (cases e) (auto simp: dt_deserialize.simps payload_entry_def payload_bool_def bind_res_Inr_iff)
qed (auto simp: dt_deserialize.simps visit_str_def)

end
