(* ===== verification/ConnTypes.thy ===== *)
theory ConnTypes
  imports DataTypes
begin

text \<open>
  The schema-side descriptors the connectors define (\<open>impl DynType for ...\<close> in
  \<open>crates/commons\<close>), with the trait methods the type model consults. Descriptors without
  parameters are \<open>unit_conn\<close>; those with parameters (\<open>FixedString(n)\<close>, \<open>GEOHASH(nb)\<close>,
  the ClickHouse enums) are further constructors of \<open>conn_type\<close>. The hooks see a foreign
  descriptor only through its kind, so they take the kind function of the descriptor type
  as an argument.
\<close>

section \<open>Descriptors without parameters\<close>

datatype unit_conn =
    MongoObjectIdType
  | MongoJsType
  | BsonObjectType
  | PgHllType
  | PgInetType
  | QuestDbSymbolType
  | QuestDbLong256Type
  | ChInt128Type
  | ChUInt128Type
  | ChInt256Type
  | ChUInt256Type

text \<open>The associated constants \<open>KIND\<close>, one for each descriptor.\<close>

definition OBJECT_ID_KIND :: string where
  [simp]: "OBJECT_ID_KIND = ''mongodb.object_id''"

definition JS_KIND :: string where
  [simp]: "JS_KIND = ''mongodb.javascript''"

definition BSON_OBJECT_KIND :: string where
  [simp]: "BSON_OBJECT_KIND = ''mongodb.bson_object''"

definition HLL_KIND :: string where
  [simp]: "HLL_KIND = ''postgresql.hll''"

definition INET_KIND :: string where
  [simp]: "INET_KIND = ''postgresql.inet''"

definition SYMBOL_KIND :: string where
  [simp]: "SYMBOL_KIND = ''questdb.symbol''"

definition LONG256_KIND :: string where
  [simp]: "LONG256_KIND = ''questdb.long256''"

definition INT128_KIND :: string where
  [simp]: "INT128_KIND = ''clickhouse.int128''"

definition UINT128_KIND :: string where
  [simp]: "UINT128_KIND = ''clickhouse.uint128''"

definition INT256_KIND :: string where
  [simp]: "INT256_KIND = ''clickhouse.int256''"

definition UINT256_KIND :: string where
  [simp]: "UINT256_KIND = ''clickhouse.uint256''"

definition FIXED_STRING_KIND :: string where
  [simp]: "FIXED_STRING_KIND = ''clickhouse.fixed_string''"

definition ENUM8_KIND :: string where
  [simp]: "ENUM8_KIND = ''clickhouse.enum8''"

definition ENUM16_KIND :: string where
  [simp]: "ENUM16_KIND = ''clickhouse.enum16''"

definition GEOHASH_KIND :: string where
  [simp]: "GEOHASH_KIND = ''questdb.geohash''"

text \<open>\<open>kind\<close>, through the trait object.\<close>

primrec unit_kind :: "unit_conn \<Rightarrow> string" where
  "unit_kind MongoObjectIdType = OBJECT_ID_KIND"
| "unit_kind MongoJsType = JS_KIND"
| "unit_kind BsonObjectType = BSON_OBJECT_KIND"
| "unit_kind PgHllType = HLL_KIND"
| "unit_kind PgInetType = INET_KIND"
| "unit_kind QuestDbSymbolType = SYMBOL_KIND"
| "unit_kind QuestDbLong256Type = LONG256_KIND"
| "unit_kind ChInt128Type = INT128_KIND"
| "unit_kind ChUInt128Type = UINT128_KIND"
| "unit_kind ChInt256Type = INT256_KIND"
| "unit_kind ChUInt256Type = UINT256_KIND"

primrec unit_cursor_compatible :: "unit_conn \<Rightarrow> bool" where
  "unit_cursor_compatible MongoObjectIdType = True"
| "unit_cursor_compatible MongoJsType = False"
| "unit_cursor_compatible BsonObjectType = False"
| "unit_cursor_compatible PgHllType = False"
| "unit_cursor_compatible PgInetType = True"
| "unit_cursor_compatible QuestDbSymbolType = False"
| "unit_cursor_compatible QuestDbLong256Type = False"
| "unit_cursor_compatible ChInt128Type = False"
| "unit_cursor_compatible ChUInt128Type = False"
| "unit_cursor_compatible ChInt256Type = False"
| "unit_cursor_compatible ChUInt256Type = False"

text \<open>\<open>Option::is_none_or\<close>, and a target that is a descriptor of the given kind.\<close>

definition is_none_or :: "'a option \<Rightarrow> ('a \<Rightarrow> bool) \<Rightarrow> bool" where
  "is_none_or x p = (case x of None \<Rightarrow> True | Some y \<Rightarrow> p y)"

definition custom_of_kind :: "('c \<Rightarrow> string) \<Rightarrow> string \<Rightarrow> 'c data_type \<Rightarrow> bool" where
  "custom_of_kind kind k t = (case t of TCustom c \<Rightarrow> kind c = k | _ \<Rightarrow> False)"

definition object_id_can_convert_to :: "('c \<Rightarrow> string) \<Rightarrow> 'c data_type \<Rightarrow> bool \<Rightarrow> bool" where
  "object_id_can_convert_to kind target trunc =
     (case target of
        TBytes n \<Rightarrow> is_none_or n (\<lambda>n. n = 12)
      | TText n \<Rightarrow> is_none_or n (\<lambda>n. n = 24)
      | TTimestamp \<Rightarrow> trunc
      | TDate \<Rightarrow> trunc
      | _ \<Rightarrow> False)"

definition js_can_convert_to :: "('c \<Rightarrow> string) \<Rightarrow> 'c data_type \<Rightarrow> bool \<Rightarrow> bool" where
  "js_can_convert_to kind target trunc = (target = TText None \<or> target = TBytes None)"

definition bson_object_can_convert_to :: "('c \<Rightarrow> string) \<Rightarrow> 'c data_type \<Rightarrow> bool \<Rightarrow> bool" where
  "bson_object_can_convert_to kind target trunc =
     (case target of TJson \<Rightarrow> True | TText _ \<Rightarrow> True | _ \<Rightarrow> False)"

definition hll_can_convert_to :: "('c \<Rightarrow> string) \<Rightarrow> 'c data_type \<Rightarrow> bool \<Rightarrow> bool" where
  "hll_can_convert_to kind target trunc = custom_of_kind kind HLL_KIND target"

definition inet_can_convert_to :: "('c \<Rightarrow> string) \<Rightarrow> 'c data_type \<Rightarrow> bool \<Rightarrow> bool" where
  "inet_can_convert_to kind target trunc =
     (custom_of_kind kind INET_KIND target \<or>
      (case target of
         TText n \<Rightarrow> is_none_or n (\<lambda>n. n \<ge> 43)
       | TIpv4 \<Rightarrow> trunc
       | TIpv6 \<Rightarrow> trunc
       | _ \<Rightarrow> False))"

definition symbol_can_convert_to :: "('c \<Rightarrow> string) \<Rightarrow> 'c data_type \<Rightarrow> bool \<Rightarrow> bool" where
  "symbol_can_convert_to kind target trunc =
     ((case target of TText _ \<Rightarrow> True | _ \<Rightarrow> False) \<or> custom_of_kind kind SYMBOL_KIND target)"

definition long256_can_convert_to :: "('c \<Rightarrow> string) \<Rightarrow> 'c data_type \<Rightarrow> bool \<Rightarrow> bool" where
  "long256_can_convert_to kind target trunc = custom_of_kind kind LONG256_KIND target"

definition int128_can_convert_to :: "('c \<Rightarrow> string) \<Rightarrow> 'c data_type \<Rightarrow> bool \<Rightarrow> bool" where
  "int128_can_convert_to kind target trunc =
     ((case target of TBigInt _ \<Rightarrow> True | _ \<Rightarrow> False) \<or> custom_of_kind kind INT128_KIND target)"

definition uint128_can_convert_to :: "('c \<Rightarrow> string) \<Rightarrow> 'c data_type \<Rightarrow> bool \<Rightarrow> bool" where
  "uint128_can_convert_to kind target trunc =
     ((case target of TBigInt _ \<Rightarrow> True | _ \<Rightarrow> False) \<or> custom_of_kind kind UINT128_KIND target)"

definition int256_can_convert_to :: "('c \<Rightarrow> string) \<Rightarrow> 'c data_type \<Rightarrow> bool \<Rightarrow> bool" where
  "int256_can_convert_to kind target trunc =
     ((case target of TBigInt _ \<Rightarrow> True | _ \<Rightarrow> False) \<or> custom_of_kind kind INT256_KIND target)"

definition uint256_can_convert_to :: "('c \<Rightarrow> string) \<Rightarrow> 'c data_type \<Rightarrow> bool \<Rightarrow> bool" where
  "uint256_can_convert_to kind target trunc =
     ((case target of TBigInt _ \<Rightarrow> True | _ \<Rightarrow> False) \<or> custom_of_kind kind UINT256_KIND target)"

text \<open>Dispatch through the trait object.\<close>

primrec unit_can_convert_to :: "('c \<Rightarrow> string) \<Rightarrow> unit_conn \<Rightarrow> 'c data_type \<Rightarrow> bool \<Rightarrow> bool" where
  "unit_can_convert_to kind MongoObjectIdType = object_id_can_convert_to kind"
| "unit_can_convert_to kind MongoJsType = js_can_convert_to kind"
| "unit_can_convert_to kind BsonObjectType = bson_object_can_convert_to kind"
| "unit_can_convert_to kind PgHllType = hll_can_convert_to kind"
| "unit_can_convert_to kind PgInetType = inet_can_convert_to kind"
| "unit_can_convert_to kind QuestDbSymbolType = symbol_can_convert_to kind"
| "unit_can_convert_to kind QuestDbLong256Type = long256_can_convert_to kind"
| "unit_can_convert_to kind ChInt128Type = int128_can_convert_to kind"
| "unit_can_convert_to kind ChUInt128Type = uint128_can_convert_to kind"
| "unit_can_convert_to kind ChInt256Type = int256_can_convert_to kind"
| "unit_can_convert_to kind ChUInt256Type = uint256_can_convert_to kind"

definition object_id_can_construct_from :: "('c \<Rightarrow> string) \<Rightarrow> 'c data_type \<Rightarrow> bool \<Rightarrow> bool" where
  "object_id_can_construct_from kind src trunc =
     (case src of
        TBytes n \<Rightarrow> is_none_or n (\<lambda>n. n = 12)
      | TText n \<Rightarrow> is_none_or n (\<lambda>n. n = 24)
      | _ \<Rightarrow> False)"

definition js_can_construct_from :: "('c \<Rightarrow> string) \<Rightarrow> 'c data_type \<Rightarrow> bool \<Rightarrow> bool" where
  "js_can_construct_from kind src trunc =
     (case src of TText _ \<Rightarrow> True | TBytes _ \<Rightarrow> True | _ \<Rightarrow> False)"

definition bson_object_can_construct_from :: "('c \<Rightarrow> string) \<Rightarrow> 'c data_type \<Rightarrow> bool \<Rightarrow> bool" where
  "bson_object_can_construct_from kind src trunc = (src = TJson)"

definition hll_can_construct_from :: "('c \<Rightarrow> string) \<Rightarrow> 'c data_type \<Rightarrow> bool \<Rightarrow> bool" where
  "hll_can_construct_from kind src trunc = custom_of_kind kind HLL_KIND src"

definition inet_can_construct_from :: "('c \<Rightarrow> string) \<Rightarrow> 'c data_type \<Rightarrow> bool \<Rightarrow> bool" where
  "inet_can_construct_from kind src trunc =
     (custom_of_kind kind INET_KIND src \<or>
      (case src of TText _ \<Rightarrow> True | TIpv4 \<Rightarrow> True | TIpv6 \<Rightarrow> True | _ \<Rightarrow> False))"

definition symbol_can_construct_from :: "('c \<Rightarrow> string) \<Rightarrow> 'c data_type \<Rightarrow> bool \<Rightarrow> bool" where
  "symbol_can_construct_from kind src trunc =
     ((case src of TText _ \<Rightarrow> True | _ \<Rightarrow> False) \<or> custom_of_kind kind SYMBOL_KIND src)"

definition long256_can_construct_from :: "('c \<Rightarrow> string) \<Rightarrow> 'c data_type \<Rightarrow> bool \<Rightarrow> bool" where
  "long256_can_construct_from kind src trunc = custom_of_kind kind LONG256_KIND src"

definition int128_can_construct_from :: "('c \<Rightarrow> string) \<Rightarrow> 'c data_type \<Rightarrow> bool \<Rightarrow> bool" where
  "int128_can_construct_from kind src trunc =
     ((case src of TBigInt _ \<Rightarrow> True | _ \<Rightarrow> False) \<or> custom_of_kind kind INT128_KIND src)"

definition uint128_can_construct_from :: "('c \<Rightarrow> string) \<Rightarrow> 'c data_type \<Rightarrow> bool \<Rightarrow> bool" where
  "uint128_can_construct_from kind src trunc =
     ((case src of TBigInt _ \<Rightarrow> True | _ \<Rightarrow> False) \<or> custom_of_kind kind UINT128_KIND src)"

definition int256_can_construct_from :: "('c \<Rightarrow> string) \<Rightarrow> 'c data_type \<Rightarrow> bool \<Rightarrow> bool" where
  "int256_can_construct_from kind src trunc =
     ((case src of TBigInt _ \<Rightarrow> True | _ \<Rightarrow> False) \<or> custom_of_kind kind INT256_KIND src)"

definition uint256_can_construct_from :: "('c \<Rightarrow> string) \<Rightarrow> 'c data_type \<Rightarrow> bool \<Rightarrow> bool" where
  "uint256_can_construct_from kind src trunc =
     ((case src of TBigInt _ \<Rightarrow> True | _ \<Rightarrow> False) \<or> custom_of_kind kind UINT256_KIND src)"

primrec unit_can_construct_from :: "('c \<Rightarrow> string) \<Rightarrow> unit_conn \<Rightarrow> 'c data_type \<Rightarrow> bool \<Rightarrow> bool" where
  "unit_can_construct_from kind MongoObjectIdType = object_id_can_construct_from kind"
| "unit_can_construct_from kind MongoJsType = js_can_construct_from kind"
| "unit_can_construct_from kind BsonObjectType = bson_object_can_construct_from kind"
| "unit_can_construct_from kind PgHllType = hll_can_construct_from kind"
| "unit_can_construct_from kind PgInetType = inet_can_construct_from kind"
| "unit_can_construct_from kind QuestDbSymbolType = symbol_can_construct_from kind"
| "unit_can_construct_from kind QuestDbLong256Type = long256_can_construct_from kind"
| "unit_can_construct_from kind ChInt128Type = int128_can_construct_from kind"
| "unit_can_construct_from kind ChUInt128Type = uint128_can_construct_from kind"
| "unit_can_construct_from kind ChInt256Type = int256_can_construct_from kind"
| "unit_can_construct_from kind ChUInt256Type = uint256_can_construct_from kind"

lemmas unit_hook_defs =
  object_id_can_convert_to_def js_can_convert_to_def bson_object_can_convert_to_def hll_can_convert_to_def inet_can_convert_to_def symbol_can_convert_to_def long256_can_convert_to_def int128_can_convert_to_def uint128_can_convert_to_def int256_can_convert_to_def uint256_can_convert_to_def
  object_id_can_construct_from_def js_can_construct_from_def bson_object_can_construct_from_def hll_can_construct_from_def inet_can_construct_from_def symbol_can_construct_from_def long256_can_construct_from_def int128_can_construct_from_def uint128_can_construct_from_def int256_can_construct_from_def uint256_can_construct_from_def

text \<open>None of these overrides \<open>is_equal\<close>: the default compares the kinds.\<close>

definition unit_ops :: "unit_conn dyn_ops" where
  "unit_ops =
     \<lparr>dyn_kind = unit_kind,
      dyn_cursor_compatible = unit_cursor_compatible,
      dyn_is_object = (\<lambda>u. u = BsonObjectType),
      dyn_can_convert_to = unit_can_convert_to unit_kind,
      dyn_can_construct_from = unit_can_construct_from unit_kind,
      dyn_is_equal = (\<lambda>a b. unit_kind a = unit_kind b)\<rparr>"

section \<open>Descriptors with parameters\<close>

datatype conn_type =
    UnitType unit_conn
  | ChFixedStringType (fixed_size: u32)
  | ChEnum8Type (enum8_variants: "(string \<times> int) list")
  | ChEnum16Type (enum16_variants: "(string \<times> int) list")
  | QuestDbGeohashType (geohash_bits: u8)

primrec conn_kind :: "conn_type \<Rightarrow> string" where
  "conn_kind (UnitType u) = unit_kind u"
| "conn_kind (ChFixedStringType _) = FIXED_STRING_KIND"
| "conn_kind (ChEnum8Type _) = ENUM8_KIND"
| "conn_kind (ChEnum16Type _) = ENUM16_KIND"
| "conn_kind (QuestDbGeohashType _) = GEOHASH_KIND"

definition fixed_string_can_convert_to :: "u32 \<Rightarrow> conn_type data_type \<Rightarrow> bool \<Rightarrow> bool" where
  "fixed_string_can_convert_to sz target trunc =
     ((case target of TBytes n \<Rightarrow> is_none_or n (\<lambda>n. n = sz) | _ \<Rightarrow> False)
      \<or> custom_of_kind conn_kind FIXED_STRING_KIND target)"

definition enum8_can_convert_to :: "conn_type data_type \<Rightarrow> bool \<Rightarrow> bool" where
  "enum8_can_convert_to target trunc =
     ((case target of TText _ \<Rightarrow> True | _ \<Rightarrow> False) \<or> custom_of_kind conn_kind ENUM8_KIND target)"

definition enum16_can_convert_to :: "conn_type data_type \<Rightarrow> bool \<Rightarrow> bool" where
  "enum16_can_convert_to target trunc =
     ((case target of TText _ \<Rightarrow> True | _ \<Rightarrow> False) \<or> custom_of_kind conn_kind ENUM16_KIND target)"

definition geohash_can_convert_to :: "conn_type data_type \<Rightarrow> bool \<Rightarrow> bool" where
  "geohash_can_convert_to target trunc = custom_of_kind conn_kind GEOHASH_KIND target"

primrec conn_can_convert_to :: "conn_type \<Rightarrow> conn_type data_type \<Rightarrow> bool \<Rightarrow> bool" where
  "conn_can_convert_to (UnitType u) = unit_can_convert_to conn_kind u"
| "conn_can_convert_to (ChFixedStringType sz) = fixed_string_can_convert_to sz"
| "conn_can_convert_to (ChEnum8Type _) = enum8_can_convert_to"
| "conn_can_convert_to (ChEnum16Type _) = enum16_can_convert_to"
| "conn_can_convert_to (QuestDbGeohashType _) = geohash_can_convert_to"

definition fixed_string_can_construct_from :: "u32 \<Rightarrow> conn_type data_type \<Rightarrow> bool \<Rightarrow> bool" where
  "fixed_string_can_construct_from sz src trunc =
     ((case src of TBytes n \<Rightarrow> is_none_or n (\<lambda>n. n = sz) | _ \<Rightarrow> False)
      \<or> custom_of_kind conn_kind FIXED_STRING_KIND src)"

definition enum8_can_construct_from :: "conn_type data_type \<Rightarrow> bool \<Rightarrow> bool" where
  "enum8_can_construct_from src trunc =
     ((case src of TText _ \<Rightarrow> True | _ \<Rightarrow> False) \<or> custom_of_kind conn_kind ENUM8_KIND src)"

definition enum16_can_construct_from :: "conn_type data_type \<Rightarrow> bool \<Rightarrow> bool" where
  "enum16_can_construct_from src trunc =
     ((case src of TText _ \<Rightarrow> True | _ \<Rightarrow> False) \<or> custom_of_kind conn_kind ENUM16_KIND src)"

definition geohash_can_construct_from :: "conn_type data_type \<Rightarrow> bool \<Rightarrow> bool" where
  "geohash_can_construct_from src trunc = custom_of_kind conn_kind GEOHASH_KIND src"

primrec conn_can_construct_from :: "conn_type \<Rightarrow> conn_type data_type \<Rightarrow> bool \<Rightarrow> bool" where
  "conn_can_construct_from (UnitType u) = unit_can_construct_from conn_kind u"
| "conn_can_construct_from (ChFixedStringType sz) = fixed_string_can_construct_from sz"
| "conn_can_construct_from (ChEnum8Type _) = enum8_can_construct_from"
| "conn_can_construct_from (ChEnum16Type _) = enum16_can_construct_from"
| "conn_can_construct_from (QuestDbGeohashType _) = geohash_can_construct_from"

lemmas conn_hook_defs =
  fixed_string_can_convert_to_def enum8_can_convert_to_def enum16_can_convert_to_def geohash_can_convert_to_def
  fixed_string_can_construct_from_def enum8_can_construct_from_def enum16_can_construct_from_def geohash_can_construct_from_def

text \<open>Only the geohash descriptor overrides \<open>is_equal\<close>.\<close>

definition conn_is_equal :: "conn_type \<Rightarrow> conn_type \<Rightarrow> bool" where
  "conn_is_equal a b =
     (case a of
        QuestDbGeohashType n \<Rightarrow> (case b of QuestDbGeohashType m \<Rightarrow> m = n | _ \<Rightarrow> False)
      | _ \<Rightarrow> conn_kind a = conn_kind b)"

definition conn_ops :: "conn_type dyn_ops" where
  "conn_ops =
     \<lparr>dyn_kind = conn_kind,
      dyn_cursor_compatible = (\<lambda>c. case c of UnitType u \<Rightarrow> unit_cursor_compatible u | _ \<Rightarrow> False),
      dyn_is_object = (\<lambda>c. c = UnitType BsonObjectType),
      dyn_can_convert_to = conn_can_convert_to,
      dyn_can_construct_from = conn_can_construct_from,
      dyn_is_equal = conn_is_equal\<rparr>"

section \<open>The contract on the connectors' descriptors\<close>

interpretation unit_dyn: dyn_identity unit_ops
proof
  fix a b :: unit_conn
  show "dyn_is_equal unit_ops a a" by (simp add: unit_ops_def)
  show "dyn_kind unit_ops a = dyn_kind unit_ops b \<Longrightarrow> a = b"
    by (cases a; cases b) (simp_all add: unit_ops_def)
qed

interpretation conn_dyn: dyn_reflexive conn_ops
proof
  show "dyn_is_equal conn_ops a a" for a
    by (cases a) (simp_all add: conn_ops_def conn_is_equal_def)
qed

text \<open>Both hooks are monotone in the \<open>truncate\<close> flag.\<close>

lemma unit_hooks_mono:
  "unit_can_convert_to kind u t False \<Longrightarrow> unit_can_convert_to kind u t True"
  "unit_can_construct_from kind u t False \<Longrightarrow> unit_can_construct_from kind u t True"
  by (cases u; cases t; simp add: unit_hook_defs)+

lemma conn_hooks_mono:
  "conn_can_convert_to c t False \<Longrightarrow> conn_can_convert_to c t True"
  "conn_can_construct_from c t False \<Longrightarrow> conn_can_construct_from c t True"
  by (cases c; simp add: unit_hooks_mono conn_hook_defs)+

text \<open>
  C2: where the kind identifies a descriptor, \<open>Ord\<close> on \<open>DataType\<close> is a total order
  consistent with equality, at any depth of unions and arrays: \<open>cmp\<close> answers \<open>Equal\<close>
  only on the same type, reverses when its arguments are swapped, and is transitive.
\<close>

theorem dt_cmp_total_order:
  assumes "dyn_identity ops"
  shows "(dt_cmp ops a b = Equal \<longleftrightarrow> dt_eq ops a b) \<and> (dt_eq ops a b \<longleftrightarrow> a = b)
    \<and> dt_cmp ops b a = cmp_rev (dt_cmp ops a b)
    \<and> (dt_cmp ops a b \<noteq> Greater \<and> dt_cmp ops b c \<noteq> Greater \<longrightarrow> dt_cmp ops a c \<noteq> Greater)"
proof (intro conjI impI)
  show "dt_cmp ops a b = Equal \<longleftrightarrow> dt_eq ops a b" by (rule dyn_identity.dt_cmp_laws(1) [OF assms])
  show "dt_eq ops a b \<longleftrightarrow> a = b" by (rule dyn_identity.dt_cmp_laws(2) [OF assms])
  show "dt_cmp ops b a = cmp_rev (dt_cmp ops a b)" by (rule dyn_identity.dt_cmp_laws(3) [OF assms])
  assume "dt_cmp ops a b \<noteq> Greater \<and> dt_cmp ops b c \<noteq> Greater"
  then show "dt_cmp ops a c \<noteq> Greater"
    using dyn_identity.dt_cmp_laws(4) [OF assms, of a b c] by simp
qed

theorem dt_cmp_total_order_witness:
  "dt_cmp unit_ops (TUnion [TCustom PgHllType]) (TUnion [TInt8])
     = cmp_rev (dt_cmp unit_ops (TUnion [TInt8]) (TUnion [TCustom PgHllType]))"
  using dt_cmp_total_order
    [OF unit_dyn.dyn_identity_axioms, of "TUnion [TInt8]" "TUnion [TCustom PgHllType]"]
  by blast

text \<open>
  C3: the descriptors with parameters break the contract of \<open>dynamic.rs\<close> that a parametric
  type overrides \<open>is_equal\<close>: all fixed-string columns compare equal, whatever their length,
  and \<open>Ord\<close> answers \<open>Equal\<close> on geohash columns that are not equal.
\<close>

theorem parametric_descriptor_equality:
  "dt_eq conn_ops (TCustom (ChFixedStringType m)) (TCustom (ChFixedStringType n))
    \<and> dt_cmp conn_ops (TCustom (QuestDbGeohashType i)) (TCustom (QuestDbGeohashType j)) = Equal
    \<and> (dt_eq conn_ops (TCustom (QuestDbGeohashType i)) (TCustom (QuestDbGeohashType j)) \<longleftrightarrow> i = j)"
  using cmp_atD(1) [OF cmp_string_at(1)]
  by (auto simp: dt_eq.simps dyn_eq_def dyn_cmp_def conn_ops_def conn_is_equal_def)

end
