(* ===== verification/Matrix.thy ===== *)
theory Matrix
  imports ConnTypes Complex_Main
begin

text \<open>
  The compatibility matrix (\<open>crates/types/src/matrix.rs\<close>): which source type may be
  written to which sink column, without loss (\<open>is_compatible\<close>) and under the operator's
  \<open>truncate\<close> consent (\<open>is_compatible_with_truncate\<close>), and which rejected pairs are
  narrowings (\<open>is_narrowing\<close>). The arms of each \<open>match\<close> are grouped by source type; arms
  of one source never overlap in the code, so the grouping keeps the first-match meaning.
\<close>

section \<open>Size and digit rules\<close>

definition saturating_sub :: "u32 \<Rightarrow> u32 \<Rightarrow> u32" where
  "saturating_sub a b = (if b \<le> a then a - b else 0)"

definition unwrap_or :: "'a option \<Rightarrow> 'a \<Rightarrow> 'a" where
  "unwrap_or x d = (case x of None \<Rightarrow> d | Some y \<Rightarrow> y)"

definition decimal_fits_int_digits :: "u32 option \<Rightarrow> u32 option \<Rightarrow> u32 \<Rightarrow> bool" where
  "decimal_fits_int_digits precision scale digits =
     (case precision of
        None \<Rightarrow> True
      | Some p \<Rightarrow> (case scale of Some s \<Rightarrow> saturating_sub p s \<ge> digits | None \<Rightarrow> p \<ge> digits))"

definition decimal_fits_bigint :: "u32 option \<Rightarrow> u32 option \<Rightarrow> u32 option \<Rightarrow> bool" where
  "decimal_fits_bigint width precision scale =
     (case precision of
        None \<Rightarrow> True
      | Some p \<Rightarrow> (case width of None \<Rightarrow> False | Some w \<Rightarrow> saturating_sub p (unwrap_or scale 0) \<ge> w))"

definition decimal_fits_decimal :: "u32 option \<Rightarrow> u32 option \<Rightarrow> u32 option \<Rightarrow> u32 option \<Rightarrow> bool" where
  "decimal_fits_decimal pa sa pb sb =
     (case pb of
        None \<Rightarrow> True
      | Some qb \<Rightarrow>
          (case pa of
             None \<Rightarrow> False
           | Some qa \<Rightarrow>
               (let ta = unwrap_or sa 0; tb = unwrap_or sb 0
                in tb \<ge> ta \<and> saturating_sub qb tb \<ge> saturating_sub qa ta)))"

definition fits_size :: "u32 option \<Rightarrow> u32 option \<Rightarrow> bool" where
  "fits_size source sink =
     (case sink of
        None \<Rightarrow> True
      | Some b \<Rightarrow> (case source of None \<Rightarrow> False | Some a \<Rightarrow> a \<le> b))"

section \<open>The lossless matrix\<close>

text \<open>The arms with a numeric or boolean source.\<close>

definition lossless_from_numeric :: "'c data_type \<Rightarrow> 'c data_type \<Rightarrow> bool" where
  "lossless_from_numeric s t =
     (case s of
        TBool \<Rightarrow>
          (case t of
             TInt8 \<Rightarrow> True | TInt16 \<Rightarrow> True | TInt32 \<Rightarrow> True | TInt64 \<Rightarrow> True
           | TUInt8 \<Rightarrow> True | TUInt16 \<Rightarrow> True | TUInt32 \<Rightarrow> True | TUInt64 \<Rightarrow> True
           | TFloat32 \<Rightarrow> True | TFloat64 \<Rightarrow> True
           | TBigInt _ \<Rightarrow> True
           | TDecimal p sc \<Rightarrow> decimal_fits_int_digits p sc 1
           | TText n \<Rightarrow> n = None
           | _ \<Rightarrow> False)
      | TInt8 \<Rightarrow>
          (case t of
             TInt16 \<Rightarrow> True | TInt32 \<Rightarrow> True | TInt64 \<Rightarrow> True
           | TFloat32 \<Rightarrow> True | TFloat64 \<Rightarrow> True
           | TBool \<Rightarrow> True
           | TBigInt _ \<Rightarrow> True
           | TDecimal p sc \<Rightarrow> decimal_fits_int_digits p sc 3
           | TText n \<Rightarrow> n = None
           | _ \<Rightarrow> False)
      | TInt16 \<Rightarrow>
          (case t of
             TInt32 \<Rightarrow> True | TInt64 \<Rightarrow> True
           | TFloat32 \<Rightarrow> True | TFloat64 \<Rightarrow> True
           | TBool \<Rightarrow> True
           | TBigInt _ \<Rightarrow> True
           | TDecimal p sc \<Rightarrow> decimal_fits_int_digits p sc 5
           | TText n \<Rightarrow> n = None
           | _ \<Rightarrow> False)
      | TInt32 \<Rightarrow>
          (case t of
             TInt64 \<Rightarrow> True
           | TFloat64 \<Rightarrow> True
           | TBool \<Rightarrow> True
           | TBigInt _ \<Rightarrow> True
           | TDecimal p sc \<Rightarrow> decimal_fits_int_digits p sc 10
           | TText n \<Rightarrow> n = None
           | _ \<Rightarrow> False)
      | TInt64 \<Rightarrow>
          (case t of
             TBool \<Rightarrow> True
           | TBigInt _ \<Rightarrow> True
           | TDecimal p sc \<Rightarrow> decimal_fits_int_digits p sc 19
           | TText n \<Rightarrow> n = None
           | _ \<Rightarrow> False)
      | TUInt8 \<Rightarrow>
          (case t of
             TUInt16 \<Rightarrow> True | TUInt32 \<Rightarrow> True | TUInt64 \<Rightarrow> True
           | TInt16 \<Rightarrow> True | TInt32 \<Rightarrow> True | TInt64 \<Rightarrow> True
           | TBool \<Rightarrow> True
           | TBigInt _ \<Rightarrow> True
           | TDecimal p sc \<Rightarrow> decimal_fits_int_digits p sc 3
           | TText n \<Rightarrow> n = None
           | _ \<Rightarrow> False)
      | TUInt16 \<Rightarrow>
          (case t of
             TUInt32 \<Rightarrow> True | TUInt64 \<Rightarrow> True
           | TInt32 \<Rightarrow> True | TInt64 \<Rightarrow> True
           | TBool \<Rightarrow> True
           | TBigInt _ \<Rightarrow> True
           | TDecimal p sc \<Rightarrow> decimal_fits_int_digits p sc 5
           | TText n \<Rightarrow> n = None
           | _ \<Rightarrow> False)
      | TUInt32 \<Rightarrow>
          (case t of
             TUInt64 \<Rightarrow> True
           | TInt64 \<Rightarrow> True
           | TBool \<Rightarrow> True
           | TBigInt _ \<Rightarrow> True
           | TDecimal p sc \<Rightarrow> decimal_fits_int_digits p sc 10
           | TText n \<Rightarrow> n = None
           | _ \<Rightarrow> False)
      | TUInt64 \<Rightarrow>
          (case t of
             TBool \<Rightarrow> True
           | TBigInt _ \<Rightarrow> True
           | TDecimal p sc \<Rightarrow> decimal_fits_int_digits p sc 20
           | TText n \<Rightarrow> n = None
           | _ \<Rightarrow> False)
      | TFloat32 \<Rightarrow> (case t of TFloat64 \<Rightarrow> True | TText n \<Rightarrow> n = None | _ \<Rightarrow> False)
      | TFloat64 \<Rightarrow> (case t of TText n \<Rightarrow> n = None | _ \<Rightarrow> False)
      | TBigInt a \<Rightarrow>
          (case t of
             TBigInt b \<Rightarrow> fits_size a b
           | TDecimal p sc \<Rightarrow> decimal_fits_bigint a p sc
           | TText n \<Rightarrow> n = None
           | _ \<Rightarrow> False)
      | TDecimal pa sa \<Rightarrow>
          (case t of
             TDecimal pb sb \<Rightarrow> decimal_fits_decimal pa sa pb sb
           | TText n \<Rightarrow> n = None
           | _ \<Rightarrow> False)
      | _ \<Rightarrow> False)"

text \<open>The arms with a textual, binary, temporal, network or document source, arrays into
  documents included.\<close>

definition lossless_from_other :: "'c data_type \<Rightarrow> 'c data_type \<Rightarrow> bool" where
  "lossless_from_other s t =
     (case s of
        TText a \<Rightarrow>
          (case t of
             TText b \<Rightarrow> fits_size a b
           | TUuid \<Rightarrow> is_none_or a (\<lambda>n. n \<ge> 36)
           | TXml \<Rightarrow> True
           | TBool \<Rightarrow> True
           | TIpv4 \<Rightarrow> is_none_or a (\<lambda>n. n \<ge> 7)
           | TIpv6 \<Rightarrow> is_none_or a (\<lambda>n. n \<ge> 2)
           | _ \<Rightarrow> False)
      | TBytes a \<Rightarrow>
          (case t of
             TBytes b \<Rightarrow> fits_size a b
           | TUuid \<Rightarrow> is_none_or a (\<lambda>n. n \<ge> 16)
           | TIpv4 \<Rightarrow> is_none_or a (\<lambda>n. n \<ge> 4)
           | TIpv6 \<Rightarrow> is_none_or a (\<lambda>n. n \<ge> 16)
           | TText n \<Rightarrow> n = None
           | _ \<Rightarrow> False)
      | TUuid \<Rightarrow>
          (case t of
             TText b \<Rightarrow> is_none_or b (\<lambda>n. n \<ge> 36)
           | TBytes b \<Rightarrow> is_none_or b (\<lambda>n. n \<ge> 16)
           | _ \<Rightarrow> False)
      | TIpv4 \<Rightarrow>
          (case t of
             TIpv6 \<Rightarrow> True
           | TText b \<Rightarrow> is_none_or b (\<lambda>n. n \<ge> 15)
           | TBytes b \<Rightarrow> is_none_or b (\<lambda>n. n \<ge> 4)
           | _ \<Rightarrow> False)
      | TIpv6 \<Rightarrow>
          (case t of
             TText b \<Rightarrow> is_none_or b (\<lambda>n. n \<ge> 39)
           | TBytes b \<Rightarrow> is_none_or b (\<lambda>n. n \<ge> 16)
           | _ \<Rightarrow> False)
      | TXml \<Rightarrow> t = TText None
      | TJson \<Rightarrow> t = TText None
      | TObject \<Rightarrow> t = TJson \<or> t = TText None
      | TArray _ _ \<Rightarrow> t = TJson \<or> t = TText None
      | TDate \<Rightarrow> t = TText None
      | TTimestamp \<Rightarrow> t = TText None
      | _ \<Rightarrow> False)"

definition lossless_arms :: "'c data_type \<Rightarrow> 'c data_type \<Rightarrow> bool" where
  "lossless_arms s t \<longleftrightarrow> lossless_from_numeric s t \<or> lossless_from_other s t"

text \<open>
  \<open>array_element_compatible\<close> over the scalar matrix it delegates to: a nullable element
  needs consent to lose its nulls, an unknown element on either side is a wildcard.
\<close>

definition array_element_compatible ::
  "('a \<Rightarrow> 'a \<Rightarrow> bool) \<Rightarrow> 'a option \<Rightarrow> bool \<Rightarrow> 'a option \<Rightarrow> bool \<Rightarrow> bool \<Rightarrow> bool" where
  "array_element_compatible elem_ok se sn te tn trunc =
     (if sn \<and> \<not> tn \<and> \<not> trunc then False
      else case se of None \<Rightarrow> True | Some s \<Rightarrow> (case te of None \<Rightarrow> True | Some t \<Rightarrow> elem_ok s t))"

lemma array_element_compatible_cong [fundef_cong]:
  "se = se' \<Longrightarrow> sn = sn' \<Longrightarrow> te = te' \<Longrightarrow> tn = tn' \<Longrightarrow> trunc = trunc' \<Longrightarrow>
   (\<And>s t. se' = Some s \<Longrightarrow> te' = Some t \<Longrightarrow> c s t = c' s t) \<Longrightarrow>
   array_element_compatible c se sn te tn trunc = array_element_compatible c' se' sn' te' tn' trunc'"
  by (auto simp: array_element_compatible_def split: option.splits)

text \<open>The \<open>if let\<close> patterns on \<open>Union\<close>, \<open>Custom\<close> and \<open>Array\<close>.\<close>

definition union_of :: "'c data_type \<Rightarrow> 'c data_type list option" where
  "union_of t = (case t of TUnion vs \<Rightarrow> Some vs | _ \<Rightarrow> None)"

definition custom_of :: "'c data_type \<Rightarrow> 'c option" where
  "custom_of t = (case t of TCustom c \<Rightarrow> Some c | _ \<Rightarrow> None)"

definition array_of :: "'c data_type \<Rightarrow> ('c data_type option \<times> bool) option" where
  "array_of t = (case t of TArray e n \<Rightarrow> Some (e, n) | _ \<Rightarrow> None)"

lemma part_of_Some_iff:
  "union_of t = Some vs \<longleftrightarrow> t = TUnion vs"
  "custom_of t = Some c \<longleftrightarrow> t = TCustom c"
  "array_of t = Some (e, n) \<longleftrightarrow> t = TArray e n"
  by (cases t; simp add: union_of_def custom_of_def array_of_def)+

lemma part_of_simps [simp]:
  "union_of (TUnion vs) = Some vs" "custom_of (TCustom c) = Some c" "array_of (TArray e n) = Some (e, n)"
  by (simp_all add: part_of_Some_iff)

lemma array_of_size: "Some (Some x, b) = array_of s \<Longrightarrow> size x < size s"
  by (cases s) (simp_all add: array_of_def)

function is_compatible :: "'c dyn_ops \<Rightarrow> 'c data_type \<Rightarrow> 'c data_type \<Rightarrow> bool" where
  "is_compatible ops s t =
     (if dt_eq ops s t then True
      else case union_of s of
        Some vs \<Rightarrow> list_all (\<lambda>v. is_compatible ops v t) vs
      | None \<Rightarrow>
        (if union_of t \<noteq> None then False
         else case custom_of s of
           Some a \<Rightarrow>
             (case custom_of t of
                Some b \<Rightarrow> dyn_is_equal ops a b
              | None \<Rightarrow> dyn_can_convert_to ops a t False)
         | None \<Rightarrow>
           (case custom_of t of
              Some b \<Rightarrow> dyn_can_construct_from ops b s False
            | None \<Rightarrow>
              (case (array_of s, array_of t) of
                 (Some (se, sn), Some (te, tn)) \<Rightarrow>
                   array_element_compatible (is_compatible ops) se sn te tn False
               | _ \<Rightarrow> lossless_arms s t))))"
  by pat_completeness auto
termination
  by (relation "measure (\<lambda>(ops, s, t). size s)") (auto simp: size_in_list part_of_Some_iff dest: array_of_size)

declare is_compatible.simps [simp del]

section \<open>The matrix under truncation consent\<close>

definition any_fixed_int :: "'c data_type \<Rightarrow> bool" where
  "any_fixed_int t =
     (case t of
        TInt64 \<Rightarrow> True | TInt32 \<Rightarrow> True | TInt16 \<Rightarrow> True | TInt8 \<Rightarrow> True
      | TUInt64 \<Rightarrow> True | TUInt32 \<Rightarrow> True | TUInt16 \<Rightarrow> True | TUInt8 \<Rightarrow> True
      | _ \<Rightarrow> False)"

definition any_uint :: "'c data_type \<Rightarrow> bool" where
  "any_uint t = (case t of TUInt64 \<Rightarrow> True | TUInt32 \<Rightarrow> True | TUInt16 \<Rightarrow> True | TUInt8 \<Rightarrow> True | _ \<Rightarrow> False)"

definition bounded_text :: "'c data_type \<Rightarrow> bool" where
  "bounded_text t = (case t of TText (Some _) \<Rightarrow> True | _ \<Rightarrow> False)"

text \<open>The extra arms; every pair of the lossless matrix is decided before them.\<close>

definition truncate_arms :: "'c data_type \<Rightarrow> 'c data_type \<Rightarrow> bool" where
  "truncate_arms s t =
     (case s of
        TText _ \<Rightarrow> (case t of TText _ \<Rightarrow> True | _ \<Rightarrow> False)
      | TBytes _ \<Rightarrow> (case t of TBytes _ \<Rightarrow> True | _ \<Rightarrow> bounded_text t)
      | TInt64 \<Rightarrow> (case t of TInt32 \<Rightarrow> True | TInt16 \<Rightarrow> True | TInt8 \<Rightarrow> True | _ \<Rightarrow> any_uint t \<or> bounded_text t)
      | TInt32 \<Rightarrow> (case t of TInt16 \<Rightarrow> True | TInt8 \<Rightarrow> True | _ \<Rightarrow> any_uint t \<or> bounded_text t)
      | TInt16 \<Rightarrow> (case t of TInt8 \<Rightarrow> True | _ \<Rightarrow> any_uint t \<or> bounded_text t)
      | TInt8 \<Rightarrow> any_uint t \<or> bounded_text t
      | TUInt64 \<Rightarrow>
          (case t of
             TUInt32 \<Rightarrow> True | TUInt16 \<Rightarrow> True | TUInt8 \<Rightarrow> True
           | TInt64 \<Rightarrow> True | TInt32 \<Rightarrow> True | TInt16 \<Rightarrow> True | TInt8 \<Rightarrow> True
           | _ \<Rightarrow> bounded_text t)
      | TUInt32 \<Rightarrow>
          (case t of
             TUInt16 \<Rightarrow> True | TUInt8 \<Rightarrow> True | TInt32 \<Rightarrow> True | TInt16 \<Rightarrow> True | TInt8 \<Rightarrow> True
           | _ \<Rightarrow> bounded_text t)
      | TUInt16 \<Rightarrow> (case t of TUInt8 \<Rightarrow> True | TInt16 \<Rightarrow> True | TInt8 \<Rightarrow> True | _ \<Rightarrow> bounded_text t)
      | TUInt8 \<Rightarrow> (case t of TInt8 \<Rightarrow> True | _ \<Rightarrow> bounded_text t)
      | TFloat64 \<Rightarrow> (case t of TFloat32 \<Rightarrow> True | TBool \<Rightarrow> True | _ \<Rightarrow> any_fixed_int t \<or> bounded_text t)
      | TFloat32 \<Rightarrow> (case t of TBool \<Rightarrow> True | _ \<Rightarrow> any_fixed_int t \<or> bounded_text t)
      | TBigInt _ \<Rightarrow> (case t of TBigInt _ \<Rightarrow> True | TBool \<Rightarrow> True | _ \<Rightarrow> any_fixed_int t \<or> bounded_text t)
      | TDecimal _ _ \<Rightarrow>
          (case t of
             TDecimal _ _ \<Rightarrow> True | TBigInt _ \<Rightarrow> True | TBool \<Rightarrow> True
           | TFloat64 \<Rightarrow> True | TFloat32 \<Rightarrow> True
           | _ \<Rightarrow> any_fixed_int t \<or> bounded_text t)
      | TJson \<Rightarrow> (case t of TObject \<Rightarrow> True | _ \<Rightarrow> bounded_text t)
      | TXml \<Rightarrow> bounded_text t
      | TTimestamp \<Rightarrow> (case t of TDate \<Rightarrow> True | _ \<Rightarrow> bounded_text t)
      | TIpv6 \<Rightarrow> (case t of TIpv4 \<Rightarrow> True | _ \<Rightarrow> False)
      | TObject \<Rightarrow> bounded_text t
      | TArray _ _ \<Rightarrow> bounded_text t
      | TBool \<Rightarrow> bounded_text t
      | TDate \<Rightarrow> bounded_text t
      | _ \<Rightarrow> False)"

function is_compatible_with_truncate :: "'c dyn_ops \<Rightarrow> 'c data_type \<Rightarrow> 'c data_type \<Rightarrow> bool" where
  "is_compatible_with_truncate ops s t =
     (case union_of s of
        Some vs \<Rightarrow> list_all (\<lambda>v. is_compatible_with_truncate ops v t) vs
      | None \<Rightarrow>
        (if union_of t \<noteq> None then False
         else case custom_of s of
           Some a \<Rightarrow>
             (case custom_of t of
                Some b \<Rightarrow> dyn_is_equal ops a b
              | None \<Rightarrow> dyn_can_convert_to ops a t True)
         | None \<Rightarrow>
           (case custom_of t of
              Some b \<Rightarrow> dyn_can_construct_from ops b s True
            | None \<Rightarrow>
              (if is_compatible ops s t then True
               else case (array_of s, array_of t) of
                 (Some (se, sn), Some (te, tn)) \<Rightarrow>
                   array_element_compatible (is_compatible_with_truncate ops) se sn te tn True
               | _ \<Rightarrow> truncate_arms s t))))"
  by pat_completeness auto
termination
  by (relation "measure (\<lambda>(ops, s, t). size s)") (auto simp: size_in_list part_of_Some_iff dest: array_of_size)

declare is_compatible_with_truncate.simps [simp del]

section \<open>Narrowing\<close>

definition narrowing_pair :: "'c data_type \<Rightarrow> 'c data_type \<Rightarrow> bool" where
  "narrowing_pair s t =
     (case s of
        TInt32 \<Rightarrow> (case t of TInt16 \<Rightarrow> True | TInt8 \<Rightarrow> True | _ \<Rightarrow> any_uint t)
      | TInt16 \<Rightarrow> (case t of TInt8 \<Rightarrow> True | _ \<Rightarrow> any_uint t)
      | TInt64 \<Rightarrow> (case t of TInt16 \<Rightarrow> True | TInt8 \<Rightarrow> True | TInt32 \<Rightarrow> True | _ \<Rightarrow> any_uint t)
      | TInt8 \<Rightarrow> any_uint t
      | TFloat64 \<Rightarrow> (case t of TFloat32 \<Rightarrow> True | _ \<Rightarrow> any_fixed_int t)
      | TFloat32 \<Rightarrow> any_fixed_int t
      | TUInt16 \<Rightarrow> t = TUInt8
      | TUInt32 \<Rightarrow> t = TUInt8 \<or> t = TUInt16
      | TUInt64 \<Rightarrow> t = TUInt8 \<or> t = TUInt16 \<or> t = TUInt32
      | TUInt8 \<Rightarrow> t = TInt8
      | TIpv6 \<Rightarrow> t = TIpv4
      | _ \<Rightarrow> False)"

definition size_narrows :: "u32 option \<Rightarrow> u32 option \<Rightarrow> bool" where
  "size_narrows a b = (case b of None \<Rightarrow> False | Some y \<Rightarrow> (case a of None \<Rightarrow> True | Some x \<Rightarrow> x > y))"

definition scalar_narrowing :: "'c data_type \<Rightarrow> 'c data_type \<Rightarrow> bool" where
  "scalar_narrowing s t =
     (case s of
        TText a \<Rightarrow> (case t of TText b \<Rightarrow> size_narrows a b | _ \<Rightarrow> False)
      | TBytes a \<Rightarrow> (case t of TBytes b \<Rightarrow> size_narrows a b | _ \<Rightarrow> False)
      | TDecimal _ _ \<Rightarrow> (case t of TFloat64 \<Rightarrow> True | TFloat32 \<Rightarrow> True | _ \<Rightarrow> False)
      | _ \<Rightarrow> narrowing_pair s t)"

function is_narrowing :: "'c data_type \<Rightarrow> 'c data_type \<Rightarrow> bool" where
  "is_narrowing s t =
     (case union_of s of
        Some vs \<Rightarrow> list_all (\<lambda>v. is_narrowing v t) vs
      | None \<Rightarrow>
        (if union_of t \<noteq> None then False
         else if custom_of s \<noteq> None \<or> custom_of t \<noteq> None then False
         else case (array_of s, array_of t) of
           (Some (se, sn), Some (te, tn)) \<Rightarrow>
             (if sn \<and> \<not> tn then True
              else case (se, te) of (Some x, Some y) \<Rightarrow> is_narrowing x y | _ \<Rightarrow> False)
         | _ \<Rightarrow> scalar_narrowing s t))"
  by pat_completeness auto
termination
  by (relation "measure (\<lambda>(s, t). size s)") (auto simp: size_in_list part_of_Some_iff dest: array_of_size)

declare is_narrowing.simps [simp del]

section \<open>Basic facts\<close>

named_theorems matrix_defs \<open>the arms of the matrices\<close>

lemmas [matrix_defs] = lossless_arms_def lossless_from_numeric_def lossless_from_other_def
  truncate_arms_def any_fixed_int_def any_uint_def bounded_text_def
  scalar_narrowing_def narrowing_pair_def size_narrows_def

lemma dt_eq_variant: "dt_eq ops a b \<Longrightarrow> variant_order a = variant_order b"
  by (cases a; cases b) (simp_all add: dt_eq.simps)

lemma dt_eq_union_of: "dt_eq ops (TUnion vs) t \<Longrightarrow> union_of t \<noteq> None"
  by (cases t) (simp_all add: dt_eq.simps)

lemma dt_eq_custom: "dt_eq ops (TCustom a) t \<Longrightarrow> \<exists>b. t = TCustom b \<and> dyn_is_equal ops a b"
  by (cases t) (simp_all add: dt_eq.simps dyn_eq_def)

lemma dt_eq_custom2: "dt_eq ops s (TCustom b) \<Longrightarrow> custom_of s \<noteq> None"
  by (cases s) (simp_all add: dt_eq.simps)

lemma is_compatible_union:
  "union_of t = None \<Longrightarrow> is_compatible ops (TUnion vs) t \<longleftrightarrow> list_all (\<lambda>v. is_compatible ops v t) vs"
  using dt_eq_union_of [of ops vs t] by (auto simp: is_compatible.simps [of ops "TUnion vs"])

lemma truncate_union:
  "is_compatible_with_truncate ops (TUnion vs) t \<longleftrightarrow> list_all (\<lambda>v. is_compatible_with_truncate ops v t) vs"
  by (simp add: is_compatible_with_truncate.simps [of ops "TUnion vs"])

lemma is_compatible_scalar:
  "union_of s = None \<Longrightarrow> union_of t = None \<Longrightarrow> custom_of s = None \<Longrightarrow> custom_of t = None \<Longrightarrow>
   array_of s = None \<or> array_of t = None \<Longrightarrow>
   is_compatible ops s t \<longleftrightarrow> dt_eq ops s t \<or> lossless_arms s t"
  by (auto simp: is_compatible.simps [of ops s t] split: option.splits)

lemma truncate_scalar:
  "union_of s = None \<Longrightarrow> union_of t = None \<Longrightarrow> custom_of s = None \<Longrightarrow> custom_of t = None \<Longrightarrow>
   array_of s = None \<or> array_of t = None \<Longrightarrow>
   is_compatible_with_truncate ops s t \<longleftrightarrow> is_compatible ops s t \<or> truncate_arms s t"
  by (auto simp: is_compatible_with_truncate.simps [of ops s t] split: option.splits)

lemma is_compatible_array:
  "is_compatible ops (TArray se sn) (TArray te tn) \<longleftrightarrow>
   dt_eq ops (TArray se sn) (TArray te tn) \<or>
   array_element_compatible (is_compatible ops) se sn te tn False"
  by (auto simp: is_compatible.simps [of ops "TArray se sn"] union_of_def custom_of_def)

lemma truncate_array:
  "is_compatible_with_truncate ops (TArray se sn) (TArray te tn) \<longleftrightarrow>
   is_compatible ops (TArray se sn) (TArray te tn) \<or>
   array_element_compatible (is_compatible_with_truncate ops) se sn te tn True"
  by (auto simp: is_compatible_with_truncate.simps [of ops "TArray se sn"] union_of_def custom_of_def)

section \<open>Truncation consent widens the lossless matrix\<close>

locale dyn_monotone =
  fixes ops :: "'c dyn_ops"
  assumes convert_mono: "dyn_can_convert_to ops a t False \<Longrightarrow> dyn_can_convert_to ops a t True"
    and construct_mono: "dyn_can_construct_from ops a t False \<Longrightarrow> dyn_can_construct_from ops a t True"
begin

lemma lossless_imp_truncate:
  "is_compatible ops s t \<Longrightarrow> union_of t = None \<Longrightarrow> is_compatible_with_truncate ops s t"
proof (induction "size s" arbitrary: s rule: less_induct)
  case less
  show ?case
  proof (cases "union_of s")
    case (Some vs)
    then have s: "s = TUnion vs" by (simp add: part_of_Some_iff)
    with less.prems have "\<forall>v \<in> set vs. is_compatible ops v t"
      by (simp add: is_compatible_union list_all_iff)
    with less s show ?thesis by (auto simp: truncate_union list_all_iff size_in_list)
  next
    case u: None
    show ?thesis
    proof (cases "custom_of s")
      case (Some a)
      then have "s = TCustom a" by (simp add: part_of_Some_iff)
      with less.prems u show ?thesis
        by (auto simp: is_compatible.simps [of ops "TCustom a"] is_compatible_with_truncate.simps [of ops "TCustom a"]
          convert_mono part_of_Some_iff dest: dt_eq_custom split: if_splits option.splits)
    next
      case c: None
      with u less.prems show ?thesis
        using dt_eq_custom2 [of ops s "the (custom_of t)"]
        by (auto simp: is_compatible.simps [of ops s t] is_compatible_with_truncate.simps [of ops s t]
          construct_mono part_of_Some_iff split: if_splits option.splits)
    qed
  qed
qed

end

interpretation unit_mono: dyn_monotone unit_ops
  by unfold_locales (simp_all add: unit_ops_def unit_hooks_mono)

interpretation conn_mono: dyn_monotone conn_ops
  by unfold_locales (simp_all add: conn_ops_def conn_hooks_mono)

text \<open>
  C6: consent never takes an admission away: for descriptors whose hooks are monotone in
  the \<open>truncate\<close> flag (every connector's are), any source that may be written to a
  non-union sink column without loss may also be written to it under \<open>truncate = true\<close>,
  unions and connector types on the source side included.
\<close>

theorem truncate_super_relation:
  assumes "dyn_monotone ops" and "union_of t = None" and "is_compatible ops s t"
  shows "is_compatible_with_truncate ops s t"
  using dyn_monotone.lossless_imp_truncate [OF assms(1) assms(3) assms(2)] .

theorem truncate_super_relation_witness:
  "is_compatible conn_ops (TUnion [TInt8, TUInt16]) TInt32
    \<and> is_compatible_with_truncate conn_ops (TUnion [TInt8, TUInt16]) TInt32"
proof -
  have m: "dyn_monotone conn_ops" by (rule conn_mono.dyn_monotone_axioms)
  have c: "is_compatible conn_ops (TUnion [TInt8, TUInt16]) TInt32"
    by (simp add: is_compatible.simps dt_eq.simps union_of_def custom_of_def array_of_def matrix_defs)
  show ?thesis
    using c truncate_super_relation [OF m _ c] by (simp add: union_of_def)
qed

text \<open>
  C7: the restriction to non-union sinks is needed. A heterogeneous column of a schemaless
  source written to the same heterogeneous column is admitted by the lossless matrix and
  refused as soon as \<open>truncate = true\<close> is set, for every non-empty union of concrete
  types.
\<close>

theorem union_identity_lost_under_truncate:
  assumes "dyn_reflexive ops" and "vs \<noteq> []" and "\<forall>v \<in> set vs. union_of v = None"
  shows "is_compatible ops (TUnion vs) (TUnion vs)
    \<and> \<not> is_compatible_with_truncate ops (TUnion vs) (TUnion vs)"
proof
  show "is_compatible ops (TUnion vs) (TUnion vs)"
    by (simp add: is_compatible.simps [of ops "TUnion vs"] dyn_reflexive.dt_eq_refl [OF assms(1)])
  obtain v where v: "v \<in> set vs" using assms(2) by (cases vs) auto
  then have "\<not> is_compatible_with_truncate ops v (TUnion vs)"
    using assms(3) by (simp add: is_compatible_with_truncate.simps [of ops v])
  with v show "\<not> is_compatible_with_truncate ops (TUnion vs) (TUnion vs)"
    by (auto simp: truncate_union list_all_iff)
qed

theorem union_identity_lost_under_truncate_witness:
  "is_compatible conn_ops (TUnion [TInt64, TText None]) (TUnion [TInt64, TText None])
    \<and> \<not> is_compatible_with_truncate conn_ops (TUnion [TInt64, TText None]) (TUnion [TInt64, TText None])"
  by (rule union_identity_lost_under_truncate [OF conn_dyn.dyn_reflexive_axioms])
    (simp_all add: union_of_def)

section \<open>Narrowing pairs\<close>

primrec keeps_nulls :: "'c data_type \<Rightarrow> bool" where
  "keeps_nulls TBool = True"
| "keeps_nulls TInt8 = True"
| "keeps_nulls TInt16 = True"
| "keeps_nulls TInt32 = True"
| "keeps_nulls TInt64 = True"
| "keeps_nulls TUInt8 = True"
| "keeps_nulls TUInt16 = True"
| "keeps_nulls TUInt32 = True"
| "keeps_nulls TUInt64 = True"
| "keeps_nulls TFloat32 = True"
| "keeps_nulls TFloat64 = True"
| "keeps_nulls (TBigInt _) = True"
| "keeps_nulls (TDecimal _ _) = True"
| "keeps_nulls (TText _) = True"
| "keeps_nulls (TBytes _) = True"
| "keeps_nulls TDate = True"
| "keeps_nulls TTimestamp = True"
| "keeps_nulls TUuid = True"
| "keeps_nulls TIpv4 = True"
| "keeps_nulls TIpv6 = True"
| "keeps_nulls TJson = True"
| "keeps_nulls TXml = True"
| "keeps_nulls TObject = True"
| "keeps_nulls (TUnion vs) = list_all (\<lambda>b. b) (map keeps_nulls vs)"
| "keeps_nulls TInterval = True"
| "keeps_nulls (TArray e n) = (\<not> n \<and> (case map_option keeps_nulls e of None \<Rightarrow> True | Some b \<Rightarrow> b))"
| "keeps_nulls (TCustom _) = True"

lemma scalar_narrowing_truncate: "scalar_narrowing s t \<Longrightarrow> truncate_arms s t"
  by (cases s; cases t) (auto simp: matrix_defs split: option.splits)

lemma scalar_narrowing_not_lossless:
  "scalar_narrowing s t \<Longrightarrow> \<not> lossless_arms s t \<and> s \<noteq> t"
  by (cases s; cases t) (auto simp: matrix_defs fits_size_def split: option.splits)

lemma scalar_dt_eq:
  "union_of s = None \<Longrightarrow> custom_of s = None \<Longrightarrow> array_of s = None \<Longrightarrow> dt_eq ops s t \<longleftrightarrow> s = t"
  by (cases s) (simp_all add: dt_eq.simps union_of_def custom_of_def array_of_def)

lemma is_narrowing_array:
  "is_narrowing (TArray se sn) (TArray te tn) \<longleftrightarrow>
   sn \<and> \<not> tn \<or> (\<exists>x y. se = Some x \<and> te = Some y \<and> is_narrowing x y)"
  by (auto simp: is_narrowing.simps [of "TArray se sn"] union_of_def custom_of_def split: option.splits)

lemma narrowing_imp_truncate:
  "is_narrowing s t \<Longrightarrow> keeps_nulls s \<Longrightarrow> is_compatible_with_truncate ops s t"
proof (induction "size s" arbitrary: s t rule: less_induct)
  case less
  show ?case
  proof (cases "union_of s")
    case (Some vs)
    then have s: "s = TUnion vs" by (simp add: part_of_Some_iff)
    with less show ?thesis
      by (auto simp: truncate_union list_all_iff size_in_list is_narrowing.simps [of "TUnion vs"])
  next
    case None
    with less.prems have nt: "union_of t = None" "custom_of s = None" "custom_of t = None"
      by (auto simp: is_narrowing.simps [of s] split: if_splits)
    show ?thesis
    proof (cases "array_of s = None \<or> array_of t = None")
      case True
      with None nt less.prems have "scalar_narrowing s t"
        by (auto simp: is_narrowing.simps [of s] split: option.splits)
      with None nt True show ?thesis by (simp add: truncate_scalar scalar_narrowing_truncate)
    next
      case False
      then obtain se sn te tn where st: "s = TArray se sn" "t = TArray te tn"
        by (auto simp: part_of_Some_iff)
      with less.prems have "\<not> sn" by simp
      with less.prems st obtain x y where xy: "se = Some x" "te = Some y" "is_narrowing x y" "keeps_nulls x"
        by (auto simp: is_narrowing_array)
      with less.hyps [of x y] st have "is_compatible_with_truncate ops x y" by simp
      with st xy show ?thesis by (simp add: truncate_array array_element_compatible_def)
    qed
  qed
qed

text \<open>
  C8: a rejected pair the validator reports as a narrowing ("enable truncate") is one that
  \<open>truncate = true\<close> does admit, for every source type whose array elements are not
  nullable.
\<close>

theorem narrowing_hint_sound:
  assumes "is_narrowing s t" and "keeps_nulls s"
  shows "is_compatible_with_truncate ops s t"
  using assms by (rule narrowing_imp_truncate)

theorem narrowing_hint_sound_witness:
  "is_compatible_with_truncate conn_ops (TArray (Some TInt64) False) (TArray (Some TInt32) False)"
  by (rule narrowing_hint_sound)
    (simp_all add: is_narrowing.simps union_of_def custom_of_def array_of_def matrix_defs)

text \<open>
  for nullable array elements the hint can be wrong: writing an array of nullable JSON
  into an array of non-null \<open>int8\<close> is classified as a narrowing although consent does not
  admit it either.
\<close>

theorem narrowing_hint_wrong_on_nullable_elements:
  "is_narrowing (TArray (Some TJson) True) (TArray (Some TInt8) False)
    \<and> \<not> is_compatible_with_truncate ops (TArray (Some TJson) True) (TArray (Some TInt8) False)"
  by (simp add: is_narrowing.simps is_compatible_with_truncate.simps is_compatible.simps dt_eq.simps
    array_element_compatible_def union_of_def custom_of_def array_of_def matrix_defs)

end
