(* ===== verification/NumericFit.thy ===== *)
theory NumericFit
  imports Matrix
begin

text \<open>
  What the numeric types hold, as sets of rationals, and the meaning of the numeric block
  of the matrix (\<open>crates/types/src/matrix.rs\<close>) over them: an admitted pair never meets a
  value the sink cannot hold, and for the fixed-width integers the matrix is exactly range
  inclusion.
\<close>

section \<open>The values of a numeric type\<close>

text \<open>Bounds of the fixed-width integers; a boolean is written as 0 or 1.\<close>

definition int_bounds :: "'c data_type \<Rightarrow> (int \<times> int) option" where
  "int_bounds t =
     (case t of
        TBool \<Rightarrow> Some (0, 1)
      | TInt8 \<Rightarrow> Some (- (2 ^ 7), 2 ^ 7 - 1)
      | TInt16 \<Rightarrow> Some (- (2 ^ 15), 2 ^ 15 - 1)
      | TInt32 \<Rightarrow> Some (- (2 ^ 31), 2 ^ 31 - 1)
      | TInt64 \<Rightarrow> Some (- (2 ^ 63), 2 ^ 63 - 1)
      | TUInt8 \<Rightarrow> Some (0, 2 ^ 8 - 1)
      | TUInt16 \<Rightarrow> Some (0, 2 ^ 16 - 1)
      | TUInt32 \<Rightarrow> Some (0, 2 ^ 32 - 1)
      | TUInt64 \<Rightarrow> Some (0, 2 ^ 64 - 1)
      | _ \<Rightarrow> None)"

definition fits_int :: "int \<Rightarrow> int \<Rightarrow> rat \<Rightarrow> bool" where
  "fits_int lo hi v \<longleftrightarrow> (\<exists>i. v = of_int i \<and> lo \<le> i \<and> i \<le> hi)"

text \<open>\<open>p\<close> decimal digits, \<open>s\<close> of them after the point.\<close>

definition fits_digits :: "nat \<Rightarrow> nat \<Rightarrow> rat \<Rightarrow> bool" where
  "fits_digits p s v \<longleftrightarrow> (\<exists>m. v = of_int m / 10 ^ s \<and> \<bar>m\<bar> < 10 ^ p)"

text \<open>Finite binary floats: a mantissa of \<open>k\<close> bits and an exponent in range.\<close>

definition fits_float :: "nat \<Rightarrow> int \<Rightarrow> int \<Rightarrow> rat \<Rightarrow> bool" where
  "fits_float k lo hi v \<longleftrightarrow> (\<exists>m e. v = of_int m * 2 powi e \<and> \<bar>m\<bar> < 2 ^ k \<and> lo \<le> e \<and> e \<le> hi)"

definition num_fits :: "'c data_type \<Rightarrow> rat \<Rightarrow> bool" where
  "num_fits t v =
     (case int_bounds t of
        Some (lo, hi) \<Rightarrow> fits_int lo hi v
      | None \<Rightarrow>
        (case t of
           TFloat32 \<Rightarrow> fits_float 24 (- 149) 104 v
         | TFloat64 \<Rightarrow> fits_float 53 (- 1074) 971 v
         | TBigInt None \<Rightarrow> v \<in> \<int>
         | TBigInt (Some w) \<Rightarrow> fits_digits (unat w) 0 v
         | TDecimal None _ \<Rightarrow> True
         | TDecimal (Some p) sc \<Rightarrow> fits_digits (unat p) (unat (unwrap_or sc 0)) v
         | _ \<Rightarrow> False))"

text \<open>Sinks a number is stored in as a number: a decimal whose scale is within its precision.\<close>

definition numeric_sink :: "'c data_type \<Rightarrow> bool" where
  "numeric_sink t =
     (case t of
        TDecimal (Some p) (Some sc) \<Rightarrow> sc \<le> p
      | TDecimal _ _ \<Rightarrow> True
      | TFloat32 \<Rightarrow> True
      | TFloat64 \<Rightarrow> True
      | TBigInt _ \<Rightarrow> True
      | _ \<Rightarrow> any_fixed_int t)"

definition bounded_bigint :: "'c data_type \<Rightarrow> bool" where
  "bounded_bigint t = (case t of TBigInt (Some _) \<Rightarrow> True | _ \<Rightarrow> False)"

section \<open>Inclusion of value sets\<close>

lemma fits_int_mono: "fits_int lo hi v \<Longrightarrow> lo' \<le> lo \<Longrightarrow> hi \<le> hi' \<Longrightarrow> fits_int lo' hi' v"
  unfolding fits_int_def by force

lemma fits_int_subset_iff:
  assumes "lo \<le> hi"
  shows "(\<forall>v. fits_int lo hi v \<longrightarrow> fits_int lo' hi' v) \<longleftrightarrow> lo' \<le> lo \<and> hi \<le> hi'"
proof
  assume *: "\<forall>v. fits_int lo hi v \<longrightarrow> fits_int lo' hi' v"
  have "fits_int lo hi (of_int lo)" "fits_int lo hi (of_int hi)" using assms by (auto simp: fits_int_def)
  with * have "fits_int lo' hi' (of_int lo)" "fits_int lo' hi' (of_int hi)" by blast+
  then show "lo' \<le> lo \<and> hi \<le> hi'" by (auto simp: fits_int_def)
qed (blast intro: fits_int_mono)

lemma fits_digits_mono:
  assumes "fits_digits p s v" "s \<le> s'" "p + s' \<le> p' + s"
  shows "fits_digits p' s' v"
proof -
  obtain m where m: "v = of_int m / 10 ^ s" "\<bar>m\<bar> < 10 ^ p" using assms(1) by (auto simp: fits_digits_def)
  let ?k = "s' - s"
  have "\<bar>m * 10 ^ ?k\<bar> = \<bar>m\<bar> * 10 ^ ?k" by (simp add: abs_mult)
  also have "\<dots> < 10 ^ p * 10 ^ ?k" using m(2) by simp
  also have "\<dots> = 10 ^ (p + ?k)" by (simp add: power_add)
  also have "\<dots> \<le> 10 ^ p'" using assms by (intro power_increasing) auto
  finally have "\<bar>m * 10 ^ ?k\<bar> < 10 ^ p'" .
  moreover have "v = of_int (m * 10 ^ ?k) / 10 ^ s'"
  proof -
    have "(10::rat) ^ s' = 10 ^ s * 10 ^ ?k" using assms(2) by (simp flip: power_add)
    then show ?thesis using m(1) by simp
  qed
  ultimately show ?thesis unfolding fits_digits_def by blast
qed

lemma fits_int_digits:
  assumes "fits_int lo hi v" "- (10 ^ d) < lo" "hi < 10 ^ d"
  shows "fits_digits d 0 v"
proof -
  obtain i where "v = of_int i" "lo \<le> i" "i \<le> hi" using assms(1) by (auto simp: fits_int_def)
  with assms(2,3) show ?thesis unfolding fits_digits_def by (intro exI [of _ i]) auto
qed

lemma fits_int_Ints: "fits_int lo hi v \<Longrightarrow> v \<in> \<int>"
  by (auto simp: fits_int_def)

lemma fits_digits_Ints: "fits_digits p 0 v \<Longrightarrow> v \<in> \<int>"
  by (auto simp: fits_digits_def)

lemma fits_int_float:
  assumes "fits_int lo hi v" "- (2 ^ k) < lo" "hi < 2 ^ k" "elo \<le> 0" "0 \<le> ehi"
  shows "fits_float k elo ehi v"
proof -
  obtain i where "v = of_int i" "lo \<le> i" "i \<le> hi" using assms(1) by (auto simp: fits_int_def)
  with assms show ?thesis unfolding fits_float_def by (intro exI [of _ i] exI [of _ 0]) auto
qed

lemma fits_float_mono:
  assumes "fits_float k lo hi v" "k \<le> k'" "lo' \<le> lo" "hi \<le> hi'"
  shows "fits_float k' lo' hi' v"
proof -
  obtain m e where *: "v = of_int m * 2 powi e" "\<bar>m\<bar> < 2 ^ k" "lo \<le> e" "e \<le> hi"
    using assms(1) by (auto simp: fits_float_def)
  have "(2::int) ^ k \<le> 2 ^ k'" using assms(2) by (intro power_increasing) auto
  with * assms have "\<bar>m\<bar> < 2 ^ k'" "lo' \<le> e" "e \<le> hi'" by linarith+
  with *(1) show ?thesis unfolding fits_float_def by blast
qed

section \<open>The digit rules\<close>

lemma unat_saturating_sub: "unat (saturating_sub a b) = unat a - unat b"
  by (simp add: saturating_sub_def unat_sub word_le_nat_alt)

lemma decimal_fits_int_digits_sound:
  assumes "fits_digits (unat d) 0 v" "decimal_fits_int_digits p sc d" "numeric_sink (TDecimal p sc)"
  shows "num_fits (TDecimal p sc) v"
proof (cases p)
  case (Some q)
  show ?thesis
  proof (cases sc)
    case None
    with Some assms show ?thesis
      by (auto simp: num_fits_def int_bounds_def decimal_fits_int_digits_def unwrap_or_def word_le_nat_alt
        intro: fits_digits_mono)
  next
    case s: (Some s)
    with Some assms have "unat d \<le> unat q - unat s" "unat s \<le> unat q"
      by (simp_all add: decimal_fits_int_digits_def numeric_sink_def unat_saturating_sub word_le_nat_alt)
    with Some s assms(1) show ?thesis
      by (auto simp: num_fits_def int_bounds_def unwrap_or_def intro: fits_digits_mono)
  qed
qed (simp add: num_fits_def int_bounds_def)

lemma decimal_fits_bigint_sound:
  assumes "num_fits (TBigInt w) v" "decimal_fits_bigint w p sc" "numeric_sink (TDecimal p sc)"
  shows "num_fits (TDecimal p sc) v"
proof (cases p)
  case (Some q)
  with assms(2) obtain d where w: "w = Some d" by (auto simp: decimal_fits_bigint_def split: option.splits)
  with assms have "fits_digits (unat d) 0 v" by (simp add: num_fits_def int_bounds_def)
  moreover have "decimal_fits_int_digits p sc d"
    using assms(2) Some w
    by (cases sc) (simp_all add: decimal_fits_bigint_def decimal_fits_int_digits_def unwrap_or_def saturating_sub_def)
  ultimately show ?thesis using assms(3) by (rule decimal_fits_int_digits_sound)
qed (simp add: num_fits_def int_bounds_def)

lemma decimal_fits_decimal_sound:
  assumes "num_fits (TDecimal pa sa) v" "decimal_fits_decimal pa sa pb sb" "numeric_sink (TDecimal pb sb)"
  shows "num_fits (TDecimal pb sb) v"
proof (cases pb)
  case (Some q)
  with assms(2) obtain r where pa: "pa = Some r" by (auto simp: decimal_fits_decimal_def split: option.splits)
  let ?ta = "unat (unwrap_or sa 0)" and ?tb = "unat (unwrap_or sb 0)"
  have "?ta \<le> ?tb" "unat r - ?ta \<le> unat q - ?tb" "?tb \<le> unat q"
    using assms(2,3) Some pa
    by (auto simp: decimal_fits_decimal_def numeric_sink_def Let_def unat_saturating_sub unwrap_or_def word_le_nat_alt
        split: option.splits)
  moreover have "fits_digits (unat r) ?ta v" using assms(1) pa by (simp add: num_fits_def int_bounds_def)
  ultimately have "fits_digits (unat q) ?tb v" by (auto intro: fits_digits_mono)
  with Some show ?thesis by (simp add: num_fits_def int_bounds_def)
qed (simp add: num_fits_def int_bounds_def)

lemma fits_size_sound: "num_fits (TBigInt a) v \<Longrightarrow> fits_size a b \<Longrightarrow> num_fits (TBigInt b) v"
  by (cases a; cases b)
    (auto simp: num_fits_def int_bounds_def fits_size_def word_le_nat_alt intro: fits_digits_mono fits_digits_Ints)


section \<open>The numeric block of the matrix\<close>

definition numeric_source :: "'c data_type \<Rightarrow> bool" where
  "numeric_source t = (case t of TBool \<Rightarrow> True | _ \<Rightarrow> numeric_sink t)"

definition fixed_digits :: "'c data_type \<Rightarrow> u32" where
  "fixed_digits s =
     (case s of
        TBool \<Rightarrow> 1 | TInt8 \<Rightarrow> 3 | TInt16 \<Rightarrow> 5 | TInt32 \<Rightarrow> 10 | TInt64 \<Rightarrow> 19
      | TUInt8 \<Rightarrow> 3 | TUInt16 \<Rightarrow> 5 | TUInt32 \<Rightarrow> 10 | _ \<Rightarrow> 20)"

lemma fixed_int_digits:
  assumes "int_bounds s = Some (lo, hi)" "fits_int lo hi v"
  shows "fits_digits (unat (fixed_digits s)) 0 v"
  using assms(1)
  by (cases s) (auto simp: int_bounds_def fixed_digits_def intro!: fits_int_digits [OF assms(2)])

lemma fixed_int_to_decimal:
  "int_bounds s \<noteq> None \<Longrightarrow> lossless_arms s (TDecimal p sc) \<longleftrightarrow> decimal_fits_int_digits p sc (fixed_digits s)"
  by (cases s) (simp_all add: int_bounds_def matrix_defs fixed_digits_def)

lemma fixed_int_to_other:
  assumes "int_bounds s = Some (lo, hi)" "fits_int lo hi v" "lossless_arms s t"
    "numeric_sink t" "\<not> bounded_bigint t" "\<And>p sc. t \<noteq> TDecimal p sc"
  shows "num_fits t v"
proof (cases "t = TBigInt None")
  case True
  with assms(2) show ?thesis by (simp add: num_fits_def int_bounds_def fits_int_Ints)
next
  case False
  show ?thesis
  proof (cases "t = TFloat32 \<or> t = TFloat64")
    case True
    with assms(1,3) show ?thesis
      by (cases s) (auto simp: num_fits_def int_bounds_def matrix_defs intro!: fits_int_float [OF assms(2)])
  next
    case nf: False
    with False assms(4,5,6) have "any_fixed_int t"
      by (cases t) (auto simp: numeric_sink_def bounded_bigint_def any_fixed_int_def split: option.splits)
    with assms(1,3) show ?thesis
      by (cases s; cases t)
        (auto simp: num_fits_def int_bounds_def matrix_defs intro!: fits_int_mono [OF assms(2)])
  qed
qed

lemma lossless_from_big:
  "numeric_sink t \<Longrightarrow> lossless_arms (TBigInt a) t \<longleftrightarrow>
   (\<exists>b. t = TBigInt b \<and> fits_size a b) \<or> (\<exists>p sc. t = TDecimal p sc \<and> decimal_fits_bigint a p sc)"
  by (cases t) (simp_all add: matrix_defs numeric_sink_def)

lemma lossless_from_decimal:
  "numeric_sink t \<Longrightarrow> lossless_arms (TDecimal p sc) t \<longleftrightarrow>
   (\<exists>p' sc'. t = TDecimal p' sc' \<and> decimal_fits_decimal p sc p' sc')"
  by (cases t) (simp_all add: matrix_defs numeric_sink_def)

lemma lossless_arms_fit:
  assumes "lossless_arms s t" "numeric_source s" "numeric_sink t" "num_fits s v"
    "bounded_bigint t \<longrightarrow> int_bounds s = None"
  shows "num_fits t v"
proof (cases "int_bounds s")
  case (Some b)
  obtain lo hi where b: "b = (lo, hi)" by (cases b)
  have v: "fits_int lo hi v" using assms(4) Some b by (simp add: num_fits_def)
  have nb: "\<not> bounded_bigint t" using assms(5) Some by simp
  show ?thesis
  proof (cases "\<exists>p sc. t = TDecimal p sc")
    case True
    then obtain p sc where t: "t = TDecimal p sc" by blast
    have "decimal_fits_int_digits p sc (fixed_digits s)"
      using assms(1) t Some fixed_int_to_decimal [of s p sc] by simp
    then show ?thesis
      using decimal_fits_int_digits_sound fixed_int_digits [OF _ v] Some b assms(3) t by blast
  next
    case False
    then show ?thesis using fixed_int_to_other [OF _ v assms(1,3) nb] Some b by blast
  qed
next
  case None
  consider (f32) "s = TFloat32" | (f64) "s = TFloat64" | (big) a where "s = TBigInt a"
    | (dec) p sc where "s = TDecimal p sc"
    using None assms(2) by (cases s) (simp_all add: int_bounds_def numeric_source_def numeric_sink_def any_fixed_int_def)
  then show ?thesis
  proof cases
    case f32
    with assms(1,3) have "t = TFloat64" by (cases t) (simp_all add: matrix_defs numeric_sink_def)
    with f32 assms(4) show ?thesis by (auto simp: num_fits_def int_bounds_def intro: fits_float_mono)
  next
    case f64
    with assms(1,3) show ?thesis by (cases t) (simp_all add: matrix_defs numeric_sink_def)
  next
    case big
    with assms show ?thesis
      using lossless_from_big [OF assms(3)] fits_size_sound decimal_fits_bigint_sound by metis
  next
    case dec
    with assms show ?thesis
      using lossless_from_decimal [OF assms(3)] decimal_fits_decimal_sound by metis
  qed
qed

lemma numeric_shape:
  "numeric_source t \<Longrightarrow> union_of t = None \<and> custom_of t = None \<and> array_of t = None"
  "numeric_sink t \<Longrightarrow> union_of t = None \<and> custom_of t = None \<and> array_of t = None"
  by (cases t; simp add: numeric_source_def numeric_sink_def any_fixed_int_def union_of_def custom_of_def array_of_def)+

lemma is_compatible_numeric:
  "numeric_source s \<Longrightarrow> numeric_sink t \<Longrightarrow> is_compatible ops s t \<longleftrightarrow> s = t \<or> lossless_arms s t"
  using numeric_shape(1) [of s] numeric_shape(2) [of t] by (simp add: is_compatible_scalar scalar_dt_eq)

text \<open>
  C4: the lossless matrix does not lose numbers. Whenever it admits a numeric (or boolean)
  source into an integer, float, arbitrary-precision integer or well-formed decimal column,
  every value of the source type is exactly representable in the column; fixed-width
  integers into a bounded \<open>BigInt\<close> are the one exception.
\<close>

theorem lossless_numeric_sound:
  assumes "is_compatible ops s t" "numeric_source s" "numeric_sink t"
    and "bounded_bigint t \<longrightarrow> int_bounds s = None"
    and "num_fits s v"
  shows "num_fits t v"
  using assms lossless_arms_fit [of s t v] by (auto simp: is_compatible_numeric)

theorem lossless_numeric_sound_witness:
  "num_fits (TDecimal (Some 12) (Some 2) :: conn_type data_type) (314 / 100)"
proof (rule lossless_numeric_sound)
  show "is_compatible conn_ops (TDecimal (Some 5) (Some 2)) (TDecimal (Some 12) (Some 2))"
    by (simp add: is_compatible_numeric numeric_source_def numeric_sink_def matrix_defs
      decimal_fits_decimal_def unwrap_or_def saturating_sub_def Let_def)
  show "num_fits (TDecimal (Some 5) (Some 2) :: conn_type data_type) (314 / 100)"
    unfolding num_fits_def int_bounds_def unwrap_or_def by (simp add: fits_digits_def exI [of _ 314])
qed (simp_all add: numeric_source_def numeric_sink_def bounded_bigint_def)

text \<open>
  C9: the exception is real: a 64-bit column is admitted as lossless into a \<open>BigInt\<close> of two
  digits, which cannot hold 100.
\<close>

theorem fixed_int_to_bounded_bigint_lossy:
  "is_compatible ops TInt64 (TBigInt (Some 2))
    \<and> num_fits (TInt64 :: 'c data_type) 100 \<and> \<not> num_fits (TBigInt (Some 2) :: 'c data_type) 100"
proof (intro conjI)
  show "is_compatible ops TInt64 (TBigInt (Some 2))"
    by (simp add: is_compatible_numeric numeric_source_def numeric_sink_def any_fixed_int_def matrix_defs)
  have "(100::rat) = of_int 100" by simp
  then show "num_fits (TInt64 :: 'c data_type) 100"
    unfolding num_fits_def int_bounds_def fits_int_def by (simp add: exI [of _ 100])
  have "\<not> (\<exists>m::int. (100::rat) = of_int m \<and> \<bar>m\<bar> < 100)"
    by (metis \<open>(100::rat) = of_int 100\<close> abs_numeral less_irrefl of_int_eq_iff)
  then show "\<not> num_fits (TBigInt (Some 2) :: 'c data_type) 100"
    by (simp add: num_fits_def int_bounds_def fits_digits_def)
qed

lemma fixed_int_numeric: "any_fixed_int t \<Longrightarrow> numeric_source t \<and> numeric_sink t"
  by (cases t) (simp_all add: any_fixed_int_def numeric_source_def numeric_sink_def)

text \<open>
  C5: on the eight fixed-width integer types the lossless matrix is complete as well: a pair
  is admitted exactly when every value of the source is a value of the sink.
\<close>

theorem fixed_int_matrix_exact:
  assumes "any_fixed_int s" "any_fixed_int t"
  shows "is_compatible ops s t \<longleftrightarrow> (\<forall>v. num_fits s v \<longrightarrow> num_fits t v)"
proof -
  obtain lo hi lo' hi' where b: "int_bounds s = Some (lo, hi)" "int_bounds t = Some (lo', hi')" "lo \<le> hi"
    using assms by (cases s; cases t) (auto simp: int_bounds_def any_fixed_int_def)
  have "is_compatible ops s t \<longleftrightarrow> s = t \<or> lossless_arms s t"
    using assms by (simp add: is_compatible_numeric fixed_int_numeric)
  also have "\<dots> \<longleftrightarrow> lo' \<le> lo \<and> hi \<le> hi'"
    using assms b by (cases s; cases t) (auto simp: int_bounds_def matrix_defs)
  also have "\<dots> \<longleftrightarrow> (\<forall>v. num_fits s v \<longrightarrow> num_fits t v)"
    using b fits_int_subset_iff [of lo hi lo' hi'] by (simp add: num_fits_def)
  finally show ?thesis .
qed

theorem fixed_int_matrix_exact_witness:
  "\<not> (\<forall>v. num_fits (TUInt64 :: unit_conn data_type) v \<longrightarrow> num_fits (TInt64 :: unit_conn data_type) v)"
  using fixed_int_matrix_exact [of "TUInt64 :: unit_conn data_type" TInt64 unit_ops]
  by (simp add: any_fixed_int_def is_compatible_numeric numeric_source_def numeric_sink_def matrix_defs)

end
