(* ===== verification/UnionTypes.thy ===== *)
theory UnionTypes
  imports Matrix
begin

text \<open>
  Folding observed types into one column type (\<open>crates/types/src/union_types.rs\<close>):
  \<open>collapse_union\<close> with its widening rules and its sorted fallback, an abstract
  specification (the widest member of every family that occurs, in the order of
  \<open>DataType\<close>), and the refinement between them, from which order independence,
  idempotence and compatibility with the matrix follow.
\<close>

section \<open>The code\<close>

definition int_width :: "'c data_type \<Rightarrow> u8" where
  "int_width t = (case t of TInt8 \<Rightarrow> 1 | TInt16 \<Rightarrow> 2 | TInt32 \<Rightarrow> 4 | TInt64 \<Rightarrow> 8 | _ \<Rightarrow> 0)"

definition uint_width :: "'c data_type \<Rightarrow> u8" where
  "uint_width t = (case t of TUInt8 \<Rightarrow> 1 | TUInt16 \<Rightarrow> 2 | TUInt32 \<Rightarrow> 4 | TUInt64 \<Rightarrow> 8 | _ \<Rightarrow> 0)"

definition widen_int :: "u8 \<Rightarrow> 'c data_type" where
  "widen_int w = (if w = 1 then TInt8 else if w = 2 then TInt16 else if w = 4 then TInt32 else TInt64)"

definition widen_uint :: "u8 \<Rightarrow> 'c data_type" where
  "widen_uint w = (if w = 1 then TUInt8 else if w = 2 then TUInt16 else if w = 4 then TUInt32 else TUInt64)"

definition any_int :: "'c data_type \<Rightarrow> bool" where
  "any_int t = (case t of TInt8 \<Rightarrow> True | TInt16 \<Rightarrow> True | TInt32 \<Rightarrow> True | TInt64 \<Rightarrow> True | _ \<Rightarrow> False)"

definition any_float :: "'c data_type \<Rightarrow> bool" where
  "any_float t = (case t of TFloat32 \<Rightarrow> True | TFloat64 \<Rightarrow> True | _ \<Rightarrow> False)"

definition max_size :: "u32 option \<Rightarrow> u32 option \<Rightarrow> u32 option" where
  "max_size a b = (case (a, b) of (Some x, Some y) \<Rightarrow> Some (max x y) | _ \<Rightarrow> None)"

definition try_widen ::
  "'c dyn_ops \<Rightarrow> 'c data_type \<Rightarrow> 'c data_type \<Rightarrow> 'c data_type \<times> 'c data_type + 'c data_type" where
  "try_widen ops acc incoming =
     (if dt_eq ops acc incoming then Inr acc
      else if any_int acc \<and> any_int incoming then
        Inr (widen_int (max (int_width acc) (int_width incoming)))
      else if any_uint acc \<and> any_uint incoming then
        Inr (widen_uint (max (uint_width acc) (uint_width incoming)))
      else if any_float acc \<and> any_float incoming then
        Inr (if acc = TFloat64 \<or> incoming = TFloat64 then TFloat64 else TFloat32)
      else
        (case (acc, incoming) of
           (TText a, TText b) \<Rightarrow> Inr (TText (max_size a b))
         | (TBytes a, TBytes b) \<Rightarrow> Inr (TBytes (max_size a b))
         | _ \<Rightarrow> Inl (acc, incoming)))"

definition into_leaves :: "'c data_type \<Rightarrow> 'c data_type list" where
  "into_leaves t = (case t of TUnion inner \<Rightarrow> inner | _ \<Rightarrow> [t])"

text \<open>One turn of the stack pass: \<open>reduced.pop()\<close>, then one or two pushes.\<close>

definition reduce_step :: "'c dyn_ops \<Rightarrow> 'c data_type list \<Rightarrow> 'c data_type \<Rightarrow> 'c data_type list" where
  "reduce_step ops reduced next =
     (if reduced = [] then [next]
      else case try_widen ops (last reduced) next of
        Inr widened \<Rightarrow> butlast reduced @ [widened]
      | Inl (top_back, next_back) \<Rightarrow> butlast reduced @ [top_back, next_back])"

definition fallback ::
  "'c dyn_ops \<Rightarrow> 'c data_type \<Rightarrow> 'c data_type \<Rightarrow> 'c data_type list \<Rightarrow> 'c data_type" where
  "fallback ops acc offending rest =
     (let collected = concat (map into_leaves (acc # offending # rest));
          collected = dedup_by (dt_eq ops) (sort_by (dt_cmp ops) collected);
          reduced = foldl (reduce_step ops) [] collected
      in if length reduced = 1 then hd reduced else TUnion reduced)"

fun collapse_loop :: "'c dyn_ops \<Rightarrow> 'c data_type \<Rightarrow> 'c data_type list \<Rightarrow> 'c data_type" where
  "collapse_loop ops acc [] = acc"
| "collapse_loop ops acc (next # leaves) =
     (case try_widen ops acc next of
        Inr widened \<Rightarrow> collapse_loop ops widened leaves
      | Inl (acc_back, offending) \<Rightarrow> fallback ops acc_back offending leaves)"

definition collapse_union :: "'c dyn_ops \<Rightarrow> 'c data_type list \<Rightarrow> 'c data_type" where
  "collapse_union ops types =
     (case concat (map into_leaves types) of
        [] \<Rightarrow> TUnion []
      | acc # leaves \<Rightarrow> collapse_loop ops acc leaves)"

section \<open>Families and ranks\<close>

text \<open>The widest type of the family a type belongs to; most types are alone in theirs.\<close>

definition fam :: "'c data_type \<Rightarrow> 'c data_type" where
  "fam t =
     (if any_int t then TInt64 else if any_uint t then TUInt64 else if any_float t then TFloat64
      else case t of TText _ \<Rightarrow> TText None | TBytes _ \<Rightarrow> TBytes None | _ \<Rightarrow> t)"

definition size_rank :: "u32 option \<Rightarrow> nat" where
  "size_rank n = (case n of None \<Rightarrow> 2 ^ 32 | Some x \<Rightarrow> unat x)"

definition rank :: "'c data_type \<Rightarrow> nat" where
  "rank t = (case t of TText n \<Rightarrow> size_rank n | TBytes n \<Rightarrow> size_rank n | _ \<Rightarrow> variant_order t)"

text \<open>The members of a set of types that no other member of their family exceeds.\<close>

definition tops :: "'c data_type set \<Rightarrow> 'c data_type set" where
  "tops S = {x \<in> S. \<forall>y \<in> S. fam y = fam x \<longrightarrow> rank y \<le> rank x}"

definition wider :: "'c data_type \<Rightarrow> 'c data_type \<Rightarrow> 'c data_type" where
  "wider a b = (if rank b \<le> rank a then a else b)"

lemmas family_defs = fam_def any_int_def any_uint_def any_float_def

lemma size_rank_less: "size_rank (Some x) < 2 ^ 32"
  using unsigned_less [of x, where 'a = nat] by (simp add: size_rank_def)

lemma size_rank_inj: "size_rank a = size_rank b \<Longrightarrow> a = b"
  using size_rank_less [of "the a"] size_rank_less [of "the b"]
  by (cases a; cases b) (auto simp: size_rank_def word_unat_eq_iff)

lemma max_size_wider: "max_size a b = (if size_rank b \<le> size_rank a then a else b)"
  using size_rank_less [of "the a"] size_rank_less [of "the b"]
  by (cases a; cases b) (auto simp: max_size_def size_rank_def max_def word_le_nat_alt word_unat_eq_iff)

lemma rank_inj: "fam a = fam b \<Longrightarrow> rank a = rank b \<Longrightarrow> a = b"
  by (cases a; cases b) (simp_all add: family_defs rank_def size_rank_inj)

lemma fam_wider: "fam a = fam b \<Longrightarrow> fam (wider a b) = fam a"
  by (simp add: wider_def)


lemma tops_insert_wider:
  assumes "fam a = fam b"
  shows "tops (insert (wider a b) S) = tops (insert a (insert b S))"
proof -
  consider "rank b = rank a" "a = b" | "rank b < rank a" | "rank a < rank b"
    using rank_inj [OF assms] by linarith
  then show ?thesis
  proof cases
    case 1
    then show ?thesis by (simp add: wider_def)
  qed (use assms in \<open>auto simp: tops_def wider_def\<close>)
qed

lemma tops_insert_new: "\<forall>y \<in> S. fam y \<noteq> fam x \<Longrightarrow> tops (insert x S) = insert x (tops S)"
  unfolding tops_def by force

lemma tops_subset: "tops S \<subseteq> S"
  by (auto simp: tops_def)

lemma tops_tops: "tops (tops S) = tops S"
  unfolding tops_def by blast

lemma tops_covers:
  assumes "finite S" "x \<in> S"
  obtains m where "m \<in> tops S" "fam m = fam x" "rank x \<le> rank m"
proof -
  let ?F = "{y \<in> S. fam y = fam x}"
  have "finite (rank ` ?F)" "rank ` ?F \<noteq> {}" using assms by auto
  then have "Max (rank ` ?F) \<in> rank ` ?F" by (rule Max_in)
  then obtain m where m: "m \<in> ?F" "rank m = Max (rank ` ?F)" by auto
  then have "\<forall>y \<in> ?F. rank y \<le> rank m" using assms(1) by simp
  with m assms(2) show ?thesis by (intro that [of m]) (auto simp: tops_def)
qed

lemma tops_fam_inj: "x \<in> tops S \<Longrightarrow> y \<in> tops S \<Longrightarrow> fam x = fam y \<Longrightarrow> x = y"
  by (rule rank_inj) (auto simp: tops_def intro: order.antisym)

text \<open>Families are blocks of the order: the family of a type that is not alone in it covers an
  interval of variants that no other family meets.\<close>

definition solo :: "'c data_type \<Rightarrow> bool" where
  "solo t \<longleftrightarrow> fam t = t \<and> variant_order t \<notin> {4, 8, 10, 13, 14}"

definition block_start :: "'c data_type \<Rightarrow> nat" where
  "block_start t =
     (if any_int t then 1 else if any_uint t then 5 else if any_float t then 9 else variant_order t)"

lemma block_bounds: "block_start t \<le> variant_order t" "variant_order t \<le> variant_order (fam t)"
  by (cases t; simp add: block_start_def family_defs)+

lemma block_fam: "fam a = fam b \<Longrightarrow> block_start a = block_start b"
  by (cases a; cases b) (simp_all add: block_start_def family_defs)

lemma block_disjoint:
  "fam a \<noteq> fam b \<Longrightarrow> variant_order a \<le> variant_order b \<Longrightarrow>
   variant_order (fam a) < block_start b \<or> solo a \<and> solo b"
  by (cases a; cases b) (simp_all add: block_start_def family_defs solo_def)

lemma solo_fam: "solo a \<Longrightarrow> fam b = fam a \<Longrightarrow> b = a"
  by (cases b) (auto simp: solo_def family_defs split: if_splits)

lemma cmp_respects_fam:
  assumes "fam a \<noteq> fam b" "dt_cmp ops a b = Less" "fam a' = fam a" "fam b' = fam b"
  shows "dt_cmp ops a' b' = Less"
proof -
  have "variant_order a \<le> variant_order b" using assms(2) by (rule dt_cmp_Less_variant)
  with block_disjoint [OF assms(1)]
  consider "variant_order (fam a) < block_start b" | "solo a" "solo b" by blast
  then show ?thesis
  proof cases
    case 1
    then have "variant_order a' < variant_order b'"
      using block_bounds(2) [of a'] block_bounds(1) [of b'] block_fam [OF assms(4)] assms(3) by simp
    then show ?thesis by (rule variant_lt)
  next
    case 2
    then show ?thesis using assms solo_fam by metis
  qed
qed

lemma fits_size_rank: "size_rank a \<le> size_rank b \<Longrightarrow> fits_size a b"
  using size_rank_less [of "the b"]
  by (cases a; cases b) (simp_all add: fits_size_def size_rank_def word_le_nat_alt)

lemma fam_compatible: "fam a = fam b \<Longrightarrow> rank a \<le> rank b \<Longrightarrow> a \<noteq> b \<Longrightarrow> is_compatible ops a b"
  by (cases a; cases b)
    (simp_all add: family_defs rank_def is_compatible_scalar union_of_def custom_of_def array_of_def matrix_defs
      fits_size_rank)


section \<open>Refinement\<close>

text \<open>The stack pass as a recursion on what is still to come.\<close>

fun reduce_from :: "'c dyn_ops \<Rightarrow> 'c data_type \<Rightarrow> 'c data_type list \<Rightarrow> 'c data_type list" where
  "reduce_from ops x [] = [x]"
| "reduce_from ops x (y # ys) =
     (case try_widen ops x y of
        Inr w \<Rightarrow> reduce_from ops w ys
      | Inl (x', y') \<Rightarrow> x' # reduce_from ops y' ys)"

lemma foldl_reduce_step: "foldl (reduce_step ops) (r @ [x]) ys = r @ reduce_from ops x ys"
proof (induction ys arbitrary: r x)
  case (Cons y ys)
  have "foldl (reduce_step ops) (r @ [a, b]) ys = r @ a # reduce_from ops b ys" for a b
    using Cons.IH [of "r @ [a]" b] by simp
  then show ?case using Cons.IH by (auto simp: reduce_step_def [of ops "r @ [x]"] split: sum.split)
qed simp

lemma try_widen_family:
  assumes "a \<noteq> b" "\<not> dt_eq ops a b"
  shows "try_widen ops a b = (if fam a = fam b then Inr (wider a b) else Inl (a, b))"
  using assms
  by (cases a; cases b)
    (simp_all add: try_widen_def family_defs wider_def rank_def max_size_wider int_width_def uint_width_def
      widen_int_def widen_uint_def max_def word_le_nat_alt)

text \<open>The lists the pass meets: in the order of \<open>DataType\<close> up to families.\<close>

definition fam_sorted :: "'c dyn_ops \<Rightarrow> 'c data_type list \<Rightarrow> bool" where
  "fam_sorted ops = sorted_wrt (\<lambda>a b. fam a = fam b \<or> dt_cmp ops a b = Less)"

text \<open>
  The specification: one type when one family occurs, and otherwise the union of the widest
  member of every family, in the order of \<open>DataType\<close>.
\<close>

definition collapses_to :: "'c dyn_ops \<Rightarrow> 'c data_type set \<Rightarrow> 'c data_type \<Rightarrow> bool" where
  "collapses_to ops S t \<longleftrightarrow>
     (\<exists>l. sorted_wrt (\<lambda>a b. dt_cmp ops a b = Less) l \<and> set l = tops S
        \<and> t = (if length l = 1 then hd l else TUnion l))"

context dyn_identity
begin

lemma try_widen_spec: "try_widen ops a b = (if fam a = fam b then Inr (wider a b) else Inl (a, b))"
  by (cases "a = b") (simp_all add: try_widen_family try_widen_def [of ops b b] wider_def)

lemma not_Less_both: "dt_cmp ops a b = Less \<Longrightarrow> dt_cmp ops b a \<noteq> Less"
  using dt.cmp_swap [of b a] by simp

lemma reduce_from_spec:
  "fam_sorted ops (x # ys) \<Longrightarrow>
   sorted_wrt (\<lambda>a b. dt_cmp ops a b = Less) (reduce_from ops x ys)
   \<and> set (reduce_from ops x ys) = tops (insert x (set ys))"
proof (induction ys arbitrary: x)
  case Nil
  have "tops {x} = {x}" by (auto simp: tops_def)
  then show ?case by simp
next
  case (Cons y ys)
  show ?case
  proof (cases "fam x = fam y")
    case True
    have "fam (wider x y) = fam z \<or> dt_cmp ops (wider x y) z = Less" if "z \<in> set ys" for z
    proof (cases "fam x = fam z")
      case False
      with Cons.prems that have "dt_cmp ops x z = Less" by (auto simp: fam_sorted_def)
      from cmp_respects_fam [OF False this fam_wider [OF True] refl] show ?thesis ..
    qed (simp add: fam_wider [OF True])
    then have "fam_sorted ops (wider x y # ys)" using Cons.prems by (simp add: fam_sorted_def)
    with Cons.IH True show ?thesis by (simp add: try_widen_spec tops_insert_wider)
  next
    case False
    have new: "dt_cmp ops x z = Less \<and> fam z \<noteq> fam x" if "z \<in> set (y # ys)" for z
    proof -
      have xy: "dt_cmp ops x y = Less" and xz: "fam x = fam z \<or> dt_cmp ops x z = Less"
        and yz: "z = y \<or> fam y = fam z \<or> dt_cmp ops y z = Less"
        using Cons.prems False that by (auto simp: fam_sorted_def)
      have "fam z \<noteq> fam x"
      proof
        assume zx: "fam z = fam x"
        with yz False have "fam y \<noteq> fam z" "dt_cmp ops y z = Less" by auto
        from cmp_respects_fam [OF this refl zx [symmetric]] show False using not_Less_both [OF xy] by simp
      qed
      with xz show ?thesis by auto
    qed
    have "fam_sorted ops (y # ys)" using Cons.prems by (simp add: fam_sorted_def)
    note IH = Cons.IH [OF this]
    have "tops (insert x (insert y (set ys))) = insert x (tops (insert y (set ys)))"
      using new by (intro tops_insert_new) simp
    moreover have "\<forall>z \<in> set (reduce_from ops y ys). dt_cmp ops x z = Less"
      using IH tops_subset new by fastforce
    ultimately show ?thesis using IH False by (simp add: try_widen_spec)
  qed
qed

lemma reduce_sorted:
  assumes "xs \<noteq> []" "sorted_wrt (\<lambda>a b. dt_cmp ops a b = Less) xs"
  shows "sorted_wrt (\<lambda>a b. dt_cmp ops a b = Less) (foldl (reduce_step ops) [] xs)
    \<and> set (foldl (reduce_step ops) [] xs) = tops (set xs)"
proof -
  obtain y ys where xs: "xs = y # ys" using assms(1) by (cases xs) auto
  have "foldl (reduce_step ops) [] xs = reduce_from ops y ys"
    using foldl_reduce_step [of ops "[]" y ys] xs by (simp add: reduce_step_def)
  moreover have "fam_sorted ops (y # ys)"
    using assms(2) xs unfolding fam_sorted_def by (auto elim!: sorted_wrt_mono_rel [rotated])
  ultimately show ?thesis using reduce_from_spec xs by simp
qed

lemma collapses_to_unique: "collapses_to ops S t \<Longrightarrow> collapses_to ops S u \<Longrightarrow> t = u"
  unfolding collapses_to_def using dt.strict_sorted_unique by fastforce

lemma into_leaves_flat: "list_all (\<lambda>t. union_of t = None) xs \<Longrightarrow> concat (map into_leaves xs) = xs"
proof (induction xs)
  case (Cons x xs)
  then show ?case by (cases x) (simp_all add: into_leaves_def union_of_def)
qed simp

lemma fallback_spec:
  assumes "list_all (\<lambda>t. union_of t = None) (acc # off # rest)"
  shows "collapses_to ops (set (acc # off # rest)) (fallback ops acc off rest)"
proof -
  let ?c = "dedup_by (=) (sort_by (dt_cmp ops) (acc # off # rest))"
  have eq: "dt_eq ops = (=)" by (intro ext) simp
  have "set ?c = set (acc # off # rest)" by (simp only: set_dedup_by_eq set_sort_by)
  moreover have "sorted_wrt (\<lambda>a b. dt_cmp ops a b = Less) ?c"
    by (rule dt.sorted_dedup_by [OF dt.sorted_sort_by])
  ultimately have "sorted_wrt (\<lambda>a b. dt_cmp ops a b = Less) (foldl (reduce_step ops) [] ?c)"
    and "set (foldl (reduce_step ops) [] ?c) = tops (set (acc # off # rest))"
    using reduce_sorted [of ?c] by (metis list.distinct(1) set_empty)+
  then show ?thesis
    unfolding collapses_to_def fallback_def Let_def into_leaves_flat [OF assms] eq by blast
qed

lemma collapse_loop_spec:
  "list_all (\<lambda>t. union_of t = None) (acc # leaves) \<Longrightarrow> collapses_to ops (set (acc # leaves)) (collapse_loop ops acc leaves)"
proof (induction leaves arbitrary: acc)
  case Nil
  have "tops {acc} = {acc}" by (auto simp: tops_def)
  then show ?case unfolding collapses_to_def by (intro exI [of _ "[acc]"]) simp
next
  case (Cons y ys)
  show ?case
  proof (cases "fam acc = fam y")
    case True
    have "list_all (\<lambda>t. union_of t = None) (wider acc y # ys)" using Cons.prems by (simp add: wider_def)
    from Cons.IH [OF this] show ?thesis
      using True by (simp add: try_widen_spec collapses_to_def tops_insert_wider)
  next
    case False
    with fallback_spec [OF Cons.prems] show ?thesis by (simp add: try_widen_spec)
  qed
qed

lemma collapse_union_spec:
  assumes "list_all (\<lambda>t. union_of t = None) (concat (map into_leaves types))"
  shows "collapses_to ops (set (concat (map into_leaves types))) (collapse_union ops types)"
proof (cases "concat (map into_leaves types)")
  case Nil
  then show ?thesis unfolding collapse_union_def Nil collapses_to_def by (simp add: tops_def)
next
  case (Cons x xs)
  with assms show ?thesis
    using collapse_loop_spec [of x xs] by (simp add: collapse_union_def)
qed

end

section \<open>Properties\<close>

text \<open>
  C10: \<open>collapse_union\<close> implements its specification, for connector descriptors that their kind
  identifies (\<open>dyn_identity\<close>: the descriptors without parameters, such as \<open>PgHllType\<close>; not the
  parametric ones, such as \<open>FixedString(n)\<close>, the enums and geohash, which share one kind for
  all their parameters) and for inputs in which no union has a union as a member: the result is
  the widest member of each family that occurs (a plain type if there is one family, otherwise
  a union listing them in the order of \<open>DataType\<close>).
\<close>

theorem collapse_union_refines:
  assumes "dyn_identity ops" and "list_all (\<lambda>t. union_of t = None) (concat (map into_leaves types))"
  shows "collapses_to ops (set (concat (map into_leaves types))) (collapse_union ops types)"
  using assms by (rule dyn_identity.collapse_union_spec)

theorem collapse_union_refines_witness:
  "collapses_to unit_ops (set [TInt16, TUInt8, TInt8]) (collapse_union unit_ops [TInt16, TUInt8, TInt8])"
  using collapse_union_refines [OF unit_dyn.dyn_identity_axioms, of "[TInt16, TUInt8, TInt8]"]
  by (simp add: into_leaves_def union_of_def)

text \<open>
  C11: for connector descriptors that their kind identifies (\<open>dyn_identity\<close>: those without
  parameters) and inputs in which no union has a union as a member, the result does not depend
  on the order or the multiplicity of what was observed: two inputs with the same set of leaf
  types collapse to the same type. Parametric descriptors are excluded, and have to be:
  geohash columns of two precisions do depend on the order (last theorem of this theory).
\<close>

theorem collapse_union_order_independent:
  assumes "dyn_identity ops"
    and "list_all (\<lambda>t. union_of t = None) (concat (map into_leaves xs))"
    and "set (concat (map into_leaves xs)) = set (concat (map into_leaves ys))"
  shows "collapse_union ops xs = collapse_union ops ys"
proof (rule dyn_identity.collapses_to_unique [OF assms(1)])
  show "collapses_to ops (set (concat (map into_leaves xs))) (collapse_union ops xs)"
    using assms(1,2) by (rule dyn_identity.collapse_union_spec)
  have "list_all (\<lambda>t. union_of t = None) (concat (map into_leaves ys))"
    using assms(2) unfolding list_all_iff assms(3) .
  then show "collapses_to ops (set (concat (map into_leaves xs))) (collapse_union ops ys)"
    unfolding assms(3) by (rule dyn_identity.collapse_union_spec [OF assms(1)])
qed

theorem collapse_union_order_independent_witness:
  "collapse_union unit_ops [TInt16, TUInt8, TInt8] = collapse_union unit_ops [TUnion [TUInt8, TInt8], TInt16]"
  by (rule collapse_union_order_independent [OF unit_dyn.dyn_identity_axioms])
    (auto simp: into_leaves_def union_of_def)

text \<open>
  C12: for connector descriptors that their kind identifies (\<open>dyn_identity\<close>: those without
  parameters) and inputs in which no union has a union as a member, feeding a result back does
  not change it, and every observed type can be written without loss to a member of the
  result. A union inside a union is excluded because \<open>into_leaves\<close> opens one level only:
  \<open>Union[Union[Int8, Int16]]\<close> collapses to \<open>Union[Int8, Int16]\<close> and that to \<open>Int16\<close>.
\<close>

theorem collapse_union_idempotent_and_covering:
  assumes "dyn_identity ops" and "list_all (\<lambda>t. union_of t = None) (concat (map into_leaves types))"
  shows "collapse_union ops [collapse_union ops types] = collapse_union ops types
    \<and> (\<forall>v \<in> set (concat (map into_leaves types)).
          \<exists>m \<in> set (into_leaves (collapse_union ops types)). is_compatible ops v m)"
proof -
  let ?S = "set (concat (map into_leaves types))" and ?t = "collapse_union ops types"
  obtain l where l: "sorted_wrt (\<lambda>a b. dt_cmp ops a b = Less) l" "set l = tops ?S"
      "?t = (if length l = 1 then hd l else TUnion l)"
    using dyn_identity.collapse_union_spec [OF assms] unfolding collapses_to_def by blast
  have flat: "list_all (\<lambda>t. union_of t = None) l"
    using l(2) tops_subset [of ?S] assms(2) unfolding list_all_iff by blast
  have leaves: "into_leaves ?t = l"
  proof (cases "length l = 1")
    case True
    then obtain x where x: "l = [x]" by (auto simp: length_Suc_conv)
    with flat l(3) show ?thesis by (cases x) (simp_all add: into_leaves_def union_of_def)
  next
    case False
    with l(3) show ?thesis by (simp add: into_leaves_def)
  qed
  have "collapses_to ops (set l) (collapse_union ops [?t])"
    using dyn_identity.collapse_union_spec [OF assms(1), of "[?t]"] flat leaves by simp
  moreover have "collapses_to ops (set l) ?t"
    unfolding collapses_to_def using l tops_tops by metis
  ultimately have "collapse_union ops [?t] = ?t" by (rule dyn_identity.collapses_to_unique [OF assms(1)])
  moreover have "\<exists>m \<in> set (into_leaves ?t). is_compatible ops v m" if v: "v \<in> ?S" for v
  proof -
    obtain m where m: "m \<in> tops ?S" "fam m = fam v" "rank v \<le> rank m"
      using tops_covers [of ?S v] v by blast
    have "is_compatible ops v v"
      using dyn_identity.axioms(1) [OF assms(1)] by (simp add: is_compatible.simps dyn_reflexive.dt_eq_refl)
    then have "is_compatible ops v m" using m fam_compatible [of v m ops] by (cases "v = m") simp_all
    then show ?thesis using m(1) l(2) leaves by auto
  qed
  ultimately show ?thesis by blast
qed

theorem collapse_union_idempotent_and_covering_witness:
  "collapse_union unit_ops [collapse_union unit_ops [TText (Some 4), TJson, TText (Some 9)]]
     = collapse_union unit_ops [TText (Some 4), TJson, TText (Some 9)]"
  using collapse_union_idempotent_and_covering
    [OF unit_dyn.dyn_identity_axioms, of "[TText (Some 4), TJson, TText (Some 9)]"]
  by (simp add: into_leaves_def union_of_def)

text \<open>
  C13: for descriptors whose order ignores a parameter that equality looks at, the result does
  depend on the order: two geohash columns of different precision collapse to unions that
  are not equal when they are observed in the two orders.
\<close>

theorem collapse_union_geohash_order_dependent:
  "\<not> dt_eq conn_ops
      (collapse_union conn_ops [TCustom (QuestDbGeohashType 4), TCustom (QuestDbGeohashType 8)])
      (collapse_union conn_ops [TCustom (QuestDbGeohashType 8), TCustom (QuestDbGeohashType 4)])"
proof -
  have w: "try_widen conn_ops (TCustom (QuestDbGeohashType m)) (TCustom (QuestDbGeohashType n))
      = Inl (TCustom (QuestDbGeohashType m), TCustom (QuestDbGeohashType n))" if "m \<noteq> n" for m n
    using that
    by (simp add: try_widen_def dt_eq.simps dyn_eq_def conn_ops_def conn_is_equal_def any_int_def any_uint_def any_float_def)
  have "collapse_union conn_ops [TCustom (QuestDbGeohashType m), TCustom (QuestDbGeohashType n)]
      = TUnion [TCustom (QuestDbGeohashType m), TCustom (QuestDbGeohashType n)]" if "m \<noteq> n" for m n
    using that
    by (simp add: collapse_union_def into_leaves_def w fallback_def sort_by_def dyn_cmp_def cmp_string_def cmp_simps
        dt_eq.simps dyn_eq_def conn_ops_def [THEN arg_cong, of dyn_kind] conn_ops_def [THEN arg_cong, of dyn_is_equal]
        reduce_step_def conn_is_equal_def)
  then show ?thesis by (simp add: dt_eq.simps dyn_eq_def conn_ops_def conn_is_equal_def)
qed

end
