(* ===== verification/Schedule.thy ===== *)
theory Schedule
  imports Prelude
begin

text \<open>
  The schedule of a flow (\<open>crates/core/src/flow/runner.rs\<close>): the start-up offset and the
  next grid point. Durations are in nanoseconds; the hash of the flow's name
  (\<open>ahash::AHasher\<close>) is an argument. \<open>u128\<close> arithmetic on nanoseconds since the epoch does
  not overflow before the year 10^21, so these values are natural numbers; the casts to
  \<open>u64\<close> are kept.
\<close>

definition U64_MAX :: nat where "U64_MAX = 2 ^ 64 - 1"

definition as_u64 :: "nat \<Rightarrow> nat" where "as_u64 n = n mod 2 ^ 64"

text \<open>\<open>jitter_offset\<close>, in milliseconds; \<open>None\<close> is the panic of a remainder by zero.\<close>

definition jitter_offset :: "nat \<Rightarrow> nat \<Rightarrow> nat option" where
  "jitter_offset hash jitter =
     (if jitter = 0 then Some 0
      else
        (let jitter_millis = as_u64 (max (jitter div 1000000) 1)
         in if jitter_millis = 0 then None else Some (hash mod jitter_millis)))"

text \<open>The offset of the grid and the time from now to the next grid point.\<close>

definition grid_offset :: "nat \<Rightarrow> nat \<Rightarrow> nat \<Rightarrow> nat" where
  "grid_offset hash interval jitter =
     (if jitter = 0 then 0
      else (let bound = min jitter (max interval 1) in if bound = 0 then 0 else hash mod bound))"

definition next_tick_delay :: "nat \<Rightarrow> nat \<Rightarrow> nat \<Rightarrow> nat \<Rightarrow> nat" where
  "next_tick_delay hash interval jitter now =
     (let interval_ns = max interval 1;
          offset_ns = grid_offset hash interval jitter;
          phase = (now + interval_ns - offset_ns) mod interval_ns;
          time_until_next = interval_ns - phase
      in if time_until_next \<le> U64_MAX then time_until_next else U64_MAX)"

lemma grid_offset_less: "grid_offset hash interval jitter < max interval 1"
proof (cases "jitter = 0")
  case False
  have "0 < min jitter (max interval 1)" using False by simp
  then have "hash mod min jitter (max interval 1) < min jitter (max interval 1)" by (rule mod_less_divisor)
  with False show ?thesis by (simp add: grid_offset_def Let_def)
qed (simp add: grid_offset_def)

lemma phase_eq:
  fixes iv off now :: nat
  assumes "off < iv"
  shows "int ((now + iv - off) mod iv) = (int now - int off) mod int iv"
proof -
  have "int ((now + iv - off) mod iv) = (int now + int iv - int off) mod int iv"
    using assms by (simp add: zmod_int of_nat_diff)
  also have "int now + int iv - int off = (int now - int off) + int iv" by simp
  finally show ?thesis by simp
qed

text \<open>
  C25: the sleep between idle ticks ends on the flow's grid, strictly in the future and at
  most one interval away, and no grid point is passed over: with an interval below 584
  years, the next wake-up is the first time after now that is congruent to the flow's
  offset modulo the interval.
\<close>

theorem next_tick_on_grid:
  fixes hash interval jitter now :: nat
  assumes "0 < interval" "interval \<le> U64_MAX"
  defines "off \<equiv> grid_offset hash interval jitter" and "d \<equiv> next_tick_delay hash interval jitter now"
  shows "0 < d \<and> d \<le> interval \<and> (int now + int d - int off) mod int interval = 0
    \<and> (\<forall>e. 0 < e \<and> e < d \<longrightarrow> (int now + int e - int off) mod int interval \<noteq> 0)"
proof -
  have iv: "max interval 1 = interval" using assms(1) by simp
  define p where "p = (now + interval - off) mod interval"
  have p: "p < interval" using assms(1) by (simp add: p_def)
  then have d: "d = interval - p"
    using assms(2) unfolding d_def next_tick_delay_def Let_def iv off_def [symmetric] p_def [symmetric] by simp
  have ph: "int p = (int now - int off) mod int interval"
    unfolding p_def using phase_eq [of off interval now] grid_offset_less [of hash interval jitter] iv off_def by simp
  have cong: "(int now + x - int off) mod int interval = (int p + x) mod int interval" for x
  proof -
    have "(int now + x - int off) mod int interval = ((int now - int off) mod int interval + x) mod int interval"
      unfolding mod_add_left_eq by (simp add: algebra_simps)
    then show ?thesis using ph by simp
  qed
  have ne: "(int p + int e) mod int interval \<noteq> 0" if "0 < e" "e < d" for e
  proof -
    have "p + e < interval" using that d p by simp
    then have "(p + e) mod interval \<noteq> 0" using that(1) by simp
    then show ?thesis by (metis of_nat_add of_nat_eq_0_iff zmod_int)
  qed
  have eq: "(int p + int d) mod int interval = 0" using d p by (simp flip: of_nat_add)
  have "0 < d" "d \<le> interval" using d p by simp_all
  then show ?thesis unfolding cong by (intro conjI allI impI ne eq; simp)
qed

theorem next_tick_on_grid_witness:
  "0 < next_tick_delay 12345 60 7 100 \<and> next_tick_delay 12345 60 7 100 \<le> 60"
  using next_tick_on_grid [of 60 12345 7 100] by (simp add: U64_MAX_def)

text \<open>
  the start-up offset is below the configured jitter for every jitter up to 584 million
  years in milliseconds, and no division by zero happens there.
\<close>

theorem jitter_offset_bounded:
  assumes "jitter div 1000000 \<le> U64_MAX" "1000000 \<le> jitter"
  shows "\<exists>ms. jitter_offset hash jitter = Some ms \<and> ms * 1000000 < jitter"
proof -
  let ?m = "jitter div 1000000"
  have m: "0 < ?m" using assms(2) by (simp add: div_greater_zero_iff)
  have "?m < 2 ^ 64" using assms(1) by (simp add: U64_MAX_def)
  then have u: "as_u64 (max ?m 1) = ?m" using m by (simp add: as_u64_def)
  have "hash mod ?m < ?m" using m by simp
  then have "hash mod ?m * 1000000 < jitter" by linarith
  then show ?thesis using u m assms(2) by (simp add: jitter_offset_def Let_def)
qed

theorem jitter_offset_bounded_witness:
  "\<exists>ms. jitter_offset 987654321 30000000000 = Some ms \<and> ms * 1000000 < 30000000000"
  by (rule jitter_offset_bounded) (simp_all add: U64_MAX_def)

end
