(* ===== verification/Keyset.thy ===== *)
theory Keyset
  imports Prelude
begin

text \<open>
  Keyset pagination of the PostgreSQL source: the batch query
  (\<open>crates/sources/postgres/src/sql_statements.rs\<close>) and \<open>read_batch\<close>
  (\<open>crates/sources/postgres/src/pg_source.rs\<close>). The \<open>WHERE\<close> text is a list of tokens, so
  that the precedence SQL gives to \<open>AND\<close> and \<open>OR\<close> is part of the model and not of the
  reader's goodwill. What PostgreSQL does with the query (three-valued logic, row
  comparison, \<open>ORDER BY\<close>, \<open>LIMIT\<close>) is given by definitions of its documented semantics.
  A cell is \<open>'v option\<close>, with \<open>None\<close> for \<open>Value::Null\<close> and SQL's \<open>NULL\<close>.
\<close>

section \<open>Cursor state and query text\<close>

datatype cursor_order = Asc | Desc

type_synonym 'v cursor_state = "(string \<times> 'v option) list"

datatype sql_atom =
    IsNull string
  | IsNotNull string
  | NotDistinct string nat
  | GtParam string nat
  | LtParam string nat

datatype sql_tok = TokAtom sql_atom | TokAnd | TokOr

datatype where_clause =
    PlainTuple cursor_order "string list" "nat list"
  | NullAware "sql_tok list list"

record read_query =
  rq_columns :: "string list"
  rq_table :: string
  rq_where :: "where_clause option"
  rq_order_by :: "(string \<times> cursor_order) list"
  rq_limit_param :: nat
  rq_bind_order :: "nat list"

text \<open>\<open>state.fields.iter().position(|f| f.name == name)\<close>; the callers have checked that it
  succeeds, so the \<open>expect\<close> is not modelled.\<close>

definition field_index :: "'v cursor_state \<Rightarrow> string \<Rightarrow> nat" where
  "field_index state name = length (takeWhile (\<lambda>f. fst f \<noteq> name) state)"

text \<open>\<open>bind_order.push(idx)\<close>: the parameter just bound is \<open>$len\<close>.\<close>

definition push_bind :: "'v cursor_state \<Rightarrow> string \<Rightarrow> nat list \<Rightarrow> nat \<times> nat list" where
  "push_bind state col b = (let b' = b @ [field_index state col] in (length b', b'))"

definition nullable_eq ::
  "string \<Rightarrow> 'v option \<Rightarrow> nat list \<Rightarrow> 'v cursor_state \<Rightarrow> sql_tok list \<times> nat list" where
  "nullable_eq col v b state =
     (if v = None then ([TokAtom (IsNull col)], b)
      else case push_bind state col b of (n, b') \<Rightarrow> ([TokAtom (NotDistinct col n)], b'))"

definition nullable_cmp ::
  "string \<Rightarrow> 'v option \<Rightarrow> cursor_order \<Rightarrow> nat list \<Rightarrow> 'v cursor_state \<Rightarrow> sql_tok list \<times> nat list" where
  "nullable_cmp col v order b state =
     (case (order, v = None) of
        (Asc, True) \<Rightarrow> ([TokAtom (IsNotNull col)], b)
      | (Desc, True) \<Rightarrow> ([], b)
      | (Asc, False) \<Rightarrow>
          (case push_bind state col b of (n, b') \<Rightarrow> ([TokAtom (GtParam col n)], b'))
      | (Desc, False) \<Rightarrow>
          (case push_bind state col b of
             (n, b') \<Rightarrow> ([TokAtom (IsNull col), TokOr, TokAtom (LtParam col n)], b')))"

text \<open>\<open>parts.join(" AND ")\<close>.\<close>

fun join_and :: "sql_tok list list \<Rightarrow> sql_tok list" where
  "join_and [] = []"
| "join_and [p] = p"
| "join_and (p # q # ps) = p @ TokAnd # join_and (q # ps)"

fun eq_parts ::
  "('v cursor_state) \<Rightarrow> nat list \<Rightarrow> 'v cursor_state \<Rightarrow> sql_tok list list \<times> nat list" where
  "eq_parts [] b state = ([], b)"
| "eq_parts ((name, v) # fs) b state =
     (case nullable_eq name v b state of
        (p, b1) \<Rightarrow> (case eq_parts fs b1 state of (ps, b2) \<Rightarrow> (p # ps, b2)))"

text \<open>The loop over \<open>k\<close>: \<open>pre\<close> is \<open>fields[..k - 1]\<close>.\<close>

fun null_aware_clauses ::
  "'v cursor_state \<Rightarrow> 'v cursor_state \<Rightarrow> cursor_order \<Rightarrow> nat list \<Rightarrow> 'v cursor_state \<Rightarrow> sql_tok list list \<times> nat list" where
  "null_aware_clauses pre [] order b state = ([], b)"
| "null_aware_clauses pre ((name, v) # fs) order b state =
     (case eq_parts pre b state of
        (parts, b1) \<Rightarrow>
          (case nullable_cmp name v order b1 state of
             (cmp, b2) \<Rightarrow>
               (case null_aware_clauses (pre @ [(name, v)]) fs order b2 state of
                  (rest, b3) \<Rightarrow> (if cmp = [] then rest else join_and (parts @ [cmp]) # rest, b3))))"

definition null_aware_gt ::
  "'v cursor_state \<Rightarrow> cursor_order \<Rightarrow> nat list \<Rightarrow> 'v cursor_state \<Rightarrow> where_clause \<times> nat list" where
  "null_aware_gt fs order b state =
     (case null_aware_clauses [] fs order b state of (cs, b') \<Rightarrow> (NullAware cs, b'))"

fun plain_placeholders :: "string list \<Rightarrow> nat list \<Rightarrow> 'v cursor_state \<Rightarrow> nat list \<times> nat list" where
  "plain_placeholders [] b state = ([], b)"
| "plain_placeholders (c # cs) b state =
     (case push_bind state c b of
        (n, b1) \<Rightarrow> (case plain_placeholders cs b1 state of (ns, b2) \<Rightarrow> (n # ns, b2)))"

definition plain_tuple_compare ::
  "string list \<Rightarrow> cursor_order \<Rightarrow> nat list \<Rightarrow> 'v cursor_state \<Rightarrow> where_clause \<times> nat list" where
  "plain_tuple_compare cursor_fields order b state =
     (case plain_placeholders cursor_fields b state of
        (ns, b') \<Rightarrow> (PlainTuple order cursor_fields ns, b'))"

text \<open>The look-up of every cursor field in the persisted state, an error when one is missing.\<close>

definition cursor_values :: "string list \<Rightarrow> 'v cursor_state \<Rightarrow> string + 'v cursor_state" where
  "cursor_values cursor_fields state =
     mapM_res (\<lambda>name. case map_of state name of
        None \<Rightarrow> Inl ''cursor field not found in persisted cursor state''
      | Some v \<Rightarrow> Inr (name, v)) cursor_fields"

definition needs_null_aware :: "cursor_order \<Rightarrow> 'v cursor_state \<Rightarrow> bool list \<Rightarrow> bool" where
  "needs_null_aware order fs cursor_nullable =
     (let has_null = list_ex (\<lambda>f. snd f = None) fs
      in case order of Asc \<Rightarrow> has_null | Desc \<Rightarrow> has_null \<or> list_ex (\<lambda>n. n) cursor_nullable)"

text \<open>Identifier quoting and the projection's casts do not touch the rows selected; they are
  outside this definition.\<close>

definition build_read_batch ::
  "string \<Rightarrow> string list \<Rightarrow> string list \<Rightarrow> cursor_order \<Rightarrow> 'v cursor_state option \<Rightarrow> bool list \<Rightarrow> string + read_query" where
  "build_read_batch table columns cursor_fields order cursor_state cursor_nullable =
     bind_res
       (case cursor_state of
          None \<Rightarrow> Inr (None, [])
        | Some state \<Rightarrow>
            bind_res (cursor_values cursor_fields state) (\<lambda>fs.
              Inr (case (if needs_null_aware order fs cursor_nullable
                         then null_aware_gt fs order [] state
                         else plain_tuple_compare cursor_fields order [] state) of
                     (w, b) \<Rightarrow> (Some w, b)))) (\<lambda>(w, b).
       Inr \<lparr>rq_columns = columns, rq_table = table, rq_where = w,
            rq_order_by = map (\<lambda>cf. (cf, order)) cursor_fields,
            rq_limit_param = length b + 1, rq_bind_order = b\<rparr>)"

section \<open>What PostgreSQL makes of it\<close>

text \<open>Three-valued logic; \<open>None\<close> is \<open>UNKNOWN\<close>.\<close>

fun and3 :: "bool option \<Rightarrow> bool option \<Rightarrow> bool option" where
  "and3 (Some False) _ = Some False"
| "and3 _ (Some False) = Some False"
| "and3 (Some True) b = b"
| "and3 None _ = None"

fun or3 :: "bool option \<Rightarrow> bool option \<Rightarrow> bool option" where
  "or3 (Some True) _ = Some True"
| "or3 _ (Some True) = Some True"
| "or3 (Some False) b = b"
| "or3 None _ = None"

type_synonym 'v row = "string \<Rightarrow> 'v option"

definition eval_atom :: "'v::linorder row \<Rightarrow> (nat \<Rightarrow> 'v option) \<Rightarrow> sql_atom \<Rightarrow> bool option" where
  "eval_atom r p a =
     (case a of
        IsNull c \<Rightarrow> Some (r c = None)
      | IsNotNull c \<Rightarrow> Some (r c \<noteq> None)
      | NotDistinct c n \<Rightarrow> Some (r c = p n)
      | GtParam c n \<Rightarrow> (case (r c, p n) of (Some x, Some y) \<Rightarrow> Some (x > y) | _ \<Rightarrow> None)
      | LtParam c n \<Rightarrow> (case (r c, p n) of (Some x, Some y) \<Rightarrow> Some (x < y) | _ \<Rightarrow> None))"

text \<open>A text without parentheses: \<open>AND\<close> binds tighter than \<open>OR\<close>. The accumulator is the value
  of the conjunction being read.\<close>

fun eval_flat :: "'v::linorder row \<Rightarrow> (nat \<Rightarrow> 'v option) \<Rightarrow> bool option \<Rightarrow> sql_tok list \<Rightarrow> bool option" where
  "eval_flat r p acc [] = acc"
| "eval_flat r p acc (TokAtom a # ts) = eval_flat r p (and3 acc (eval_atom r p a)) ts"
| "eval_flat r p acc (TokAnd # ts) = eval_flat r p acc ts"
| "eval_flat r p acc (TokOr # ts) = or3 acc (eval_flat r p (Some True) ts)"

fun row_compare :: "cursor_order \<Rightarrow> 'v::linorder option list \<Rightarrow> 'v option list \<Rightarrow> bool option" where
  "row_compare order (Some x # xs) (Some y # ys) =
     (if x = y then row_compare order xs ys else Some (case order of Asc \<Rightarrow> x > y | Desc \<Rightarrow> x < y))"
| "row_compare order (_ # _) (_ # _) = None"
| "row_compare order _ _ = Some False"

definition eval_where :: "'v::linorder row \<Rightarrow> (nat \<Rightarrow> 'v option) \<Rightarrow> where_clause option \<Rightarrow> bool option" where
  "eval_where r p w =
     (case w of
        None \<Rightarrow> Some True
      | Some (PlainTuple order cols ns) \<Rightarrow> row_compare order (map r cols) (map p ns)
      | Some (NullAware clauses) \<Rightarrow> foldr (\<lambda>c v. or3 (eval_flat r p (Some True) c) v) clauses (Some False))"

text \<open>Parameter \<open>$n\<close>, bound from the cursor state through \<open>bind_order\<close>.\<close>

definition bound_param :: "'v cursor_state \<Rightarrow> nat list \<Rightarrow> nat \<Rightarrow> 'v option" where
  "bound_param state b n = snd (state ! (b ! (n - 1)))"

definition selected :: "'v::linorder cursor_state \<Rightarrow> read_query \<Rightarrow> 'v row \<Rightarrow> bool" where
  "selected state q r \<longleftrightarrow> eval_where r (bound_param state (rq_bind_order q)) (rq_where q) = Some True"

text \<open>The key of a row and the order of \<open>ORDER BY ... NULLS FIRST / NULLS LAST\<close>: \<open>NULL\<close> is the
  least element.\<close>

definition key_of :: "string list \<Rightarrow> 'v row \<Rightarrow> 'v option list" where
  "key_of cursor_fields r = map r cursor_fields"

definition cursor_cmp :: "cursor_order \<Rightarrow> 'v::linorder option list \<Rightarrow> 'v option list \<Rightarrow> cmp_ord" where
  "cursor_cmp order a b =
     (case order of
        Asc \<Rightarrow> cmp_list (cmp_option cmp_lin) a b
      | Desc \<Rightarrow> cmp_rev (cmp_list (cmp_option cmp_lin) a b))"


definition after_key :: "cursor_order \<Rightarrow> 'v::linorder option list \<Rightarrow> 'v option list \<Rightarrow> bool" where
  "after_key order a b \<longleftrightarrow> cursor_cmp order a b = Greater"

section \<open>The truth of the emitted condition\<close>

lemma and3_True: "and3 a b = Some True \<longleftrightarrow> a = Some True \<and> b = Some True"
  by (cases "(a, b)" rule: and3.cases) auto

lemma or3_True: "or3 a b = Some True \<longleftrightarrow> a = Some True \<or> b = Some True"
  by (cases "(a, b)" rule: or3.cases) auto

lemma foldr_or3_True:
  "foldr (\<lambda>c v. or3 (f c) v) cs (Some False) = Some True \<longleftrightarrow> (\<exists>c \<in> set cs. f c = Some True)"
  by (induction cs) (auto simp: or3_True)

lemma field_index_nth: "map_of state c = Some v \<Longrightarrow> snd (state ! field_index state c) = v"
  by (induction state) (auto simp: field_index_def)

text \<open>\<open>B\<close> is the final bind list: everything pushed so far stays where it is.\<close>

definition extends :: "nat list \<Rightarrow> nat list \<Rightarrow> bool" where
  "extends B b \<longleftrightarrow> (\<exists>x. B = b @ x)"

lemma extends_refl [simp]: "extends b b"
  by (simp add: extends_def)

lemma extends_trans: "extends C B \<Longrightarrow> extends B b \<Longrightarrow> extends C b"
  by (auto simp: extends_def)

lemma extends_snoc: "extends B (b @ [x]) \<Longrightarrow> extends B b"
  by (auto simp: extends_def)

lemma push_bind_param:
  assumes "push_bind state c b = (n, b')" "extends B b'" "map_of state c = Some v"
  shows "bound_param state B n = v" "extends B b"
proof -
  obtain x where "B = (b @ [field_index state c]) @ x"
    using assms(1,2) by (auto simp: push_bind_def extends_def Let_def)
  moreover have "n = Suc (length b)" using assms(1) by (auto simp: push_bind_def Let_def)
  ultimately show "bound_param state B n = v" "extends B b"
    using field_index_nth [OF assms(3)] by (auto simp: bound_param_def nth_append extends_def)
qed

definition state_has :: "'v cursor_state \<Rightarrow> 'v cursor_state \<Rightarrow> bool" where
  "state_has state fs \<longleftrightarrow> (\<forall>(n, v) \<in> set fs. map_of state n = Some v)"

definition agrees :: "'v cursor_state \<Rightarrow> 'v row \<Rightarrow> bool" where
  "agrees fs r \<longleftrightarrow> (\<forall>(n, v) \<in> set fs. r n = v)"

lemma state_has_simps [simp]:
  "state_has state []"
  "state_has state (f # fs) \<longleftrightarrow> map_of state (fst f) = Some (snd f) \<and> state_has state fs"
  "state_has state (fs @ gs) \<longleftrightarrow> state_has state fs \<and> state_has state gs"
  by (auto simp: state_has_def)

lemma agrees_simps [simp]:
  "agrees [] r"
  "agrees (f # fs) r \<longleftrightarrow> r (fst f) = snd f \<and> agrees fs r"
  "agrees (fs @ gs) r \<longleftrightarrow> agrees fs r \<and> agrees gs r"
  unfolding agrees_def by (simp_all add: ball_Un split_beta)

lemma nullable_eq_part:
  assumes "nullable_eq c v b state = (part, b')" "extends B b'" "map_of state c = Some v"
  shows "\<exists>a. part = [TokAtom a] \<and> eval_atom r (bound_param state B) a = Some (r c = v)" "extends B b"
proof -
  have "(\<exists>a. part = [TokAtom a] \<and> eval_atom r (bound_param state B) a = Some (r c = v)) \<and> extends B b"
  proof (cases v)
    case None
    with assms show ?thesis by (auto simp: nullable_eq_def eval_atom_def)
  next
    case (Some y)
    obtain n where "push_bind state c b = (n, b')" "part = [TokAtom (NotDistinct c n)]"
      using assms(1) Some by (auto simp: nullable_eq_def split: prod.splits)
    with push_bind_param [OF this(1) assms(2,3)] show ?thesis by (auto simp: eval_atom_def)
  qed
  then show "\<exists>a. part = [TokAtom a] \<and> eval_atom r (bound_param state B) a = Some (r c = v)" "extends B b"
    by blast+
qed

lemma eq_parts_join:
  assumes "eq_parts pre b state = (parts, b')" "extends B b'" "state_has state pre"
  shows "eval_flat r (bound_param state B) (Some a) (join_and (parts @ [cmp])) =
      eval_flat r (bound_param state B) (Some (a \<and> agrees pre r)) cmp" "extends B b"
proof -
  have "eval_flat r (bound_param state B) (Some a) (join_and (parts @ [cmp])) =
      eval_flat r (bound_param state B) (Some (a \<and> agrees pre r)) cmp \<and> extends B b"
    using assms
  proof (induction pre arbitrary: b parts a)
    case Nil
    then show ?case by simp
  next
    case (Cons f pre)
    obtain c v where f: "f = (c, v)" by (cases f)
    obtain p b1 where p: "nullable_eq c v b state = (p, b1)" by fastforce
    obtain ps where ps: "eq_parts pre b1 state = (ps, b')" "parts = p # ps"
      using Cons.prems(1) f p by (auto split: prod.splits)
    have hyps: "extends B b1" "map_of state c = Some v" and
      IH: "\<And>a. eval_flat r (bound_param state B) (Some a) (join_and (ps @ [cmp])) =
        eval_flat r (bound_param state B) (Some (a \<and> agrees pre r)) cmp"
      using Cons.IH [OF ps(1) Cons.prems(2)] Cons.prems(3) f by auto
    obtain x where x: "p = [TokAtom x]" "eval_atom r (bound_param state B) x = Some (r c = v)"
      using nullable_eq_part(1) [OF p hyps] by blast
    have "join_and (parts @ [cmp]) = TokAtom x # TokAnd # join_and (ps @ [cmp])"
      using ps(2) x(1) by (cases ps) simp_all
    moreover have "and3 (Some a) (Some (r c = v)) = Some (a \<and> r c = v)" by (cases a; cases "r c = v") simp_all
    ultimately show ?case using x(2) IH nullable_eq_part(2) [OF p hyps] f by (simp add: conj_assoc)
  qed
  then show "eval_flat r (bound_param state B) (Some a) (join_and (parts @ [cmp])) =
      eval_flat r (bound_param state B) (Some (a \<and> agrees pre r)) cmp" "extends B b"
    by blast+
qed

text \<open>One clause. For \<open>DESC\<close> the disjunct \<open>col < $n\<close> escapes the conjunction.\<close>

definition clause_true :: "cursor_order \<Rightarrow> bool \<Rightarrow> 'v::linorder option \<Rightarrow> 'v option \<Rightarrow> bool" where
  "clause_true order a x v =
     (case order of
        Asc \<Rightarrow> a \<and> cmp_option cmp_lin x v = Greater
      | Desc \<Rightarrow> (case v of
                 None \<Rightarrow> False
               | Some y \<Rightarrow> (case x of None \<Rightarrow> a | Some z \<Rightarrow> z < y)))"

lemma nullable_cmp_true:
  assumes "nullable_cmp c v order b state = (cmp, b')" "extends B b'" "map_of state c = Some v"
  shows "cmp \<noteq> [] \<and> eval_flat r (bound_param state B) (Some a) cmp = Some True \<longleftrightarrow>
      clause_true order a (r c) v" "extends B b"
proof -
  show "cmp \<noteq> [] \<and> eval_flat r (bound_param state B) (Some a) cmp = Some True \<longleftrightarrow>
      clause_true order a (r c) v"
  proof (cases v)
    case None
    with assms(1) show ?thesis
      by (cases order; cases "r c")
        (auto simp: nullable_cmp_def clause_true_def eval_atom_def and3_True)
  next
    case (Some y)
    obtain n where n: "push_bind state c b = (n, b')"
      and cmp: "cmp = (case order of Asc \<Rightarrow> [TokAtom (GtParam c n)]
        | Desc \<Rightarrow> [TokAtom (IsNull c), TokOr, TokAtom (LtParam c n)])"
      using assms(1) Some by (cases order) (auto simp: nullable_cmp_def split: prod.splits)
    have "bound_param state B n = Some y" using push_bind_param(1) [OF n assms(2,3)] Some by simp
    with cmp Some show ?thesis
      by (cases order; cases "r c")
        (auto simp: clause_true_def eval_atom_def and3_True or3_True cmp_lin_def)
  qed
  show "extends B b"
    using assms push_bind_param(2) [OF _ assms(2,3), of b]
    by (cases order; cases "v = None") (auto simp: nullable_cmp_def split: prod.splits)
qed

fun clauses_true :: "cursor_order \<Rightarrow> 'v::linorder cursor_state \<Rightarrow> 'v cursor_state \<Rightarrow> 'v row \<Rightarrow> bool" where
  "clauses_true order pre [] r = False"
| "clauses_true order pre ((c, v) # fs) r =
     (clause_true order (agrees pre r) (r c) v \<or> clauses_true order (pre @ [(c, v)]) fs r)"

lemma null_aware_clauses_true:
  assumes "null_aware_clauses pre fs order b state = (cs, b')" "extends B b'" "state_has state (pre @ fs)"
  shows "((\<exists>c \<in> set cs. eval_flat r (bound_param state B) (Some True) c = Some True) \<longleftrightarrow> clauses_true order pre fs r)
    \<and> extends B b"
  using assms
proof (induction fs arbitrary: pre b cs)
  case Nil
  then show ?case by simp
next
  case (Cons f fs)
  obtain c v where f: "f = (c, v)" by (cases f)
  obtain parts b1 where parts: "eq_parts pre b state = (parts, b1)" by fastforce
  obtain cmp b2 where cmp: "nullable_cmp c v order b1 state = (cmp, b2)" by fastforce
  obtain rest where rest: "null_aware_clauses (pre @ [(c, v)]) fs order b2 state = (rest, b')"
      "cs = (if cmp = [] then rest else join_and (parts @ [cmp]) # rest)"
    using Cons.prems(1) f parts cmp by (auto split: prod.splits)
  have has: "state_has state pre" "map_of state c = Some v" "state_has state ((pre @ [(c, v)]) @ fs)"
    using Cons.prems(3) f by simp_all
  note IH = Cons.IH [OF rest(1) Cons.prems(2) has(3)]
  note C = nullable_cmp_true [OF cmp IH [THEN conjunct2] has(2)]
  note P = eq_parts_join [OF parts C(2) has(1)]
  have "(\<exists>c \<in> set cs. eval_flat r (bound_param state B) (Some True) c = Some True) \<longleftrightarrow>
      clause_true order (agrees pre r) (r c) v \<or> clauses_true order (pre @ [(c, v)]) fs r"
    using IH C(1) [of r "agrees pre r"] P(1) [of r True cmp] rest(2) by auto
  then show ?case using P(2) f by simp
qed

lemma clauses_true_Asc:
  "clauses_true Asc pre fs r \<longleftrightarrow>
   agrees pre r \<and> cmp_list (cmp_option cmp_lin) (map (r \<circ> fst) fs) (map snd fs) = Greater"
proof (induction fs arbitrary: pre)
  case (Cons f fs)
  obtain c v where f: "f = (c, v)" by (cases f)
  have "cmp_option cmp_lin (r c) v = Equal \<longleftrightarrow> r c = v" by (rule cmp_atD(1) [OF cmp_option_lin_at(1)])
  then show ?case
    using Cons.IH [of "pre @ [f]"] f
    by (cases "cmp_option cmp_lin (r c) v") (auto simp: clause_true_def)
qed simp

lemma clause_true_Desc:
  "cmp_option cmp_lin x v = Less \<Longrightarrow> clause_true Desc True x v"
  "clause_true Desc True x v \<Longrightarrow> cmp_option cmp_lin x v = Less"
  by (cases x; cases v; auto simp: clause_true_def cmp_lin_def split: if_splits)+

lemma clauses_true_Desc_complete:
  "agrees pre r \<Longrightarrow> cmp_list (cmp_option cmp_lin) (map (r \<circ> fst) fs) (map snd fs) = Less \<Longrightarrow>
   clauses_true Desc pre fs r"
proof (induction fs arbitrary: pre)
  case (Cons f fs)
  obtain c v where f: "f = (c, v)" by (cases f)
  have eq: "cmp_option cmp_lin (r c) v = Equal \<longleftrightarrow> r c = v" by (rule cmp_atD(1) [OF cmp_option_lin_at(1)])
  show ?case
  proof (cases "cmp_option cmp_lin (r c) v")
    case Less
    then show ?thesis using f Cons.prems(1) clause_true_Desc(1) [OF Less] by simp
  next
    case Equal
    then show ?thesis using Cons f eq by simp
  next
    case Greater
    then show ?thesis using Cons.prems(2) f by simp
  qed
qed simp

lemma clauses_true_Desc_single:
  "clauses_true Desc [] [f] r \<Longrightarrow> cmp_list (cmp_option cmp_lin) (map (r \<circ> fst) [f]) (map snd [f]) = Less"
  by (cases f) (auto dest: clause_true_Desc(2))

section \<open>The plain comparison\<close>

lemma plain_placeholders_params:
  assumes "plain_placeholders cols b state = (ns, b')" "extends B b'"
    "list_all2 (\<lambda>c v. map_of state c = Some v) cols vs"
  shows "map (bound_param state B) ns = vs \<and> extends B b"
  using assms
proof (induction cols arbitrary: b ns vs)
  case (Cons c cols)
  obtain v vs' where vs: "vs = v # vs'" "map_of state c = Some v"
      "list_all2 (\<lambda>c v. map_of state c = Some v) cols vs'"
    using Cons.prems(3) by (cases vs) auto
  obtain n b1 where n: "push_bind state c b = (n, b1)" by fastforce
  obtain ms where ms: "plain_placeholders cols b1 state = (ms, b')" "ns = n # ms"
    using Cons.prems(1) n by (auto split: prod.splits)
  note IH = Cons.IH [OF ms(1) Cons.prems(2) vs(3)]
  show ?case using push_bind_param [OF n IH [THEN conjunct2] vs(2)] IH ms(2) vs(1) by simp
qed simp

lemma row_compare_true:
  assumes "length xs = length ys" "None \<notin> set ys" "order = Desc \<Longrightarrow> None \<notin> set xs"
  shows "row_compare order xs ys = Some True \<longleftrightarrow>
    cmp_list (cmp_option cmp_lin) xs ys = (case order of Asc \<Rightarrow> Greater | Desc \<Rightarrow> Less)"
  using assms
proof (induction xs ys rule: list_induct2)
  case (Cons x xs y ys)
  obtain b where y: "y = Some b" using Cons.prems by (cases y) auto
  show ?case
  proof (cases x)
    case None
    then show ?thesis using Cons.prems y by (cases order) auto
  next
    case (Some a)
    then show ?thesis using Cons y by (cases order) (auto simp: cmp_lin_def)
  qed
qed (cases order; simp)


section \<open>The query selects what comes after the cursor\<close>

lemma cursor_values_Inr:
  "cursor_values cf state = Inr fs \<Longrightarrow>
   map fst fs = cf \<and> state_has state fs \<and> list_all2 (\<lambda>c v. map_of state c = Some v) cf (map snd fs)"
  unfolding cursor_values_def
  by (induction cf arbitrary: fs) (auto simp: bind_res_Inr_iff split: option.splits)

lemma selected_null_aware:
  assumes "rq_where q = Some w" "(w, rq_bind_order q) = null_aware_gt fs order [] state" "state_has state fs"
  shows "selected state q r \<longleftrightarrow> clauses_true order [] fs r"
proof -
  obtain cs where cs: "null_aware_clauses [] fs order [] state = (cs, rq_bind_order q)" "w = NullAware cs"
    using assms(2) by (auto simp: null_aware_gt_def split: prod.splits)
  show ?thesis
    using null_aware_clauses_true [OF cs(1) extends_refl, of r] assms(1,3) cs(2)
    by (simp add: selected_def eval_where_def foldr_or3_True)
qed

lemma selected_plain:
  assumes "rq_where q = Some w" "(w, rq_bind_order q) = plain_tuple_compare cf order [] state"
    "cursor_values cf state = Inr fs"
  shows "selected state q r \<longleftrightarrow> row_compare order (key_of cf r) (map snd fs) = Some True"
proof -
  obtain ns where ns: "plain_placeholders cf [] state = (ns, rq_bind_order q)" "w = PlainTuple order cf ns"
    using assms(2) by (auto simp: plain_tuple_compare_def split: prod.splits)
  have "map (bound_param state (rq_bind_order q)) ns = map snd fs"
    using plain_placeholders_params [OF ns(1) extends_refl] cursor_values_Inr [OF assms(3)] by blast
  with assms(1) ns(2) show ?thesis by (simp add: selected_def eval_where_def key_of_def)
qed

lemma selected_by_path:
  assumes "build_read_batch table columns cf order (Some state) nullable = Inr q" "cursor_values cf state = Inr fs"
  shows "selected state q r \<longleftrightarrow>
    (if needs_null_aware order fs nullable then clauses_true order [] fs r
     else row_compare order (key_of cf r) (map snd fs) = Some True)"
proof (cases "needs_null_aware order fs nullable")
  case True
  obtain w b where w: "null_aware_gt fs order [] state = (w, b)" by fastforce
  with True assms have "rq_where q = Some w" "rq_bind_order q = b" by (auto simp: build_read_batch_def)
  with w True selected_null_aware [of q w fs order state r] cursor_values_Inr [OF assms(2)] show ?thesis by simp
next
  case False
  obtain w b where w: "plain_tuple_compare cf order [] state = (w, b)" by fastforce
  with False assms have "rq_where q = Some w" "rq_bind_order q = b" by (auto simp: build_read_batch_def)
  with w False selected_plain [of q w cf order state fs r] assms(2) show ?thesis by simp
qed

text \<open>The cases in which the emitted condition is exact.\<close>

definition exact_order :: "cursor_order \<Rightarrow> string list \<Rightarrow> bool list \<Rightarrow> 'v row \<Rightarrow> 'v cursor_state \<Rightarrow> bool" where
  "exact_order order cf nullable r state \<longleftrightarrow>
     order = Asc \<or> length cf = 1
     \<or> (\<not> list_ex (\<lambda>n. n) nullable \<and> None \<notin> set (key_of cf r) \<and> None \<notin> snd ` set state)"

lemma cursor_cmp_eq_Greater:
  "cursor_cmp order a b = Greater \<longleftrightarrow>
   cmp_list (cmp_option cmp_lin) a b = (case order of Asc \<Rightarrow> Greater | Desc \<Rightarrow> Less)"
  by (cases order; cases "cmp_list (cmp_option cmp_lin) a b") (simp_all add: cursor_cmp_def)

lemma fields_key: "map fst fs = cf \<Longrightarrow> map (r \<circ> fst) fs = key_of cf r"
  by (auto simp: key_of_def)

lemma needs_null_aware_False:
  assumes "\<not> needs_null_aware order fs nullable"
  shows "None \<notin> set (map snd fs)" "order = Desc \<Longrightarrow> \<not> list_ex (\<lambda>n. n) nullable"
  using assms by (cases order; auto simp: needs_null_aware_def list_ex_iff)+

lemma state_has_values: "state_has state fs \<Longrightarrow> snd ` set fs \<subseteq> snd ` set state"
  by (auto simp: state_has_def dest!: map_of_SomeD)

lemma Desc_null_aware_single:
  assumes "exact_order Desc cf nullable r state" "needs_null_aware Desc fs nullable" "state_has state fs"
    "length cf = length fs"
  shows "length fs = 1"
proof (cases "length cf = 1")
  case True
  with assms(4) show ?thesis by simp
next
  case False
  with assms(1) have n: "\<not> list_ex (\<lambda>n. n) nullable" "None \<notin> snd ` set state" by (simp_all add: exact_order_def)
  have "None \<notin> snd ` set fs" using n(2) state_has_values [OF assms(3)] by (rule contra_subsetD [rotated])
  with n(1) assms(2) show ?thesis by (auto simp: needs_null_aware_def list_ex_iff image_iff)
qed

lemma selected_exact:
  assumes q: "build_read_batch table columns cf order (Some state) nullable = Inr q"
    and fs: "cursor_values cf state = Inr fs"
    and ok: "exact_order order cf nullable r state"
    and row: "order = Desc \<Longrightarrow> \<not> list_ex (\<lambda>n. n) nullable \<Longrightarrow> None \<notin> set (key_of cf r)"
  shows "selected state q r \<longleftrightarrow> after_key order (key_of cf r) (map snd fs)"
proof -
  note path = selected_by_path [OF q fs, of r]
  note has = cursor_values_Inr [OF fs]
  have key: "map (r \<circ> fst) fs = key_of cf r" using has fields_key by blast
  have len: "length (key_of cf r) = length (map snd fs)" by (simp flip: key)
  show ?thesis
  proof (cases "needs_null_aware order fs nullable")
    case True
    then have sel: "selected state q r \<longleftrightarrow> clauses_true order [] fs r"
      using path by simp
    show ?thesis
    proof (cases order)
      case Asc
      then show ?thesis using sel by (simp add: clauses_true_Asc key after_key_def cursor_cmp_eq_Greater)
    next
      case Desc
      have "length fs = 1" using Desc_null_aware_single [of cf nullable r state fs] ok True Desc has len
        by (simp add: key_of_def)
      then obtain f where f: "fs = [f]" by (cases fs) simp_all
      have "clauses_true Desc [] fs r \<longleftrightarrow> cmp_list (cmp_option cmp_lin) (map (r \<circ> fst) fs) (map snd fs) = Less"
        unfolding f using clauses_true_Desc_single [of f r] clauses_true_Desc_complete [of "[]" r "[f]"]
        by (intro iffI) simp_all
      then show ?thesis using sel Desc by (simp add: key after_key_def cursor_cmp_eq_Greater)
    qed
  next
    case False
    then have "selected state q r \<longleftrightarrow> row_compare order (key_of cf r) (map snd fs) = Some True"
      using path by simp
    also have "\<dots> \<longleftrightarrow> after_key order (key_of cf r) (map snd fs)"
      using row_compare_true [OF len needs_null_aware_False(1) [OF False] row [OF _ needs_null_aware_False(2) [OF False]]]
      by (simp add: after_key_def cursor_cmp_eq_Greater)
    finally show ?thesis .
  qed
qed

lemma selected_complete:
  assumes q: "build_read_batch table columns cf order (Some state) nullable = Inr q"
    and fs: "cursor_values cf state = Inr fs"
    and row: "order = Desc \<Longrightarrow> \<not> list_ex (\<lambda>n. n) nullable \<Longrightarrow> None \<notin> set (key_of cf r)"
    and after: "after_key order (key_of cf r) (map snd fs)"
  shows "selected state q r"
proof -
  note path = selected_by_path [OF q fs, of r]
  note has = cursor_values_Inr [OF fs]
  have key: "map (r \<circ> fst) fs = key_of cf r" using has fields_key by blast
  have len: "length (key_of cf r) = length (map snd fs)" by (simp flip: key)
  show ?thesis
  proof (cases "needs_null_aware order fs nullable")
    case True
    then have "selected state q r \<longleftrightarrow> clauses_true order [] fs r"
      using path by simp
    then show ?thesis
      using after clauses_true_Desc_complete [of "[]" r fs]
      by (cases order) (simp_all add: clauses_true_Asc key after_key_def cursor_cmp_eq_Greater)
  next
    case False
    then show ?thesis
      using path row_compare_true [OF len] needs_null_aware_False [OF False] row after
      by (simp add: after_key_def cursor_cmp_eq_Greater)
  qed
qed


section \<open>Reading a batch\<close>

text \<open>
  The rows a query may return: the selected ones, in an order \<open>ORDER BY\<close> allows, cut at the
  limit. Rows with equal keys come in any order.
\<close>

definition query_result ::
  "'v::linorder cursor_state \<Rightarrow> read_query \<Rightarrow> string list \<Rightarrow> cursor_order \<Rightarrow> 'v row list \<Rightarrow> nat \<Rightarrow> 'v row list \<Rightarrow> bool" where
  "query_result state q cf order table limit res \<longleftrightarrow>
     (\<exists>full. mset full = mset (filter (selected state q) table)
        \<and> sorted_wrt (\<lambda>a b. cursor_cmp order (key_of cf a) (key_of cf b) \<noteq> Greater) full
        \<and> res = take limit full)"

text \<open>\<open>next_cursor\<close>: the key of the last row, under the names of the cursor fields.\<close>

definition next_cursor :: "string list \<Rightarrow> 'v row list \<Rightarrow> 'v cursor_state option" where
  "next_cursor cf rows = (if rows = [] then None else Some (zip cf (key_of cf (last rows))))"

lemma map_of_zip_key: "map_of (zip cf (key_of cf r)) n = (if n \<in> set cf then Some (r n) else None)"
  by (induction cf) (auto simp: key_of_def)

lemma cursor_values_zip: "cursor_values cf (zip cf (key_of cf r)) = Inr (zip cf (key_of cf r))"
proof -
  have "mapM_res (\<lambda>name. case map_of (zip cf (key_of cf r)) name of None \<Rightarrow> Inl e | Some v \<Rightarrow> Inr (name, v)) xs
      = Inr (zip xs (map r xs))" if "set xs \<subseteq> set cf" for xs and e :: string
    using that by (induction xs) (simp_all add: map_of_zip_key)
  from this [OF subset_refl] show ?thesis unfolding cursor_values_def by (simp add: key_of_def)
qed

lemma cursor_values_own: "distinct (map fst c) \<Longrightarrow> cursor_values (map fst c) c = Inr c"
proof -
  assume d: "distinct (map fst c)"
  have "mapM_res (\<lambda>name. case map_of c name of None \<Rightarrow> Inl e | Some v \<Rightarrow> Inr (name, v)) (map fst xs) = Inr xs"
    if "set xs \<subseteq> set c" for xs and e :: string
    using that
  proof (induction xs)
    case (Cons x xs)
    then have "map_of c (fst x) = Some (snd x)" using d by (simp add: map_of_eq_Some_iff)
    with Cons show ?case by simp
  qed simp
  from this [OF subset_refl] show ?thesis unfolding cursor_values_def .
qed

lemma cursor_cmp_total:
  "cmp_eq_at (cursor_cmp order) a" "cmp_rev_at (cursor_cmp order) a" "cmp_trans_at (cursor_cmp order) a"
proof -
  let ?c = "cmp_list (cmp_option cmp_lin) :: 'a option list \<Rightarrow> _"
  have l: "cmp_eq_at ?c a" "cmp_rev_at ?c a" "cmp_trans_at ?c a" for a
    by (simp_all add: cmp_list_eq_at cmp_list_rev_at cmp_list_trans_at)
  note eq = l(1) [THEN cmp_atD(1)] and rev = l(2) [THEN cmp_atD(2)]
  show "cmp_eq_at (cursor_cmp order) a"
    unfolding cmp_eq_at_def by (cases order) (simp_all add: cursor_cmp_def eq)
  show "cmp_rev_at (cursor_cmp order) a"
    unfolding cmp_rev_at_def by (cases order) (simp_all add: cursor_cmp_def rev [of _ a])
  show "cmp_trans_at (cursor_cmp order) a"
    unfolding cmp_trans_at_def
    by (cases order) (auto simp: cursor_cmp_def rev [of _ a, symmetric] rev [symmetric] dest: cmp_atD(3) [OF l(3)])
qed


interpretation key_asc: total_cmp "cursor_cmp order" for order :: cursor_order
  by unfold_locales (rule cursor_cmp_total)+

lemma take_sorted_split:
  assumes "sorted_wrt R full" "x \<in> set full" "x \<notin> set (take n full)" "take n full \<noteq> []"
  shows "R (last (take n full)) x"
proof -
  have "x \<in> set (drop n full)" using assms(2,3) by (metis Un_iff append_take_drop_id set_append)
  moreover have "sorted_wrt R (take n full @ drop n full)" using assms(1) by simp
  moreover have "last (take n full) \<in> set (take n full)" using assms(4) by simp
  ultimately show ?thesis by (metis sorted_wrt_append)
qed

text \<open>No two rows of the table share a key.\<close>

definition unique_keys :: "string list \<Rightarrow> 'v row list \<Rightarrow> bool" where
  "unique_keys cf table \<longleftrightarrow> (\<forall>a \<in> set table. \<forall>b \<in> set table. key_of cf a = key_of cf b \<longrightarrow> a = b)"

lemma query_result_set:
  assumes "query_result state q cf order table limit res"
  obtains full where "set full = {r \<in> set table. selected state q r}" "res = take limit full"
    "sorted_wrt (\<lambda>a b. cursor_cmp order (key_of cf a) (key_of cf b) \<noteq> Greater) full"
proof -
  obtain full where f: "mset full = mset (filter (selected state q) table)"
      "sorted_wrt (\<lambda>a b. cursor_cmp order (key_of cf a) (key_of cf b) \<noteq> Greater) full" "res = take limit full"
    using assms unfolding query_result_def by blast
  have "set full = {r \<in> set table. selected state q r}"
    using arg_cong [OF f(1), of set_mset] by (simp add: Collect_conj_eq)
  then show ?thesis using f(2,3) by (intro that)
qed

lemma query_result_nonempty:
  assumes "query_result state q cf order table limit res" "0 < limit" "x \<in> set table" "selected state q x"
  shows "res \<noteq> []"
proof -
  obtain full where f: "set full = {r \<in> set table. selected state q r}" "res = take limit full"
    using query_result_set [OF assms(1)] by blast
  then have "full \<noteq> []" using assms(3,4) by auto
  with f(2) assms(2) show ?thesis by simp
qed

lemma batch_boundary:
  assumes res: "query_result state q cf order table limit res" "res \<noteq> []" and u: "unique_keys cf table"
    and x: "x \<in> set table" "selected state q x" "x \<notin> set res"
  shows "after_key order (key_of cf x) (key_of cf (last res))"
proof -
  obtain full where set_full: "set full = {r \<in> set table. selected state q r}" and f: "res = take limit full"
      "sorted_wrt (\<lambda>a b. cursor_cmp order (key_of cf a) (key_of cf b) \<noteq> Greater) full"
    using query_result_set [OF res(1)] by blast
  have "cursor_cmp order (key_of cf (last res)) (key_of cf x) \<noteq> Greater"
    using take_sorted_split [OF f(2), of x limit] x res(2) f(1) set_full by simp
  moreover have "last res \<in> set table"
    using last_in_set [OF res(2)] f(1) set_full by (auto dest: in_set_takeD)
  moreover have "last res \<noteq> x" using last_in_set [OF res(2)] x(3) by auto
  ultimately have "cursor_cmp order (key_of cf (last res)) (key_of cf x) = Less"
    using u x(1) key_asc.cmp_Equal [of order "key_of cf (last res)" "key_of cf x"]
    unfolding unique_keys_def by (cases "cursor_cmp order (key_of cf (last res)) (key_of cf x)") auto
  then show ?thesis
    using key_asc.cmp_swap [of order "key_of cf x" "key_of cf (last res)"] by (simp add: after_key_def)
qed


section \<open>The prepared plans\<close>

text \<open>
  \<open>build_context\<close> prepares the plan without a cursor and one for a cursor without nulls,
  built from a placeholder state; \<open>read_batch\<close> builds a fresh one only for a cursor that
  contains a null.
\<close>

record 'v read_spec =
  rs_table :: string
  rs_columns :: "string list"
  rs_cursor_fields :: "string list"
  rs_order :: cursor_order
  rs_limit :: nat

definition sentinel_state :: "'v \<Rightarrow> string list \<Rightarrow> 'v cursor_state" where
  "sentinel_state zero cf = map (\<lambda>name. (name, Some zero)) cf"

definition read_plan ::
  "'v \<Rightarrow> 'v read_spec \<Rightarrow> bool list \<Rightarrow> 'v cursor_state option \<Rightarrow> string + read_query" where
  "read_plan zero spec nullable cursor =
     (let build = (\<lambda>c. build_read_batch (rs_table spec) (rs_columns spec) (rs_cursor_fields spec) (rs_order spec) c nullable)
      in case cursor of
           None \<Rightarrow> build None
         | Some c \<Rightarrow>
             (if list_all (\<lambda>f. snd f \<noteq> None) c
              then build (Some (sentinel_state zero (rs_cursor_fields spec)))
              else build (Some c)))"

text \<open>\<open>read_batch\<close> against a database that holds \<open>table\<close>: the rows and the next cursor it may
  return.\<close>

definition read_batch ::
  "'v::linorder \<Rightarrow> 'v read_spec \<Rightarrow> bool list \<Rightarrow> 'v row list \<Rightarrow> 'v cursor_state option \<Rightarrow>
   'v row list \<times> 'v cursor_state option \<Rightarrow> bool" where
  "read_batch zero spec nullable table cursor out \<longleftrightarrow>
     (\<exists>q rows. read_plan zero spec nullable cursor = Inr q
        \<and> query_result (case cursor of None \<Rightarrow> [] | Some c \<Rightarrow> c) q (rs_cursor_fields spec) (rs_order spec)
            table (rs_limit spec) rows
        \<and> out = (rows, next_cursor (rs_cursor_fields spec) rows))"

text \<open>The text and the bind order depend on the names of the state and on which values are
  null, not on the values.\<close>

definition same_shape :: "'v cursor_state \<Rightarrow> 'w cursor_state \<Rightarrow> bool" where
  "same_shape fs gs \<longleftrightarrow> list_all2 (\<lambda>f g. fst f = fst g \<and> (snd f = None \<longleftrightarrow> snd g = None)) fs gs"

lemma field_index_names: "map fst s = map fst t \<Longrightarrow> field_index s c = field_index t c"
proof (induction s arbitrary: t)
  case (Cons f s)
  then show ?case by (cases t) (auto simp: field_index_def)
qed (simp add: field_index_def)

lemma push_bind_names: "map fst s = map fst t \<Longrightarrow> push_bind s c b = push_bind t c b"
  unfolding push_bind_def by (simp only: field_index_names [of s t c])

lemma nullable_names:
  assumes "map fst s = map fst t" "v = None \<longleftrightarrow> v' = None"
  shows "nullable_eq c v b s = nullable_eq c v' b t" "nullable_cmp c v order b s = nullable_cmp c v' order b t"
  using assms(2) push_bind_names [OF assms(1), of c b]
  by (cases v; cases v'; cases order; simp add: nullable_eq_def nullable_cmp_def)+

lemma eq_parts_shape:
  "map fst s = map fst t \<Longrightarrow> same_shape fs gs \<Longrightarrow> eq_parts fs b s = eq_parts gs b t"
proof (induction fs arbitrary: gs b)
  case (Cons f fs)
  then obtain g gs' where gs: "gs = g # gs'" "same_shape fs gs'" "fst f = fst g" "snd f = None \<longleftrightarrow> snd g = None"
    by (cases gs) (auto simp: same_shape_def)
  show ?case
    using nullable_names(1) [OF Cons.prems(1) gs(4), of "fst g" b] Cons.IH [OF Cons.prems(1) gs(2)] gs(1,3)
    by (cases f; cases g) (simp split: prod.split)
qed (simp add: same_shape_def)

lemma null_aware_clauses_shape:
  "map fst s = map fst t \<Longrightarrow> same_shape pre pre' \<Longrightarrow> same_shape fs gs \<Longrightarrow>
   null_aware_clauses pre fs order b s = null_aware_clauses pre' gs order b t"
proof (induction fs arbitrary: gs b pre pre')
  case (Cons f fs)
  then obtain g gs' where gs: "gs = g # gs'" "same_shape fs gs'" "fst f = fst g" "snd f = None \<longleftrightarrow> snd g = None"
    by (cases gs) (auto simp: same_shape_def)
  have "same_shape (pre @ [f]) (pre' @ [g])"
    using Cons.prems(2) gs(3,4) by (simp add: same_shape_def list_all2_appendI)
  note IH = Cons.IH [OF Cons.prems(1) this gs(2)]
  show ?case
    using eq_parts_shape [OF Cons.prems(1,2)] nullable_names(2) [OF Cons.prems(1) gs(4), of "fst g"] IH gs(1,3)
    by (cases f; cases g) (simp split: prod.split)
qed (simp add: same_shape_def)

lemma plain_placeholders_names:
  "map fst s = map fst t \<Longrightarrow> plain_placeholders cols b s = plain_placeholders cols b t"
proof (induction cols arbitrary: b)
  case (Cons c cols)
  then show ?case using push_bind_names [OF Cons.prems, of c b] by (simp split: prod.split)
qed simp

lemma cursor_values_shape:
  assumes "map fst s = map fst t" "\<forall>f \<in> set s. snd f \<noteq> None" "\<forall>f \<in> set t. snd f \<noteq> None"
  shows "(\<exists>fs gs. cursor_values cf s = Inr fs \<and> cursor_values cf t = Inr gs \<and> same_shape fs gs
      \<and> (\<forall>f \<in> set fs. snd f \<noteq> None) \<and> (\<forall>f \<in> set gs. snd f \<noteq> None))
    \<or> (\<exists>e. cursor_values cf s = Inl e \<and> cursor_values cf t = Inl e)"
proof (induction cf)
  case Nil
  then show ?case by (simp add: cursor_values_def same_shape_def)
next
  case (Cons c cf)
  have "map_of s c = None \<longleftrightarrow> map_of t c = None" using arg_cong [OF assms(1), of set]
    by (simp add: map_of_eq_None_iff)
  then consider "map_of s c = None" "map_of t c = None" | v w where "map_of s c = Some v" "map_of t c = Some w"
    by (cases "map_of s c"; cases "map_of t c") auto
  then show ?case
  proof cases
    case 1
    then show ?thesis by (simp add: cursor_values_def)
  next
    case 2
    then have "v \<noteq> None" "w \<noteq> None" using assms(2,3) by (force dest: map_of_SomeD)+
    with 2 Cons show ?thesis
      by (auto simp: cursor_values_def same_shape_def)
  qed
qed

lemma build_read_batch_non_null:
  assumes "map fst s = map fst t" "\<forall>f \<in> set s. snd f \<noteq> None" "\<forall>f \<in> set t. snd f \<noteq> None"
  shows "build_read_batch table columns cf order (Some s) nullable = build_read_batch table columns cf order (Some t) nullable"
  using cursor_values_shape [OF assms, of cf]
proof (elim disjE exE conjE)
  fix fs gs
  assume *: "cursor_values cf s = Inr fs" "cursor_values cf t = Inr gs" "same_shape fs gs"
    "\<forall>f \<in> set fs. snd f \<noteq> None" "\<forall>f \<in> set gs. snd f \<noteq> None"
  have "needs_null_aware order fs nullable = needs_null_aware order gs nullable"
    using *(4,5) by (cases order) (auto simp: needs_null_aware_def Let_def list_ex_iff)
  moreover have "null_aware_gt fs order [] s = null_aware_gt gs order [] t"
    using null_aware_clauses_shape [OF assms(1) _ *(3), of "[]" "[]"]
    by (simp add: null_aware_gt_def same_shape_def)
  moreover have "plain_tuple_compare cf order [] s = plain_tuple_compare cf order [] t"
    using plain_placeholders_names [OF assms(1)] by (simp add: plain_tuple_compare_def)
  ultimately show ?thesis using * by (simp add: build_read_batch_def)
qed (simp add: build_read_batch_def)

lemma read_plan_fresh:
  assumes "cursor = None \<or> (\<exists>c. cursor = Some c \<and> map fst c = rs_cursor_fields spec)"
  shows "read_plan zero spec nullable cursor =
    build_read_batch (rs_table spec) (rs_columns spec) (rs_cursor_fields spec) (rs_order spec) cursor nullable"
proof (cases cursor)
  case (Some c)
  with assms have names: "map fst c = map fst (sentinel_state zero (rs_cursor_fields spec))"
    by (simp add: sentinel_state_def comp_def)
  have "\<forall>f \<in> set (sentinel_state zero (rs_cursor_fields spec)). snd f \<noteq> None" by (auto simp: sentinel_state_def)
  then show ?thesis
    using build_read_batch_non_null [OF names] Some by (simp add: read_plan_def Let_def list_all_iff)
qed (simp add: read_plan_def Let_def)


section \<open>Properties\<close>

text \<open>Columns declared \<open>NOT NULL\<close> hold no nulls.\<close>

definition respects_nullable :: "string list \<Rightarrow> bool list \<Rightarrow> 'v row \<Rightarrow> bool" where
  "respects_nullable cf nullable r \<longleftrightarrow> list_all2 (\<lambda>c n. r c = None \<longrightarrow> n) cf nullable"

lemma respects_nullable_key:
  "respects_nullable cf nullable r \<Longrightarrow> \<not> list_ex (\<lambda>n. n) nullable \<Longrightarrow> None \<notin> set (key_of cf r)"
  unfolding respects_nullable_def key_of_def
  by (induction rule: list_all2_induct) auto

text \<open>
  C15: the emitted \<open>WHERE\<close> is exactly "comes after the cursor" in the order of the query, with
  \<open>NULL\<close> as the least value: for every ascending cursor, for every single-column cursor,
  and for descending cursors over columns that are not nullable. All nulls in the cursor,
  the rows and SQL's three-valued logic are accounted for.
\<close>

theorem keyset_where_exact:
  assumes "build_read_batch table columns cf order (Some state) nullable = Inr q"
    and "cursor_values cf state = Inr fs"
    and "exact_order order cf nullable r state"
    and "respects_nullable cf nullable r"
  shows "selected state q r \<longleftrightarrow> after_key order (key_of cf r) (map snd fs)"
  using selected_exact [OF assms(1-3)] respects_nullable_key [OF assms(4)] by simp

theorem keyset_where_exact_witness:
  "\<exists>q. build_read_batch ''t'' [''id''] [''ts'', ''id''] Asc
        (Some [(''ts'', None), (''id'', Some (42 :: nat))]) [True, False] = Inr q
    \<and> (selected [(''ts'', None), (''id'', Some (42 :: nat))] q (\<lambda>c. if c = ''ts'' then None else Some 43)
         \<longleftrightarrow> after_key Asc [None, Some 43] [None, Some (42 :: nat)])"
proof -
  let ?s = "[(''ts'', None), (''id'', Some (42 :: nat))]" and ?r = "\<lambda>c. if c = ''ts'' then None else Some (43 :: nat)"
  obtain q where q: "build_read_batch ''t'' [''id''] [''ts'', ''id''] Asc (Some ?s) [True, False] = Inr q"
    by (simp add: build_read_batch_def cursor_values_def needs_null_aware_def null_aware_gt_def
      nullable_cmp_def nullable_eq_def push_bind_def Let_def)
  have "selected ?s q ?r \<longleftrightarrow> after_key Asc (key_of [''ts'', ''id''] ?r) (map snd ?s)"
    by (rule keyset_where_exact [OF q])
      (simp_all add: cursor_values_def exact_order_def respects_nullable_def)
  with q show ?thesis by (auto simp: key_of_def)
qed

lemma read_batch_complete:
  assumes rb: "read_batch zero spec nullable table cursor (rows, nxt)"
    and names: "\<And>c. cursor = Some c \<Longrightarrow> map fst c = rs_cursor_fields spec" and d: "distinct (rs_cursor_fields spec)"
    and u: "unique_keys (rs_cursor_fields spec) table" and lim: "0 < rs_limit spec"
    and nn: "\<forall>r \<in> set table. respects_nullable (rs_cursor_fields spec) nullable r"
    and r: "r \<in> set table"
    and after: "\<And>c. cursor = Some c \<Longrightarrow> after_key (rs_order spec) (key_of (rs_cursor_fields spec) r) (map snd c)"
  shows "r \<in> set rows \<or> (\<exists>n. nxt = Some n \<and> after_key (rs_order spec) (key_of (rs_cursor_fields spec) r) (map snd n))"
proof -
  let ?cf = "rs_cursor_fields spec" and ?st = "case cursor of None \<Rightarrow> [] | Some c \<Rightarrow> c"
  have "cursor = None \<or> (\<exists>c. cursor = Some c \<and> map fst c = ?cf)" using names by (cases cursor) simp_all
  then obtain q where q: "build_read_batch (rs_table spec) (rs_columns spec) ?cf (rs_order spec) cursor nullable = Inr q"
      "query_result ?st q ?cf (rs_order spec) table (rs_limit spec) rows" "nxt = next_cursor ?cf rows"
    using rb read_plan_fresh [of cursor spec zero nullable] by (auto simp: read_batch_def)
  have sel: "selected ?st q r"
  proof (cases cursor)
    case None
    then show ?thesis using q(1) by (auto simp: build_read_batch_def selected_def eval_where_def)
  next
    case (Some c)
    have "cursor_values ?cf c = Inr c" using cursor_values_own [of c] names [OF Some] d by simp
    then show ?thesis
      using selected_complete [OF q(1) [unfolded Some] _ _ after [OF Some]] respects_nullable_key nn r Some by auto
  qed
  show ?thesis
  proof (cases "r \<in> set rows")
    case False
    have ne: "rows \<noteq> []" by (rule query_result_nonempty [OF q(2) lim r sel])
    have "after_key (rs_order spec) (key_of ?cf r) (key_of ?cf (last rows))"
      by (rule batch_boundary [OF q(2) ne u r sel False])
    with ne q(3) show ?thesis by (simp add: next_cursor_def key_of_def)
  qed simp
qed

text \<open>
  C16: no row is skipped. Whatever the order and the nulls, if the cursor identifies rows
  (no two rows share a key) and the persisted cursor carries the configured fields, then
  every row of the table that comes after the cursor is in the batch just read or comes
  after the cursor the batch hands on; an empty batch means that nothing is left.
\<close>

theorem keyset_no_row_skipped:
  assumes "read_batch zero spec nullable table (Some c) (rows, nxt)"
    and "map fst c = rs_cursor_fields spec" and "distinct (rs_cursor_fields spec)"
    and "unique_keys (rs_cursor_fields spec) table" and "0 < rs_limit spec"
    and "\<forall>r \<in> set table. respects_nullable (rs_cursor_fields spec) nullable r"
    and "r \<in> set table" and "after_key (rs_order spec) (key_of (rs_cursor_fields spec) r) (map snd c)"
  shows "r \<in> set rows \<or> (\<exists>n. nxt = Some n \<and> after_key (rs_order spec) (key_of (rs_cursor_fields spec) r) (map snd n))"
  by (rule read_batch_complete [OF assms(1) _ assms(3-7)]) (use assms(2,8) in simp_all)

theorem keyset_no_row_skipped_witness:
  "\<exists>nxt. read_batch (0 :: nat) \<lparr>rs_table = ''t'', rs_columns = [''id''], rs_cursor_fields = [''id''], rs_order = Asc, rs_limit = 1\<rparr>
      [False] [\<lambda>_. Some 7, \<lambda>_. Some 9] (Some [(''id'', Some 5)]) ([\<lambda>_. Some 7], nxt)
    \<and> (\<exists>n. nxt = Some n \<and> after_key Asc [Some (9 :: nat)] (map snd n))"
proof -
  let ?spec = "\<lparr>rs_table = ''t'', rs_columns = [''id''], rs_cursor_fields = [''id''], rs_order = Asc, rs_limit = 1\<rparr> :: nat read_spec"
  let ?rows = "[\<lambda>_. Some 7, \<lambda>_. Some 9] :: nat row list" and ?nxt = "Some [(''id'', Some 7)] :: nat cursor_state option"
  obtain q where q: "read_plan 0 ?spec [False] (Some [(''id'', Some (5 :: nat))]) = Inr q"
      "rq_where q = Some (PlainTuple Asc [''id''] [1])" "rq_bind_order q = [0]"
    by (simp add: read_plan_def sentinel_state_def build_read_batch_def cursor_values_def needs_null_aware_def
      plain_tuple_compare_def push_bind_def field_index_def)
  have "filter (selected [(''id'', Some 5)] q) ?rows = ?rows"
    by (simp add: selected_def eval_where_def q bound_param_def)
  then have "query_result [(''id'', Some 5)] q [''id''] Asc ?rows 1 [\<lambda>_. Some 7]"
    unfolding query_result_def by (intro exI [of _ ?rows]) (simp add: key_of_def cursor_cmp_def cmp_lin_def)
  then have *: "read_batch 0 ?spec [False] ?rows (Some [(''id'', Some 5)]) ([\<lambda>_. Some 7], ?nxt)"
    using q(1) by (simp add: read_batch_def next_cursor_def key_of_def)
  have "(\<lambda>_. Some 9) \<in> set [(\<lambda>_. Some (7 :: nat)) :: nat row] \<or>
      (\<exists>n. ?nxt = Some n \<and> after_key (rs_order ?spec) (key_of (rs_cursor_fields ?spec) (\<lambda>_. Some (9 :: nat))) (map snd n))"
    by (rule keyset_no_row_skipped [OF *])
      (auto simp: unique_keys_def key_of_def respects_nullable_def after_key_def cursor_cmp_def cmp_lin_def)
  with * show ?thesis by (auto simp: key_of_def fun_eq_iff)
qed

text \<open>
  The rows of a table with two rows and a two-column cursor whose second column is nullable.
\<close>

definition row_2_1 :: "nat row" where
  "row_2_1 = (\<lambda>c. if c = ''a'' then Some 2 else Some 1)"

definition row_1_5 :: "nat row" where
  "row_1_5 = (\<lambda>c. if c = ''a'' then Some 1 else Some 5)"

definition desc_spec :: "nat read_spec" where
  "desc_spec = \<lparr>rs_table = ''t'', rs_columns = [''a'', ''b''], rs_cursor_fields = [''a'', ''b''], rs_order = Desc, rs_limit = 1\<rparr>"

definition cursor_of :: "nat row \<Rightarrow> nat cursor_state" where
  "cursor_of r = [(''a'', r ''a''), (''b'', r ''b'')]"

lemma rows_distinct: "row_2_1 \<noteq> row_1_5"
proof
  assume "row_2_1 = row_1_5"
  from fun_cong [OF this, of "''a''"] show False by (simp add: row_2_1_def row_1_5_def)
qed

lemma query_result_single:
  assumes "filter (selected state q) table = [r]" "0 < limit"
  shows "query_result state q cf order table limit res \<longleftrightarrow> res = [r]"
  using assms by (auto simp: query_result_def)

lemma desc_plan:
  "\<exists>q. read_plan 0 desc_spec [False, True] (Some (cursor_of r)) = Inr q \<and> rq_bind_order q = [0, 0, 1]
     \<and> rq_where q = Some (NullAware
         [[TokAtom (IsNull ''a''), TokOr, TokAtom (LtParam ''a'' 1)],
          [TokAtom (NotDistinct ''a'' 2), TokAnd, TokAtom (IsNull ''b''), TokOr, TokAtom (LtParam ''b'' 3)]])"
  if "r ''a'' \<noteq> None" "r ''b'' \<noteq> None"
  using that
  by (simp add: read_plan_def desc_spec_def cursor_of_def sentinel_state_def build_read_batch_def
    cursor_values_def needs_null_aware_def null_aware_gt_def nullable_cmp_def nullable_eq_def push_bind_def
    field_index_def)

lemma desc_read:
  assumes "r ''a'' = Some x" "r ''b'' = Some y" and "rows = [row_2_1, row_1_5]"
    and "filter (\<lambda>s. the (s ''a'') < x \<or> the (s ''b'') < y) rows = [t]"
  shows "read_batch 0 desc_spec [False, True] rows (Some (cursor_of r)) out \<longleftrightarrow> out = ([t], Some (cursor_of t))"
proof -
  obtain q where q: "read_plan 0 desc_spec [False, True] (Some (cursor_of r)) = Inr q" "rq_bind_order q = [0, 0, 1]"
    "rq_where q = Some (NullAware
         [[TokAtom (IsNull ''a''), TokOr, TokAtom (LtParam ''a'' 1)],
          [TokAtom (NotDistinct ''a'' 2), TokAnd, TokAtom (IsNull ''b''), TokOr, TokAtom (LtParam ''b'' 3)]])"
    using desc_plan [of r] assms(1,2) by auto
  have "selected (cursor_of r) q s \<longleftrightarrow> the (s ''a'') < x \<or> the (s ''b'') < y" if "s \<in> set rows" for s
    using that assms(1,2,3) q(2,3)
    by (auto simp: selected_def eval_where_def or3_True and3_True eval_atom_def bound_param_def cursor_of_def
      row_2_1_def row_1_5_def)
  then have "filter (selected (cursor_of r) q) rows = filter (\<lambda>s. the (s ''a'') < x \<or> the (s ''b'') < y) rows"
    by (rule filter_cong [OF refl])
  then have "filter (selected (cursor_of r) q) rows = [t]" using assms(4) by simp
  note qr = query_result_single [OF this, of 1 "[''a'', ''b'']" Desc]
  show ?thesis using q(1) qr by (auto simp: read_batch_def desc_spec_def next_cursor_def key_of_def cursor_of_def)
qed

text \<open>
  C17: for a descending cursor of two columns, one of them nullable, the emitted \<open>WHERE\<close>
  leaves \<open>col < $n\<close> outside the conjunction with the prefix, and reading can go round in
  circles: on the table with the rows (2, 1) and (1, 5), a batch limit of one and no nulls
  at all, the read after (2, 1) returns (1, 5) and the read after (1, 5) returns (2, 1)
  again, for ever, and no other answer is possible.
\<close>

theorem keyset_desc_livelock:
  "(read_batch 0 desc_spec [False, True] [row_2_1, row_1_5] (Some (cursor_of row_2_1)) out
      \<longleftrightarrow> out = ([row_1_5], Some (cursor_of row_1_5)))
    \<and> (read_batch 0 desc_spec [False, True] [row_2_1, row_1_5] (Some (cursor_of row_1_5)) out
      \<longleftrightarrow> out = ([row_2_1], Some (cursor_of row_2_1)))"
proof
  have cells: "row_2_1 ''a'' = Some 2" "row_2_1 ''b'' = Some 1" "row_1_5 ''a'' = Some 1" "row_1_5 ''b'' = Some 5"
    by (simp_all add: row_2_1_def row_1_5_def)
  show "read_batch 0 desc_spec [False, True] [row_2_1, row_1_5] (Some (cursor_of row_2_1)) out
      \<longleftrightarrow> out = ([row_1_5], Some (cursor_of row_1_5))"
    by (rule desc_read [OF cells(1,2) refl]) (simp add: cells)
  show "read_batch 0 desc_spec [False, True] [row_2_1, row_1_5] (Some (cursor_of row_1_5)) out
      \<longleftrightarrow> out = ([row_2_1], Some (cursor_of row_2_1))"
    by (rule desc_read [OF cells(3,4) refl]) (simp add: cells)
qed

end
