(* ===== verification/Schemas.thy ===== *)
theory Schemas
  imports DataTypes
begin

text \<open>
  Source and sink schemas (\<open>crates/types/src/schema.rs\<close>): the field list, the name index
  derived from it and the kind that tells declared schemas from sampled ones.
\<close>

record 'c field =
  f_name :: string
  f_type :: "'c data_type"
  f_nullable :: bool

datatype schema_kind = Fixed | Schemaless | SchemalessWithSample

definition kind_is_schemaless :: "schema_kind \<Rightarrow> bool" where
  "kind_is_schemaless k = (k = Schemaless \<or> k = SchemalessWithSample)"

record 'c schema =
  s_fields :: "'c field list"
  s_index :: "string \<rightharpoonup> nat"
  s_kind :: schema_kind

text \<open>Collecting the pairs into a hash map: a later entry replaces an earlier one.\<close>

definition build_index :: "'c field list \<Rightarrow> string \<rightharpoonup> nat" where
  "build_index fs = foldl (\<lambda>m (i, f). m(f_name f \<mapsto> i)) Map.empty (enumerate 0 fs)"

definition schema_new :: "'c field list \<Rightarrow> 'c schema" where
  "schema_new fs = \<lparr>s_fields = fs, s_index = build_index fs, s_kind = Fixed\<rparr>"

definition schema_schemaless :: "'c schema" where
  "schema_schemaless = \<lparr>s_fields = [], s_index = Map.empty, s_kind = Schemaless\<rparr>"

definition schema_with_sample :: "'c field list \<Rightarrow> 'c schema" where
  "schema_with_sample fs = \<lparr>s_fields = fs, s_index = build_index fs, s_kind = SchemalessWithSample\<rparr>"

definition schema_find :: "'c schema \<Rightarrow> string \<Rightarrow> 'c field option" where
  "schema_find s name =
     (case s_index s name of
        None \<Rightarrow> None
      | Some i \<Rightarrow> if i < length (s_fields s) then Some (s_fields s ! i) else None)"

definition index_of :: "'c schema \<Rightarrow> string \<Rightarrow> nat option" where
  "index_of s name = s_index s name"

definition schema_is_schemaless :: "'c schema \<Rightarrow> bool" where
  "schema_is_schemaless s = kind_is_schemaless (s_kind s)"

section \<open>The index and the fields agree\<close>

lemma build_index_snoc: "build_index (fs @ [f]) = (build_index fs)(f_name f \<mapsto> length fs)"
  by (simp add: build_index_def enumerate_append_eq)

lemma build_index_last:
  "build_index fs name = Some i \<longleftrightarrow>
     i < length fs \<and> f_name (fs ! i) = name \<and> (\<forall>j. i < j \<and> j < length fs \<longrightarrow> f_name (fs ! j) \<noteq> name)"
proof (induction fs arbitrary: i rule: rev_induct)
  case Nil
  then show ?case by (simp add: build_index_def)
next
  case (snoc f fs)
  show ?case
  proof (cases "f_name f = name")
    case True
    then show ?thesis
      by (auto simp: build_index_snoc nth_append not_less_eq less_Suc_eq)
  next
    case False
    then show ?thesis
      using snoc.IH by (auto simp: build_index_snoc nth_append less_Suc_eq)
  qed
qed

lemma build_index_position:
  assumes "build_index fs name = Some i"
  shows "i < length fs" "name \<notin> f_name ` set (drop (Suc i) fs)"
proof -
  have i: "i < length fs" "\<forall>j. i < j \<and> j < length fs \<longrightarrow> f_name (fs ! j) \<noteq> name" using assms build_index_last [of fs name i] by blast+
  then show "i < length fs" by blast
  have "f_name g \<noteq> name" if g: "g \<in> set (drop (Suc i) fs)" for g
  proof -
    obtain k where "k < length fs - Suc i" "g = fs ! (Suc i + k)" using g by (auto simp: in_set_conv_nth)
    then show ?thesis using i(2) by auto
  qed
  then show "name \<notin> f_name ` set (drop (Suc i) fs)" by blast
qed

lemma build_index_find:
  "map_option ((!) fs) (build_index fs name) = find (\<lambda>f. f_name f = name) (rev fs)"
proof (induction fs rule: rev_induct)
  case (snoc f fs)
  have "map_option ((!) (fs @ [f])) (build_index fs name) = map_option ((!) fs) (build_index fs name)"
    by (rule option.map_cong) (auto simp: nth_append dest: build_index_position(1))
  with snoc show ?case by (auto simp: build_index_snoc)
qed (simp add: build_index_def)

lemma schema_find_build:
  assumes "s_index s = build_index (s_fields s)"
  shows "schema_find s name = find (\<lambda>f. f_name f = name) (rev (s_fields s))"
proof -
  have "schema_find s name = map_option ((!) (s_fields s)) (build_index (s_fields s) name)"
    using build_index_position(1) [of "s_fields s" name] assms by (simp add: schema_find_def split: option.split)
  then show ?thesis by (simp add: build_index_find)
qed


end
