(* ===== verification/Runner.thy ===== *)
theory Runner
  imports Schemas
begin

text \<open>
  The flow runner (\<open>crates/core/src/flow/runner.rs\<close>): one tick (build contexts, load the
  cursor, read, transform, write, commit the cursor), the loop around it with its backoff,
  and the schedule. The connectors behind the \<open>Source\<close>, \<open>Sink\<close> and \<open>Storage\<close> traits, the
  semaphores, the clock and the shutdown watch are a record of operations on a world \<open>'w\<close>
  that the runner is given; an operation may fail, time out or be cancelled at any point,
  with any effect on the world.
\<close>

section \<open>Errors\<close>

datatype runtime_error =
    Backend string
  | TypeErr string
  | Io string
  | Serde string
  | FlowAborted string string
  | NotRegistered string
  | Config string
  | Timeout string string
  | Cancelled string string
  | ContextMismatch string
  | SchemaColumnMissing string string
  | Conversion string
  | Identifier string
  | Validation string
  | JsonEncode string
  | DerivedPlanInvariant string
  | ComputeEval string
  | Other string

definition should_drop_ctx_on :: "runtime_error \<Rightarrow> bool" where
  "should_drop_ctx_on e =
     (case e of
        Backend _ \<Rightarrow> True
      | Timeout _ _ \<Rightarrow> True
      | Cancelled _ _ \<Rightarrow> False
      | JsonEncode _ \<Rightarrow> False
      | TypeErr _ \<Rightarrow> False
      | Conversion _ \<Rightarrow> False
      | ComputeEval _ \<Rightarrow> False
      | Serde _ \<Rightarrow> False
      | Validation _ \<Rightarrow> True
      | _ \<Rightarrow> False)"

text \<open>What \<open>tokio::select!\<close> in \<open>with_timeout\<close> may see: the operation's own result, the timer, or
  the shutdown watch.\<close>

datatype 'a op_result = Completed "runtime_error + 'a" | Elapsed | ShutdownChanged

definition with_timeout :: "string \<Rightarrow> string \<Rightarrow> 'a op_result \<Rightarrow> runtime_error + 'a" where
  "with_timeout flow op res =
     (case res of
        Completed r \<Rightarrow> r
      | Elapsed \<Rightarrow> Inl (Timeout flow op)
      | ShutdownChanged \<Rightarrow> Inl (Cancelled flow op))"

section \<open>Rows, batches, cursors\<close>

datatype row_op = Upsert | Delete

record 'v flow_row =
  r_values :: "'v list"
  r_body :: "'v option"
  r_op :: row_op

text \<open>The values a cursor may carry, as far as the runner looks at them: JSON, an object, or
  anything else.\<close>

datatype 'v cursor_value = CurJson json | CurObject 'v | CurOther 'v

type_synonym 'v cursor = "(string \<times> 'v cursor_value) list"

record 'v batch =
  b_rows :: "'v flow_row list"
  b_next :: "'v cursor option"

datatype cursor_persistence = ColumnCursor | ResumeToken

definition RESUME_TOKEN_FIELD :: string where
  "RESUME_TOKEN_FIELD = ''__resume_token''"

definition extract_resume_token :: "('v \<Rightarrow> string + json) \<Rightarrow> 'v cursor \<Rightarrow> runtime_error + json" where
  "extract_resume_token value_to_json state =
     (case state of
        [] \<Rightarrow> Inl (Other ''cdc flow produced an empty cursor state'')
      | (name, v) # _ \<Rightarrow>
          (if name \<noteq> RESUME_TOKEN_FIELD then Inl (Other ''cdc flow produced cursor with unexpected field'')
           else case v of
             CurJson j \<Rightarrow> Inr j
           | CurObject ob \<Rightarrow>
               (case value_to_json ob of
                  Inl e \<Rightarrow> Inl (Other (''cdc resume token json encode failed: '' @ e))
                | Inr j \<Rightarrow> Inr j)
           | CurOther _ \<Rightarrow> Inl (Other ''cdc resume token must be Value::Json or Value::Object'')))"

section \<open>Transform\<close>

text \<open>\<open>Transform::apply\<close> (\<open>transform/transform.rs\<close>) over the row program: one row out for every
  row in, the operation and the cursor carried over, the body consumed.\<close>

definition transform_row :: "('v flow_row \<Rightarrow> runtime_error + 'v list) \<Rightarrow> 'v flow_row \<Rightarrow> runtime_error + 'v flow_row" where
  "transform_row eval_row r =
     bind_res (eval_row r) (\<lambda>vs. Inr \<lparr>r_values = vs, r_body = None, r_op = r_op r\<rparr>)"

definition transform_apply ::
  "bool \<Rightarrow> ('v flow_row \<Rightarrow> runtime_error + 'v list) \<Rightarrow> 'v batch \<Rightarrow> runtime_error + 'v batch" where
  "transform_apply is_identity eval_row b =
     (if is_identity \<and> list_all (\<lambda>r. r_body r = None) (b_rows b) then Inr b
      else bind_res (mapM_res (transform_row eval_row) (b_rows b)) (\<lambda>rows.
             Inr \<lparr>b_rows = rows, b_next = b_next b\<rparr>))"

section \<open>The runner's state and what it is connected to\<close>

datatype run_mode = Daemon | Once

datatype tick_outcome = Continue | Idle | Exit

datatype component = SourceC | SinkC | StorageC

text \<open>The waits that race against \<open>shutdown.changed()\<close>; the answer is whether the shutdown won.\<close>

datatype wait_for = StartupJitter nat | NextGridPoint | BackoffSleep nat

text \<open>\<open>'d\<close> are the derived plans, \<open>'s\<close> and \<open>'k\<close> the source and sink contexts.\<close>

record ('v, 'c, 'd, 's, 'k, 'w) ports =
  p_acquire :: "component \<Rightarrow> 'w \<Rightarrow> (runtime_error + unit) \<times> 'w"
  p_build_source :: "'d \<Rightarrow> 'w \<Rightarrow> (runtime_error + 's) \<times> 'w"
  p_build_sink :: "'d \<Rightarrow> 'w \<Rightarrow> (runtime_error + 'k) \<times> 'w"
  p_source_schema :: "'s \<Rightarrow> 'c schema option"
  p_sink_schema :: "'k \<Rightarrow> 'c schema option"
  p_src_schemaless :: bool
  p_dst_schemaless :: bool
  p_build_derived :: "'c schema \<Rightarrow> 'c schema \<Rightarrow> string + 'd"
  p_cursor_fields :: "'d \<Rightarrow> string list"
  p_limit :: "'d \<Rightarrow> nat"
  p_is_identity :: "'d \<Rightarrow> bool"
  p_eval_row :: "'d \<Rightarrow> 'w \<Rightarrow> 'v flow_row \<Rightarrow> runtime_error + 'v list"
  p_shutdown :: "'w \<Rightarrow> bool"
  p_load_cursor :: "'c data_type list \<Rightarrow> 'w \<Rightarrow> 'v cursor option op_result \<times> 'w"
  p_save_cursor :: "'v cursor \<Rightarrow> bool \<Rightarrow> 'w \<Rightarrow> unit op_result \<times> 'w"
  p_load_token :: "'w \<Rightarrow> json option op_result \<times> 'w"
  p_save_token :: "json \<Rightarrow> bool \<Rightarrow> 'w \<Rightarrow> unit op_result \<times> 'w"
  p_read_batch :: "'d \<Rightarrow> 's \<Rightarrow> 'v cursor option \<Rightarrow> 'w \<Rightarrow> 'v batch op_result \<times> 'w"
  p_sample :: "'d \<Rightarrow> 's \<Rightarrow> nat \<Rightarrow> 'w \<Rightarrow> 'v batch op_result \<times> 'w"
  p_write_batch :: "'d \<Rightarrow> 'k \<Rightarrow> 'v batch \<Rightarrow> bool \<Rightarrow> 'w \<Rightarrow> unit op_result \<times> 'w"
  p_value_to_json :: "'v \<Rightarrow> string + json"
  p_wait :: "wait_for \<Rightarrow> 'w \<Rightarrow> bool \<times> 'w"

record flow_config =
  fl_name :: string
  fl_persistence :: cursor_persistence
  fl_mode :: run_mode

text \<open>Backoff in seconds. The watch, the metrics and the log are not part of the state.\<close>

record ('v, 'd, 's, 'k) runner =
  ru_cursor :: "'v cursor option"
  ru_backoff :: nat
  ru_source_ctx :: "'s option"
  ru_sink_ctx :: "'k option"
  ru_derived :: 'd

definition BACKOFF_INITIAL :: nat where "BACKOFF_INITIAL = 1"
definition BACKOFF_CAP :: nat where "BACKOFF_CAP = 3600"
definition BACKOFF_MULTIPLIER :: nat where "BACKOFF_MULTIPLIER = 4"

definition runner_new :: "'d \<Rightarrow> ('v, 'd, 's, 'k) runner" where
  "runner_new derived =
     \<lparr>ru_cursor = None, ru_backoff = BACKOFF_INITIAL, ru_source_ctx = None, ru_sink_ctx = None, ru_derived = derived\<rparr>"


section \<open>Sequencing\<close>

type_synonym ('s, 'a) act = "'s \<Rightarrow> (runtime_error + 'a) \<times> 's"

definition ret :: "'a \<Rightarrow> ('s, 'a) act" where
  "ret x s = (Inr x, s)"

definition fail :: "runtime_error \<Rightarrow> ('s, 'a) act" where
  "fail e s = (Inl e, s)"

text \<open>The \<open>?\<close> operator.\<close>

definition and_then :: "('s, 'a) act \<Rightarrow> ('a \<Rightarrow> ('s, 'b) act) \<Rightarrow> ('s, 'b) act" where
  "and_then m f s = (case m s of (Inl e, s') \<Rightarrow> (Inl e, s') | (Inr x, s') \<Rightarrow> f x s')"

definition lift_io :: "('w \<Rightarrow> (runtime_error + 'a) \<times> 'w) \<Rightarrow> ('r \<times> 'w, 'a) act" where
  "lift_io f s = (case f (snd s) of (x, w) \<Rightarrow> (x, (fst s, w)))"

text \<open>An adapter call under the flow's query timeout.\<close>

definition timed :: "string \<Rightarrow> string \<Rightarrow> ('w \<Rightarrow> 'a op_result \<times> 'w) \<Rightarrow> ('r \<times> 'w, 'a) act" where
  "timed flow op f = lift_io (\<lambda>w. case f w of (res, w') \<Rightarrow> (with_timeout flow op res, w'))"

section \<open>One tick\<close>

definition schema_state :: "bool \<Rightarrow> 'c schema option \<Rightarrow> 'c schema" where
  "schema_state schemaless sch =
     (case (schemaless, sch) of
        (False, Some s) \<Rightarrow> s
      | (True, Some s) \<Rightarrow> if s_fields s \<noteq> [] then schema_with_sample (s_fields s) else schema_schemaless
      | (True, None) \<Rightarrow> schema_schemaless
      | (False, None) \<Rightarrow> schema_schemaless)"

definition build_source_ctx :: "('v, 'c, 'd, 's, 'k, 'w) ports \<Rightarrow> (('v, 'd, 's, 'k) runner \<times> 'w, unit) act" where
  "build_source_ctx P s =
     (if ru_source_ctx (fst s) \<noteq> None then ret () s
      else and_then (lift_io (p_acquire P SourceC)) (\<lambda>_.
           and_then (lift_io (p_build_source P (ru_derived (fst s)))) (\<lambda>ctx (r, w).
           ret () (r\<lparr>ru_source_ctx := Some ctx\<rparr>, w))) s)"

definition build_sink_ctx :: "('v, 'c, 'd, 's, 'k, 'w) ports \<Rightarrow> (('v, 'd, 's, 'k) runner \<times> 'w, unit) act" where
  "build_sink_ctx P s =
     (if ru_sink_ctx (fst s) \<noteq> None then ret () s
      else and_then (lift_io (p_acquire P SinkC)) (\<lambda>_.
           and_then (lift_io (p_build_sink P (ru_derived (fst s)))) (\<lambda>ctx (r, w).
           ret () (r\<lparr>ru_sink_ctx := Some ctx\<rparr>, w))) s)"

definition rebuild_derived :: "('v, 'c, 'd, 's, 'k, 'w) ports \<Rightarrow> (('v, 'd, 's, 'k) runner \<times> 'w, unit) act" where
  "rebuild_derived P = (\<lambda>(r, w).
     let src = schema_state (p_src_schemaless P) (Option.bind (ru_source_ctx r) (p_source_schema P));
         dst = schema_state (p_dst_schemaless P) (Option.bind (ru_sink_ctx r) (p_sink_schema P))
     in case p_build_derived P src dst of
          Inl e \<Rightarrow> fail (Validation e) (r, w)
        | Inr d \<Rightarrow> ret () (r\<lparr>ru_derived := d\<rparr>, w))"

definition ensure_built :: "('v, 'c, 'd, 's, 'k, 'w) ports \<Rightarrow> (('v, 'd, 's, 'k) runner \<times> 'w, unit) act" where
  "ensure_built P s =
     (if ru_source_ctx (fst s) \<noteq> None \<and> ru_sink_ctx (fst s) \<noteq> None then ret () s
      else and_then (build_source_ctx P) (\<lambda>_. and_then (build_sink_ctx P) (\<lambda>_. rebuild_derived P)) s)"

fun resolve_fields :: "'c schema option \<Rightarrow> bool \<Rightarrow> string list \<Rightarrow> runtime_error + 'c data_type list" where
  "resolve_fields sch schemaless [] = Inr []"
| "resolve_fields sch schemaless (name # names) =
     (case Option.bind sch (\<lambda>s. schema_find s name) of
        Some f \<Rightarrow> bind_res (resolve_fields sch schemaless names) (\<lambda>ts. Inr (f_type f # ts))
      | None \<Rightarrow>
          (if schemaless then bind_res (resolve_fields sch schemaless names) (\<lambda>ts. Inr (TJson # ts))
           else Inl (Validation ''missing cursor field'')))"

definition resolve_cursor_types ::
  "('v, 'c, 'd, 's, 'k, 'w) ports \<Rightarrow> ('v, 'd, 's, 'k) runner \<Rightarrow> runtime_error + 'c data_type list" where
  "resolve_cursor_types P r =
     resolve_fields (Option.bind (ru_source_ctx r) (p_source_schema P)) (p_src_schemaless P)
       (p_cursor_fields P (ru_derived r))"

definition load_cursor ::
  "('v, 'c, 'd, 's, 'k, 'w) ports \<Rightarrow> flow_config \<Rightarrow> (('v, 'd, 's, 'k) runner \<times> 'w, unit) act" where
  "load_cursor P fl s =
     (if ru_cursor (fst s) \<noteq> None then ret () s
      else and_then (lift_io (p_acquire P StorageC)) (\<lambda>_.
        and_then
          (case fl_persistence fl of
             ColumnCursor \<Rightarrow>
               (case resolve_cursor_types P (fst s) of
                  Inl e \<Rightarrow> fail e
                | Inr types \<Rightarrow> timed (fl_name fl) ''load_cursor'' (p_load_cursor P types))
           | ResumeToken \<Rightarrow>
               and_then (timed (fl_name fl) ''load_resume_token'' (p_load_token P)) (\<lambda>token.
                 ret (map_option (\<lambda>j. [(RESUME_TOKEN_FIELD, CurJson j)]) token)))
          (\<lambda>c (r, w). ret () (r\<lparr>ru_cursor := c\<rparr>, w))) s)"

text \<open>\<open>.expect("ensured by ensure_built")\<close>: a panic, shown unreachable below.\<close>

definition expect_ctx :: "'x option \<Rightarrow> ('s, 'x) act" where
  "expect_ctx c = (case c of None \<Rightarrow> fail (Other ''panic: ensured by ensure_built'') | Some x \<Rightarrow> ret x)"

definition read_step ::
  "('v, 'c, 'd, 's, 'k, 'w) ports \<Rightarrow> flow_config \<Rightarrow> bool \<Rightarrow> (('v, 'd, 's, 'k) runner \<times> 'w, 'v batch) act" where
  "read_step P fl dry_run s =
     and_then (expect_ctx (ru_source_ctx (fst s))) (\<lambda>ctx.
     and_then (lift_io (p_acquire P SourceC)) (\<lambda>_.
       if dry_run
       then timed (fl_name fl) ''sample'' (p_sample P (ru_derived (fst s)) ctx (p_limit P (ru_derived (fst s))))
       else timed (fl_name fl) ''read_batch'' (p_read_batch P (ru_derived (fst s)) ctx (ru_cursor (fst s))))) s"

definition transform_step ::
  "('v, 'c, 'd, 's, 'k, 'w) ports \<Rightarrow> 'v batch \<Rightarrow> (('v, 'd, 's, 'k) runner \<times> 'w, 'v batch) act" where
  "transform_step P raw = (\<lambda>(r, w).
     (transform_apply (p_is_identity P (ru_derived r)) (p_eval_row P (ru_derived r) w) raw, (r, w)))"

definition commit_cursor ::
  "('v, 'c, 'd, 's, 'k, 'w) ports \<Rightarrow> flow_config \<Rightarrow> 'v cursor option \<Rightarrow> bool \<Rightarrow> (('v, 'd, 's, 'k) runner \<times> 'w, unit) act" where
  "commit_cursor P fl nxt dry_run =
     (case nxt of
        None \<Rightarrow> ret ()
      | Some c \<Rightarrow>
          and_then (lift_io (p_acquire P StorageC)) (\<lambda>_.
          and_then
            (case fl_persistence fl of
               ColumnCursor \<Rightarrow> timed (fl_name fl) ''save_cursor'' (p_save_cursor P c dry_run)
             | ResumeToken \<Rightarrow>
                 (case extract_resume_token (p_value_to_json P) c of
                    Inl e \<Rightarrow> fail e
                  | Inr j \<Rightarrow> timed (fl_name fl) ''save_resume_token'' (p_save_token P j dry_run)))
            (\<lambda>_ (r, w). ret () (r\<lparr>ru_cursor := Some c\<rparr>, w))))"

definition write_and_commit ::
  "('v, 'c, 'd, 's, 'k, 'w) ports \<Rightarrow> flow_config \<Rightarrow> 'v batch \<Rightarrow> bool \<Rightarrow> (('v, 'd, 's, 'k) runner \<times> 'w, unit) act" where
  "write_and_commit P fl b dry_run s =
     and_then (expect_ctx (ru_sink_ctx (fst s))) (\<lambda>ctx.
     and_then (lift_io (p_acquire P SinkC)) (\<lambda>_.
     and_then (timed (fl_name fl) ''write_batch'' (p_write_batch P (ru_derived (fst s)) ctx (b\<lparr>b_next := None\<rparr>) dry_run)) (\<lambda>_.
     commit_cursor P fl (b_next b) dry_run))) s"

definition finish_tick ::
  "('v, 'c, 'd, 's, 'k, 'w) ports \<Rightarrow> flow_config \<Rightarrow> 'v batch \<Rightarrow> bool \<Rightarrow> (('v, 'd, 's, 'k) runner \<times> 'w, tick_outcome) act" where
  "finish_tick P fl b dry_run s =
     (let batch_size = length (b_rows b)
      in if batch_size = 0 then ret (if fl_mode fl = Once then Exit else Idle) s
         else and_then (write_and_commit P fl b dry_run) (\<lambda>_.
                ret (if batch_size < p_limit P (ru_derived (fst s)) \<and> fl_mode fl = Once then Exit else Continue)) s)"

definition tick ::
  "('v, 'c, 'd, 's, 'k, 'w) ports \<Rightarrow> flow_config \<Rightarrow> bool \<Rightarrow> (('v, 'd, 's, 'k) runner \<times> 'w, tick_outcome) act" where
  "tick P fl dry_run =
     and_then (ensure_built P) (\<lambda>_ s.
       if p_shutdown P (snd s) then ret Exit s
       else and_then (load_cursor P fl) (\<lambda>_.
            and_then (read_step P fl dry_run) (\<lambda>raw.
            and_then (transform_step P raw) (\<lambda>b.
            finish_tick P fl b dry_run))) s)"

text \<open>\<open>run_sample_probe\<close>: one dry tick of a fresh runner.\<close>

definition run_sample_probe ::
  "('v, 'c, 'd, 's, 'k, 'w) ports \<Rightarrow> flow_config \<Rightarrow> 'd \<Rightarrow> 'w \<Rightarrow> (runtime_error + unit) \<times> 'w" where
  "run_sample_probe P fl derived w =
     (case tick P (fl\<lparr>fl_mode := Once\<rparr>) True (runner_new derived, w) of
        (Inl e, (_, w')) \<Rightarrow> (Inl e, w')
      | (Inr _, (_, w')) \<Rightarrow> (Inr (), w'))"

section \<open>The loop\<close>

datatype loop_ctl = Stopped "runtime_error + unit" | Looping

definition run_iteration ::
  "('v, 'c, 'd, 's, 'k, 'w) ports \<Rightarrow> flow_config \<Rightarrow> ('v, 'd, 's, 'k) runner \<times> 'w \<Rightarrow> loop_ctl \<times> ('v, 'd, 's, 'k) runner \<times> 'w" where
  "run_iteration P fl s =
     (case tick P fl False s of
        (Inr Exit, s') \<Rightarrow> (Stopped (Inr ()), s')
      | (Inr Continue, (r, w)) \<Rightarrow> (Looping, (r\<lparr>ru_backoff := BACKOFF_INITIAL\<rparr>, w))
      | (Inr Idle, (r, w)) \<Rightarrow>
          (case p_wait P NextGridPoint w of
             (shutdown, w') \<Rightarrow>
               (if shutdown then Stopped (Inr ()) else Looping, (r\<lparr>ru_backoff := BACKOFF_INITIAL\<rparr>, w')))
      | (Inl e, (r, w)) \<Rightarrow>
          (if fl_mode fl = Once then (Stopped (Inl e), (r, w))
           else
             (let r' = (if should_drop_ctx_on e then r\<lparr>ru_source_ctx := None, ru_sink_ctx := None\<rparr> else r)
              in case p_wait P (BackoffSleep (ru_backoff r')) w of
                   (shutdown, w') \<Rightarrow>
                     (if shutdown then (Stopped (Inr ()), (r', w'))
                      else (Looping, (r'\<lparr>ru_backoff := min (ru_backoff r' * BACKOFF_MULTIPLIER) BACKOFF_CAP\<rparr>, w'))))))"

text \<open>The daemon's loop need not end: \<open>fuel\<close> bounds the iterations, and \<open>None\<close> is "still running".\<close>

fun run_loop ::
  "nat \<Rightarrow> ('v, 'c, 'd, 's, 'k, 'w) ports \<Rightarrow> flow_config \<Rightarrow> ('v, 'd, 's, 'k) runner \<times> 'w \<Rightarrow>
   (runtime_error + unit) option \<times> ('v, 'd, 's, 'k) runner \<times> 'w" where
  "run_loop 0 P fl s = (None, s)"
| "run_loop (Suc fuel) P fl s =
     (case run_iteration P fl s of
        (Stopped res, s') \<Rightarrow> (Some res, s')
      | (Looping, s') \<Rightarrow> run_loop fuel P fl s')"


text \<open>\<open>FlowRunner::run\<close>: a daemon first sleeps its startup offset.\<close>

definition runner_run ::
  "nat \<Rightarrow> ('v, 'c, 'd, 's, 'k, 'w) ports \<Rightarrow> flow_config \<Rightarrow> nat \<Rightarrow> ('v, 'd, 's, 'k) runner \<times> 'w \<Rightarrow>
   (runtime_error + unit) option \<times> ('v, 'd, 's, 'k) runner \<times> 'w" where
  "runner_run fuel P fl offset s =
     (if fl_mode fl = Daemon \<and> offset \<noteq> 0
      then (case p_wait P (StartupJitter offset) (snd s) of
              (shutdown, w') \<Rightarrow> (if shutdown then (Some (Inr ()), (fst s, w')) else run_loop fuel P fl (fst s, w')))
      else run_loop fuel P fl s)"

end
