(* ===== verification/ExprValue.thy ===== *)
theory ExprValue
  imports DataTypes
begin

text \<open>
  Runtime values of \<open>crates/types\<close>: the enum \<open>Value\<close> (\<open>value.rs\<close>), the cross-numeric comparison
  (\<open>compare.rs\<close>) and \<open>Key\<close>, the hashable projection of a value that switch tables, batch
  deduplication and cursors use (\<open>key.rs\<close>).

  Integers are \<open>int\<close> and \<open>nat\<close> (a constructor says the width), addresses, UUIDs, dates
  and durations are the numbers their \<open>Ord\<close> compares. Floats, decimals, JSON documents and
  connector values come from libraries outside the repository: they are elements of a
  type parameter, and the operations the code calls on them are the fields of \<open>prim_ops\<close>.
  What the code relies on is stated in the locale \<open>prim_laws\<close>.
\<close>

section \<open>Values\<close>

datatype 'x val =
    VNull
  | VBool bool
  | VInt8 int
  | VInt16 int
  | VInt32 int
  | VInt64 int
  | VUInt8 nat
  | VUInt16 nat
  | VUInt32 nat
  | VUInt64 nat
  | VFloat32 'x
  | VFloat64 'x
  | VBigInt int
  | VDecimal 'x
  | VText string
  | VBytes "nat list"
  | VDate int
  | VTimestamp int
  | VUuid nat
  | VIpv4 nat
  | VIpv6 nat
  | VJson 'x
  | VObject "(string \<times> 'x val) list"
  | VArray "'x val list"
  | VInterval nat
  | VCustom 'x

definition is_null :: "'x val \<Rightarrow> bool" where
  "is_null v = (case v of VNull \<Rightarrow> True | _ \<Rightarrow> False)"

lemma is_null_iff [simp]: "is_null v \<longleftrightarrow> v = VNull"
  by (cases v) (simp_all add: is_null_def)

text \<open>
  \<open>f64_cmp\<close> is \<open>f64::partial_cmp\<close>, \<open>f64_bits\<close> is \<open>to_bits\<close> and \<open>f64_bigint\<close> is
  \<open>BigInt::to_f64\<close>; \<open>dec_text\<close> renders \<open>BigDecimal::normalized\<close>; the \<open>cust_\<close> fields are
  the methods of \<open>DynValue\<close> and of its \<open>dyn_type()\<close>.
\<close>

record 'x prim_ops =
  f64_cmp :: "'x \<Rightarrow> 'x \<Rightarrow> cmp_ord option"
  f64_nan :: "'x \<Rightarrow> bool"
  f64_zero :: "'x \<Rightarrow> bool"
  f64_bits :: "'x \<Rightarrow> nat"
  f64_int :: "int \<Rightarrow> 'x"
  f64_bigint :: "int \<Rightarrow> 'x option"
  f64_f32 :: "'x \<Rightarrow> 'x"
  dec_cmp :: "'x \<Rightarrow> 'x \<Rightarrow> cmp_ord"
  dec_text :: "'x \<Rightarrow> string"
  json_eq :: "'x \<Rightarrow> 'x \<Rightarrow> bool"
  cust_cmp :: "'x \<Rightarrow> 'x \<Rightarrow> cmp_ord option"
  cust_eq :: "'x \<Rightarrow> 'x \<Rightarrow> bool"
  cust_cursor :: "'x \<Rightarrow> bool"
  cust_kind :: "'x \<Rightarrow> string"
  cust_hash :: "'x \<Rightarrow> nat list"

text \<open>The range of each integer constructor, as its Rust type has it.\<close>

definition in_width :: "'x val \<Rightarrow> bool" where
  "in_width v =
     (case v of
        VInt8 n \<Rightarrow> - (2 ^ 7) \<le> n \<and> n < 2 ^ 7
      | VInt16 n \<Rightarrow> - (2 ^ 15) \<le> n \<and> n < 2 ^ 15
      | VInt32 n \<Rightarrow> - (2 ^ 31) \<le> n \<and> n < 2 ^ 31
      | VInt64 n \<Rightarrow> - (2 ^ 63) \<le> n \<and> n < 2 ^ 63
      | VUInt8 n \<Rightarrow> n < 2 ^ 8
      | VUInt16 n \<Rightarrow> n < 2 ^ 16
      | VUInt32 n \<Rightarrow> n < 2 ^ 32
      | VUInt64 n \<Rightarrow> n < 2 ^ 64
      | _ \<Rightarrow> True)"

section \<open>Comparison\<close>

text \<open>
  The promotions of \<open>compare_values\<close>. Each promoting arm of the code replaces one operand
  and starts over; a promotion depends on its own operand alone, so the model promotes both
  operands first and then compares.
\<close>

definition widen :: "'x prim_ops \<Rightarrow> 'x val \<Rightarrow> 'x val" where
  "widen P v =
     (case v of
        VInt8 n \<Rightarrow> VInt64 n
      | VInt16 n \<Rightarrow> VInt64 n
      | VInt32 n \<Rightarrow> VInt64 n
      | VUInt8 n \<Rightarrow> VInt64 (int n)
      | VUInt16 n \<Rightarrow> VInt64 (int n)
      | VUInt32 n \<Rightarrow> VInt64 (int n)
      | VFloat32 f \<Rightarrow> VFloat64 (f64_f32 P f)
      | VUInt64 n \<Rightarrow> VBigInt (int n)
      | _ \<Rightarrow> v)"

text \<open>\<open>Ipv4Addr::to_ipv6_mapped\<close>: \<open>::ffff:a.b.c.d\<close>.\<close>

definition v6_mapped :: "nat \<Rightarrow> nat" where
  "v6_mapped a = 0xffff00000000 + a"

definition cmp_some :: "'a::linorder \<Rightarrow> 'a \<Rightarrow> cmp_ord option" where
  "cmp_some a b = Some (cmp_lin a b)"

definition eq_only :: "bool \<Rightarrow> cmp_ord option" where
  "eq_only b = (if b then Some Equal else None)"

text \<open>The arms of \<open>compare_values\<close> below the promotions, on scalars.\<close>

definition compare_scalar :: "'x prim_ops \<Rightarrow> 'x val \<Rightarrow> 'x val \<Rightarrow> cmp_ord option" where
  "compare_scalar P a b =
     (case a of
        VNull \<Rightarrow> (case b of VNull \<Rightarrow> Some Equal | _ \<Rightarrow> None)
      | VInt64 m \<Rightarrow>
          (case b of
             VInt64 n \<Rightarrow> cmp_some m n
           | VBigInt n \<Rightarrow> cmp_some m n
           | VFloat64 g \<Rightarrow> f64_cmp P (f64_int P m) g
           | _ \<Rightarrow> None)
      | VFloat64 f \<Rightarrow>
          (case b of
             VFloat64 g \<Rightarrow> f64_cmp P f g
           | VInt64 n \<Rightarrow> f64_cmp P f (f64_int P n)
           | VBigInt n \<Rightarrow> (case f64_bigint P n of None \<Rightarrow> None | Some g \<Rightarrow> f64_cmp P f g)
           | _ \<Rightarrow> None)
      | VBigInt m \<Rightarrow>
          (case b of
             VBigInt n \<Rightarrow> cmp_some m n
           | VInt64 n \<Rightarrow> cmp_some m n
           | VFloat64 g \<Rightarrow> (case f64_bigint P m of None \<Rightarrow> None | Some f \<Rightarrow> f64_cmp P f g)
           | _ \<Rightarrow> None)
      | VText s \<Rightarrow> (case b of VText t \<Rightarrow> Some (cmp_string s t) | _ \<Rightarrow> None)
      | VBool p \<Rightarrow> (case b of VBool q \<Rightarrow> cmp_some p q | _ \<Rightarrow> None)
      | VDecimal d \<Rightarrow> (case b of VDecimal e \<Rightarrow> Some (dec_cmp P d e) | _ \<Rightarrow> None)
      | VDate d \<Rightarrow> (case b of VDate e \<Rightarrow> cmp_some d e | _ \<Rightarrow> None)
      | VTimestamp d \<Rightarrow> (case b of VTimestamp e \<Rightarrow> cmp_some d e | _ \<Rightarrow> None)
      | VBytes s \<Rightarrow> (case b of VBytes t \<Rightarrow> Some (cmp_list cmp_lin s t) | _ \<Rightarrow> None)
      | VUuid d \<Rightarrow> (case b of VUuid e \<Rightarrow> cmp_some d e | _ \<Rightarrow> None)
      | VIpv4 d \<Rightarrow>
          (case b of VIpv4 e \<Rightarrow> cmp_some d e | VIpv6 e \<Rightarrow> cmp_some (v6_mapped d) e | _ \<Rightarrow> None)
      | VIpv6 d \<Rightarrow>
          (case b of VIpv6 e \<Rightarrow> cmp_some d e | VIpv4 e \<Rightarrow> cmp_some d (v6_mapped e) | _ \<Rightarrow> None)
      | VJson j \<Rightarrow> (case b of VJson k \<Rightarrow> eq_only (json_eq P j k) | _ \<Rightarrow> None)
      | VInterval d \<Rightarrow> (case b of VInterval e \<Rightarrow> cmp_some d e | _ \<Rightarrow> None)
      | VCustom c \<Rightarrow>
          (case b of
             VCustom d \<Rightarrow>
               (case cust_cmp P c d of
                  Some ord \<Rightarrow> Some ord
                | None \<Rightarrow> if cust_eq P c d then Some Equal else None)
           | _ \<Rightarrow> None)
      | _ \<Rightarrow> None)"

lemma val_size_entry [termination_simp]:
  "p \<in> set es \<Longrightarrow> size (snd p) < Suc (size_list (size_prod (\<lambda>_. 0) size) es)"
  by (induction es) auto

function compare_values :: "'x prim_ops \<Rightarrow> 'x val \<Rightarrow> 'x val \<Rightarrow> cmp_ord option" where
  "compare_values P a b =
     (case a of
        VObject es \<Rightarrow>
          (case b of
             VObject fs \<Rightarrow>
               eq_only (list_all2 (\<lambda>p q. fst p = fst q \<and> compare_values P (snd p) (snd q) = Some Equal) es fs)
           | _ \<Rightarrow> None)
      | VArray xs \<Rightarrow>
          (case b of
             VArray ys \<Rightarrow> eq_only (list_all2 (\<lambda>x y. compare_values P x y = Some Equal) xs ys)
           | _ \<Rightarrow> None)
      | _ \<Rightarrow> compare_scalar P (widen P a) (widen P b))"
  by pat_completeness auto
termination
  by (relation "measure (\<lambda>(P, a, b). size a)") (auto simp: size_in_list val_size_entry)

declare compare_values.simps [simp del]

definition values_equal :: "'x prim_ops \<Rightarrow> 'x val \<Rightarrow> 'x val \<Rightarrow> bool" where
  "values_equal P a b \<longleftrightarrow> compare_values P a b = Some Equal"

lemma compare_values_simps [simp]:
  "compare_values P VNull b = (if b = VNull then Some Equal else None)"
  "compare_values P (VText s) (VText t) = Some (cmp_string s t)"
  "compare_values P (VBool p) (VBool q) = cmp_some p q"
  "compare_values P (VInt64 m) (VInt64 n) = cmp_some m n"
  by (cases b) (simp_all add: compare_values.simps [of P VNull] compare_values.simps [of P "VText s"]
    compare_values.simps [of P "VBool p"] compare_values.simps [of P "VInt64 m"]
    compare_scalar_def widen_def)

section \<open>Keys\<close>

datatype key_error = UnsupportedType string | EmptyComposite

type_synonym 'x key = "'x val list"

definition canonicalise :: "'x prim_ops \<Rightarrow> 'x val \<Rightarrow> key_error + 'x val" where
  "canonicalise P v =
     (case v of
        VNull \<Rightarrow> Inl (UnsupportedType ''Null'')
      | VJson _ \<Rightarrow> Inl (UnsupportedType ''Json'')
      | VObject _ \<Rightarrow> Inl (UnsupportedType ''Object'')
      | VArray _ \<Rightarrow> Inl (UnsupportedType ''Array'')
      | VInterval _ \<Rightarrow> Inl (UnsupportedType ''Interval'')
      | VCustom c \<Rightarrow>
          if cust_cursor P c then Inr v else Inl (UnsupportedType ''Custom (not cursor-compatible)'')
      | VInt8 n \<Rightarrow> Inr (VInt64 n)
      | VInt16 n \<Rightarrow> Inr (VInt64 n)
      | VInt32 n \<Rightarrow> Inr (VInt64 n)
      | VUInt8 n \<Rightarrow> Inr (VInt64 (int n))
      | VUInt16 n \<Rightarrow> Inr (VInt64 (int n))
      | VUInt32 n \<Rightarrow> Inr (VInt64 (int n))
      | VUInt64 n \<Rightarrow> Inr (if int n \<le> 2 ^ 63 - 1 then VInt64 (int n) else VBigInt (int n))
      | VFloat32 f \<Rightarrow> Inr (VFloat64 (f64_f32 P f))
      | _ \<Rightarrow> Inr v)"

definition key_single :: "'x prim_ops \<Rightarrow> 'x val \<Rightarrow> key_error + 'x key" where
  "key_single P v = bind_res (canonicalise P v) (\<lambda>c. Inr [c])"

definition key_composite :: "'x prim_ops \<Rightarrow> 'x val list \<Rightarrow> key_error + 'x key" where
  "key_composite P raw = (if raw = [] then Inl EmptyComposite else mapM_res (canonicalise P) raw)"

definition ok_option :: "'e + 'a \<Rightarrow> 'a option" where
  "ok_option r = (case r of Inl _ \<Rightarrow> None | Inr x \<Rightarrow> Some x)"

definition key_from_value :: "'x prim_ops \<Rightarrow> 'x val \<Rightarrow> 'x key option" where
  "key_from_value P v = ok_option (key_single P v)"

definition eq_element :: "'x prim_ops \<Rightarrow> 'x val \<Rightarrow> 'x val \<Rightarrow> bool" where
  "eq_element P a b =
     (case compare_values P a b of
        Some ord \<Rightarrow> ord = Equal
      | None \<Rightarrow>
          (case a of
             VFloat64 f \<Rightarrow> (case b of VFloat64 g \<Rightarrow> f64_nan P f \<and> f64_nan P g | _ \<Rightarrow> False)
           | _ \<Rightarrow> False))"

definition key_eq :: "'x prim_ops \<Rightarrow> 'x key \<Rightarrow> 'x key \<Rightarrow> bool" where
  "key_eq P a b \<longleftrightarrow> length a = length b \<and> list_all (\<lambda>(x, y). eq_element P x y) (zip a b)"

definition type_order :: "'x val \<Rightarrow> nat" where
  "type_order v =
     (case v of
        VBool _ \<Rightarrow> 0
      | VInt64 _ \<Rightarrow> 1
      | VBigInt _ \<Rightarrow> 1
      | VFloat64 _ \<Rightarrow> 2
      | VDecimal _ \<Rightarrow> 3
      | VText _ \<Rightarrow> 4
      | VBytes _ \<Rightarrow> 5
      | VDate _ \<Rightarrow> 6
      | VTimestamp _ \<Rightarrow> 7
      | VUuid _ \<Rightarrow> 8
      | VIpv4 _ \<Rightarrow> 9
      | VIpv6 _ \<Rightarrow> 9
      | VCustom _ \<Rightarrow> 10
      | _ \<Rightarrow> 255)"

definition cmp_element :: "'x prim_ops \<Rightarrow> 'x val \<Rightarrow> 'x val \<Rightarrow> cmp_ord" where
  "cmp_element P a b =
     (case compare_values P a b of
        Some ord \<Rightarrow> ord
      | None \<Rightarrow>
          (case (a, b) of
             (VFloat64 f, VFloat64 g) \<Rightarrow>
               (case (f64_nan P f, f64_nan P g) of
                  (True, True) \<Rightarrow> Equal
                | (True, False) \<Rightarrow> Greater
                | (False, True) \<Rightarrow> Less
                | (False, False) \<Rightarrow> Equal)
           | _ \<Rightarrow> cmp_lin (type_order a) (type_order b)))"

text \<open>\<open>Ord::cmp\<close> of keys: the elements in order, then the lengths.\<close>

fun key_cmp :: "'x prim_ops \<Rightarrow> 'x key \<Rightarrow> 'x key \<Rightarrow> cmp_ord" where
  "key_cmp P (x # xs) (y # ys) = cmp_then (cmp_element P x y) (key_cmp P xs ys)"
| "key_cmp P xs ys = cmp_lin (length xs) (length ys)"

text \<open>What \<open>Hash\<close> feeds to the hasher: one token per \<open>hash\<close> call. The elements of a key are
  canonical, so the last arm (\<open>unreachable!\<close> in the code) is never taken.\<close>

datatype hash_token = HNum int | HText string | HBytes "nat list"

definition normalise_float_bits :: "'x prim_ops \<Rightarrow> nat \<Rightarrow> 'x \<Rightarrow> nat" where
  "normalise_float_bits P nan_bits f = (if f64_nan P f then nan_bits else if f64_zero P f then 0 else f64_bits P f)"

definition hash_element :: "'x prim_ops \<Rightarrow> nat \<Rightarrow> 'x val \<Rightarrow> hash_token list" where
  "hash_element P nan v =
     (case v of
        VInt64 n \<Rightarrow> [HNum 0, HNum (int (normalise_float_bits P nan (f64_int P n)))]
      | VBigInt n \<Rightarrow>
          [HNum 0, HNum (int (case f64_bigint P n of
                                None \<Rightarrow> nan
                              | Some f \<Rightarrow> normalise_float_bits P nan f))]
      | VFloat64 f \<Rightarrow> [HNum 0, HNum (int (normalise_float_bits P nan f))]
      | VBool b \<Rightarrow> [HNum 1, HNum (if b then 1 else 0)]
      | VText s \<Rightarrow> [HNum 3, HText s]
      | VBytes s \<Rightarrow> [HNum 4, HBytes s]
      | VDate d \<Rightarrow> [HNum 5, HNum d]
      | VTimestamp d \<Rightarrow> [HNum 6, HNum d]
      | VUuid d \<Rightarrow> [HNum 7, HNum (int d)]
      | VDecimal d \<Rightarrow> [HNum 8, HText (dec_text P d)]
      | VIpv4 a \<Rightarrow> [HNum 9, HNum (int (v6_mapped a))]
      | VIpv6 a \<Rightarrow> [HNum 9, HNum (int a)]
      | VCustom c \<Rightarrow> [HNum 11, HText (cust_kind P c), HBytes (cust_hash P c)]
      | _ \<Rightarrow> [])"

definition key_hash :: "'x prim_ops \<Rightarrow> nat \<Rightarrow> 'x key \<Rightarrow> hash_token list" where
  "key_hash P nan k = HNum (int (length k)) # concat (map (hash_element P nan) k)"

definition is_switchable_const :: "'x val \<Rightarrow> bool" where
  "is_switchable_const v =
     (case v of
        VInt8 _ \<Rightarrow> True
      | VInt16 _ \<Rightarrow> True
      | VInt32 _ \<Rightarrow> True
      | VInt64 _ \<Rightarrow> True
      | VUInt8 _ \<Rightarrow> True
      | VUInt16 _ \<Rightarrow> True
      | VUInt32 _ \<Rightarrow> True
      | VUInt64 _ \<Rightarrow> True
      | VBigInt _ \<Rightarrow> True
      | VText _ \<Rightarrow> True
      | VBool _ \<Rightarrow> True
      | VUuid _ \<Rightarrow> True
      | _ \<Rightarrow> False)"

lemma eq_element_iff:
  "eq_element P a b \<longleftrightarrow> compare_values P a b = Some Equal \<or> compare_values P a b = None \<and>
     (\<exists>f g. a = VFloat64 f \<and> b = VFloat64 g \<and> f64_nan P f \<and> f64_nan P g)"
proof (cases "compare_values P a b")
  case None
  then show ?thesis
    by (cases "\<exists>f. a = VFloat64 f"; cases "\<exists>g. b = VFloat64 g") (auto simp: eq_element_def split: val.split)
qed (simp add: eq_element_def)

section \<open>Laws\<close>

text \<open>
  What the code relies on of IEEE floats, \<open>num_bigint\<close>, \<open>bigdecimal\<close> and connector values:
  comparison is antisymmetric, undefined exactly on NaN, equal floats have equal bits apart from the
  sign of zero, an \<open>i64\<close> converts to the same float directly and through \<open>BigInt\<close>, and
  equal decimals and equal connector values hash alike.
\<close>

locale prim_laws =
  fixes P :: "'x prim_ops"
  assumes f64_swap: "f64_cmp P g f = map_option cmp_rev (f64_cmp P f g)"
    and f64_None: "f64_cmp P f g = None \<longleftrightarrow> f64_nan P f \<or> f64_nan P g"
    and f64_refl: "\<not> f64_nan P f \<Longrightarrow> f64_cmp P f f = Some Equal"
    and f64_equal_bits: "f64_cmp P f g = Some Equal \<Longrightarrow>
      f64_zero P f = f64_zero P g \<and> (\<not> f64_zero P f \<longrightarrow> f64_bits P f = f64_bits P g)"
    and int_not_nan: "\<not> f64_nan P (f64_int P n)"
    and bigint_as_int: "- (2 ^ 63) \<le> n \<Longrightarrow> n < 2 ^ 63 \<Longrightarrow> f64_bigint P n = Some (f64_int P n)"
    and dec_refl: "dec_cmp P d d = Equal"
    and dec_swap: "dec_cmp P e d = cmp_rev (dec_cmp P d e)"
    and dec_equal_text: "dec_cmp P d e = Equal \<Longrightarrow> dec_text P d = dec_text P e"
    and json_refl: "json_eq P j j"
    and json_swap: "json_eq P k j = json_eq P j k"
    and cust_swap: "cust_cmp P d c = map_option cmp_rev (cust_cmp P c d)"
    and cust_eq_swap: "cust_eq P d c = cust_eq P c d"
    and cust_refl: "cust_cmp P c c = Some Equal \<or> cust_cmp P c c = None \<and> cust_eq P c c"
    and cust_equal_hash: "cust_cmp P c d = Some Equal \<or> cust_cmp P c d = None \<and> cust_eq P c d \<Longrightarrow>
      cust_kind P c = cust_kind P d \<and> cust_hash P c = cust_hash P d"
begin

lemma f64_equal_not_nan: "f64_cmp P f g = Some Equal \<Longrightarrow> \<not> f64_nan P f \<and> \<not> f64_nan P g"
  using f64_None [of f g] by auto

lemma f64_equal_normalised:
  "f64_cmp P f g = Some Equal \<Longrightarrow> normalise_float_bits P nan f = normalise_float_bits P nan g"
  using f64_equal_bits [of f g] f64_equal_not_nan [of f g] by (auto simp: normalise_float_bits_def)

lemma compare_scalar_swap: "compare_scalar P b a = map_option cmp_rev (compare_scalar P a b)"
proof -
  have l: "cmp_some y x = map_option cmp_rev (cmp_some x y)" for x y :: "'z :: linorder"
    by (simp add: cmp_some_def cmp_lin_rev [of y x])
  have s: "cmp_rev (cmp_string s t) = cmp_string t s" for s t
    by (rule cmp_atD(2) [OF cmp_string_at(2), symmetric])
  have b: "cmp_rev (cmp_list cmp_lin s t) = cmp_list cmp_lin t s" for s t :: "nat list"
    by (rule cmp_atD(2) [OF cmp_list_rev_at, symmetric]) simp
  have c: "(case cust_cmp P d c of Some ord \<Rightarrow> Some ord | None \<Rightarrow> if cust_eq P d c then Some Equal else None) =
      map_option cmp_rev (case cust_cmp P c d of Some ord \<Rightarrow> Some ord | None \<Rightarrow> if cust_eq P c d then Some Equal else None)"
    for c d
    unfolding cust_swap [of d c] cust_eq_swap [of d c] by (cases "cust_cmp P c d") simp_all
  show ?thesis
    unfolding compare_scalar_def
    by (cases a; cases b; simp only: val.case option.map c [symmetric])
      (simp_all add: l [symmetric] s b dec_swap [symmetric] f64_swap [symmetric] eq_only_def json_swap
        split: option.split)
qed

end

text \<open>Objects and arrays are the only values \<open>compare_values\<close> descends into.\<close>

definition structural :: "'x val \<Rightarrow> bool" where
  "structural v = (case v of VObject _ \<Rightarrow> True | VArray _ \<Rightarrow> True | _ \<Rightarrow> False)"

lemma compare_scalar_structural: "structural b \<Longrightarrow> compare_scalar P a b = None"
  unfolding structural_def compare_scalar_def by (cases b) (simp_all split: val.split)

lemma widen_structural: "structural a \<Longrightarrow> widen P a = a"
  by (cases a) (simp_all add: structural_def widen_def)

lemma compare_values_scalar:
  "\<not> structural a \<Longrightarrow> compare_values P a b = compare_scalar P (widen P a) (widen P b)"
  by (subst compare_values.simps) (cases a; simp add: structural_def)

lemma compare_values_structural: "structural a \<Longrightarrow> \<not> structural b \<Longrightarrow> compare_values P a b = None"
  by (subst compare_values.simps) (cases a; cases b; simp add: structural_def)

text \<open>The elements of a key.\<close>

definition canonical_elem :: "'x val \<Rightarrow> bool" where
  "canonical_elem v =
     (case v of
        VInt64 n \<Rightarrow> - (2 ^ 63) \<le> n \<and> n < 2 ^ 63
      | VBool _ \<Rightarrow> True
      | VBigInt _ \<Rightarrow> True
      | VFloat64 _ \<Rightarrow> True
      | VDecimal _ \<Rightarrow> True
      | VText _ \<Rightarrow> True
      | VBytes _ \<Rightarrow> True
      | VDate _ \<Rightarrow> True
      | VTimestamp _ \<Rightarrow> True
      | VUuid _ \<Rightarrow> True
      | VIpv4 _ \<Rightarrow> True
      | VIpv6 _ \<Rightarrow> True
      | VCustom _ \<Rightarrow> True
      | _ \<Rightarrow> False)"

lemma canonicalise_canonical: "canonicalise P v = Inr w \<Longrightarrow> in_width v \<Longrightarrow> canonical_elem w"
  by (cases v) (auto simp: canonicalise_def canonical_elem_def in_width_def split: if_splits)

lemma canonical_elem_scalar: "canonical_elem v \<Longrightarrow> \<not> structural v"
  by (cases v) (simp_all add: canonical_elem_def structural_def)

lemma canonical_elem_widen: "canonical_elem v \<Longrightarrow> widen P v = v"
  by (cases v) (simp_all add: canonical_elem_def widen_def)

context prim_laws
begin

lemma compare_values_swap:
  assumes "\<not> structural a"
  shows "compare_values P b a = map_option cmp_rev (compare_values P a b)"
proof (cases "structural b")
  case True
  then show ?thesis
    using assms by (simp add: compare_values_structural compare_values_scalar widen_structural compare_scalar_structural)
next
  case False
  then show ?thesis
    using assms compare_scalar_swap [of "widen P b" "widen P a"] by (simp add: compare_values_scalar)
qed

lemma values_equal_swap: "\<not> structural a \<Longrightarrow> values_equal P b a = values_equal P a b"
  using compare_values_swap [of a b] by (cases "compare_values P a b") (simp_all add: values_equal_def)

lemma canonicalise_not_structural: "canonicalise P v = Inr w \<Longrightarrow> \<not> structural v \<and> \<not> structural w"
  by (cases v) (auto simp: canonicalise_def structural_def split: if_splits)

text \<open>Canonicalising an operand does not change a comparison.\<close>

lemma compare_scalar_bigint: "- (2 ^ 63) \<le> n \<Longrightarrow> n < 2 ^ 63 \<Longrightarrow> compare_scalar P (VBigInt n) x = compare_scalar P (VInt64 n) x"
  by (cases x) (simp_all add: compare_scalar_def bigint_as_int)

lemma canonicalise_compare:
  assumes "canonicalise P v = Inr w"
  shows "compare_values P w x = compare_values P v x"
proof -
  have "compare_scalar P (widen P w) y = compare_scalar P (widen P v) y" for y
    using assms compare_scalar_bigint
    by (cases v) (auto simp: canonicalise_def widen_def split: if_splits)
  then show ?thesis using canonicalise_not_structural [OF assms] by (simp add: compare_values_scalar)
qed

lemma canonicalise_compare_right:
  "canonicalise P v = Inr w \<Longrightarrow> compare_values P x w = compare_values P x v"
  using canonicalise_not_structural [of v w] by (simp add: compare_values_swap [of w] compare_values_swap [of v] canonicalise_compare)

text \<open>A switchable constant equals a value exactly when their keys are equal.\<close>

lemma switchable_canonicalise:
  assumes "is_switchable_const c"
  obtains d where "canonicalise P c = Inr d" "is_switchable_const d"
  using assms by (cases c) (auto simp: is_switchable_const_def canonicalise_def)

lemma switchable_not_structural: "is_switchable_const c \<Longrightarrow> \<not> structural c"
  by (cases c) (simp_all add: is_switchable_const_def structural_def)

lemma unkeyable_not_equal: "canonicalise P v = Inl e \<Longrightarrow> is_switchable_const c \<Longrightarrow> \<not> values_equal P v c"
proof (cases "structural v")
  case True
  then show "is_switchable_const c \<Longrightarrow> ?thesis"
    by (simp add: values_equal_def compare_values_structural switchable_not_structural)
next
  case False
  then show "canonicalise P v = Inl e \<Longrightarrow> is_switchable_const c \<Longrightarrow> ?thesis"
    by (cases v; cases c)
      (auto simp: values_equal_def compare_values_scalar canonicalise_def is_switchable_const_def
        compare_scalar_def widen_def structural_def split: if_splits)
qed

lemma eq_element_switchable:
  assumes "is_switchable_const d"
  shows "eq_element P w d \<longleftrightarrow> values_equal P w d" "eq_element P d w \<longleftrightarrow> values_equal P d w"
  using assms by (cases d; cases w; auto simp: eq_element_def values_equal_def is_switchable_const_def split: option.split)+

lemma switchable_match:
  assumes "is_switchable_const c" "canonicalise P c = Inr d" "is_switchable_const d"
  shows "values_equal P v c \<longleftrightarrow> (case canonicalise P v of Inl _ \<Rightarrow> False | Inr w \<Rightarrow> eq_element P w d)"
  using assms unkeyable_not_equal [of v] canonicalise_compare [of v] canonicalise_compare_right [of c d]
  by (auto simp: eq_element_switchable values_equal_def split: sum.split)

text \<open>\<open>Eq\<close> and \<open>Hash\<close> of keys.\<close>

lemma eq_element_hash:
  assumes a: "canonical_elem a" and b: "canonical_elem b" and e: "eq_element P a b"
  shows "hash_element P nan a = hash_element P nan b"
proof -
  from e have "compare_scalar P a b = Some Equal \<or>
      (\<exists>f g. a = VFloat64 f \<and> b = VFloat64 g \<and> f64_nan P f \<and> f64_nan P g)"
    using compare_values_scalar [OF canonical_elem_scalar [OF a], of P b]
    by (auto simp: eq_element_iff canonical_elem_widen a b)
  then show ?thesis
  proof
    assume *: "compare_scalar P a b = Some Equal"
    have bytes: "cmp_list cmp_lin s t = Equal \<longleftrightarrow> s = t" for s t :: "nat list"
      using cmp_atD(1) [OF cmp_list_eq_at [of s cmp_lin]] by simp
    show ?thesis
      using a b *
      by (cases a; simp only: canonical_elem_def val.case simp_thms;
          cases b; simp only: canonical_elem_def compare_scalar_def val.case simp_thms option.simps)
        (auto simp: hash_element_def cmp_some_def bigint_as_int f64_equal_normalised dec_equal_text
          cust_equal_hash cmp_atD(1) [OF cmp_string_at(1)] bytes split: option.splits if_splits)
  qed (auto simp: hash_element_def normalise_float_bits_def)
qed

lemma eq_element_swap: "canonical_elem a \<Longrightarrow> eq_element P b a = eq_element P a b"
  using compare_values_swap [OF canonical_elem_scalar, of a b]
  by (cases "compare_values P a b") (auto simp: eq_element_iff)

lemma eq_element_refl:
  assumes "canonical_elem a"
  shows "eq_element P a a"
proof (cases "\<exists>f. a = VFloat64 f \<and> f64_nan P f")
  case True
  then show ?thesis
    using f64_None by (auto simp: eq_element_iff compare_values_scalar structural_def widen_def compare_scalar_def)
next
  case False
  have s: "cmp_string s s = Equal" for s using cmp_atD(1) [OF cmp_string_at(1)] by simp
  have b: "cmp_list cmp_lin s s = Equal" for s :: "nat list"
    using cmp_atD(1) [OF cmp_list_eq_at [of s cmp_lin]] by simp
  have c: "(case cust_cmp P c c of Some ord \<Rightarrow> Some ord | None \<Rightarrow> if cust_eq P c c then Some Equal else None) = Some Equal"
    for c using cust_refl [of c] by auto
  have "compare_scalar P a a = Some Equal"
    using assms False
    by (cases a) (simp_all add: canonical_elem_def compare_scalar_def cmp_some_def f64_refl s b c dec_refl)
  then show ?thesis
    using canonical_elem_scalar [OF assms] canonical_elem_widen [OF assms]
    by (simp add: eq_element_iff compare_values_scalar)
qed

lemma key_eq_hash_elems:
  "list_all canonical_elem ka \<Longrightarrow> list_all canonical_elem kb \<Longrightarrow> key_eq P ka kb \<Longrightarrow> key_hash P nan ka = key_hash P nan kb"
proof (induction ka arbitrary: kb)
  case Nil
  then show ?case by (simp add: key_eq_def)
next
  case (Cons a ka)
  then obtain b kb' where kb: "kb = b # kb'" by (cases kb) (auto simp: key_eq_def)
  have "key_hash P nan ka = key_hash P nan kb'" using Cons kb by (auto simp: key_eq_def)
  moreover have "hash_element P nan a = hash_element P nan b"
    using Cons.prems kb by (intro eq_element_hash) (auto simp: key_eq_def)
  ultimately show ?case using kb by (simp add: key_hash_def)
qed

end

lemma mapM_canonical:
  "mapM_res (canonicalise P) vs = Inr k \<Longrightarrow> list_all in_width vs \<Longrightarrow> list_all canonical_elem k"
  by (induction vs arbitrary: k) (auto simp: bind_res_Inr_iff canonicalise_canonical)

lemma key_composite_canonical:
  "key_composite P vs = Inr k \<Longrightarrow> list_all in_width vs \<Longrightarrow> list_all canonical_elem k"
  by (auto simp: key_composite_def mapM_canonical split: if_splits)

section \<open>Integer-valued floats\<close>

text \<open>
  An instance of the primitives: floats with integer values and NaN, where converting an
  integer rounds to 53 significant bits, ties to even, as an IEEE double does.
\<close>

datatype num_payload = PNan | PNum int

fun shift53 :: "nat \<Rightarrow> nat" where
  "shift53 a = (if a < 2 ^ 53 then 0 else Suc (shift53 (a div 2)))"

declare shift53.simps [simp del]

definition round53 :: "int \<Rightarrow> int" where
  "round53 n =
     (let a = nat \<bar>n\<bar>; k = shift53 a; q = a div 2 ^ k; r = a mod 2 ^ k;
          up = (2 * r > 2 ^ k \<or> 2 * r = 2 ^ k \<and> odd q)
      in sgn n * int ((if up then q + 1 else q) * 2 ^ k))"

definition pnum_cmp :: "num_payload \<Rightarrow> num_payload \<Rightarrow> cmp_ord option" where
  "pnum_cmp a b = (case (a, b) of (PNum m, PNum n) \<Rightarrow> cmp_some m n | _ \<Rightarrow> None)"

definition pnum_int :: "num_payload \<Rightarrow> int" where
  "pnum_int a = (case a of PNan \<Rightarrow> 0 | PNum n \<Rightarrow> n)"

definition num_ops :: "num_payload prim_ops" where
  "num_ops =
     \<lparr> f64_cmp = pnum_cmp, f64_nan = (\<lambda>a. a = PNan), f64_zero = (\<lambda>a. a = PNum 0),
       f64_bits = (\<lambda>a. nat (if pnum_int a \<ge> 0 then 2 * pnum_int a else 1 - 2 * pnum_int a)),
       f64_int = (\<lambda>n. PNum (round53 n)), f64_bigint = (\<lambda>n. Some (PNum (round53 n))), f64_f32 = (\<lambda>f. f),
       dec_cmp = (\<lambda>a b. cmp_lin (pnum_int a) (pnum_int b)),
       dec_text = (\<lambda>a. replicate (nat (pnum_int a)) (CHR ''1'') @ replicate (nat (- pnum_int a)) (CHR ''-'')),
       json_eq = (=), cust_cmp = (\<lambda>a b. None), cust_eq = (=), cust_cursor = (\<lambda>a. True),
       cust_kind = (\<lambda>a. ''num''), cust_hash = (\<lambda>a. [nat (pnum_int a)]) \<rparr>"

lemma num_ops_simps [simp]:
  "f64_cmp num_ops = pnum_cmp" "f64_nan num_ops f \<longleftrightarrow> f = PNan"
  "f64_int num_ops n = PNum (round53 n)" "f64_bigint num_ops n = Some (PNum (round53 n))" "f64_f32 num_ops f = f"
  by (simp_all add: num_ops_def)

lemma pnum_cmp_PNum [simp]: "pnum_cmp (PNum m) (PNum n) = cmp_some m n"
  by (simp add: pnum_cmp_def)

lemma round53_exact: "\<bar>n\<bar> < 2 ^ 53 \<Longrightarrow> round53 n = n"
proof -
  assume "\<bar>n\<bar> < 2 ^ 53"
  then have "shift53 (nat \<bar>n\<bar>) = 0" by (subst shift53.simps) simp
  then show ?thesis by (simp add: round53_def Let_def sgn_mult_abs)
qed

lemma round53_limit: "round53 9007199254740992 = 9007199254740992" "round53 9007199254740993 = 9007199254740992"
proof -
  have "shift53 9007199254740992 = 1" "shift53 9007199254740993 = 1"
    by (subst shift53.simps, subst shift53.simps, simp)+
  then show "round53 9007199254740992 = 9007199254740992" "round53 9007199254740993 = 9007199254740992"
    by (simp_all add: round53_def Let_def)
qed

lemmas compare_eval = eq_element_def cmp_element_def compare_values_scalar structural_def widen_def
  compare_scalar_def cmp_some_def

interpretation num_ops: prim_laws num_ops
proof
  fix f g :: num_payload
  show "f64_cmp num_ops g f = map_option cmp_rev (f64_cmp num_ops f g)"
    by (cases f; cases g) (auto simp: num_ops_def pnum_cmp_def cmp_some_def cmp_lin_def)
  show "dec_cmp num_ops g f = cmp_rev (dec_cmp num_ops f g)"
    by (auto simp: num_ops_def cmp_lin_def)
qed (auto simp: num_ops_def pnum_cmp_def cmp_some_def split: num_payload.splits)

text \<open>
  C30: two keys that compare equal feed the same tokens to the hasher, across numeric types,
  address families and NaN, so a hash table over keys finds every equal entry.
\<close>

theorem key_eq_hash:
  assumes "prim_laws P"
    and "key_composite P as = Inr ka" "list_all in_width as"
    and "key_composite P bs = Inr kb" "list_all in_width bs"
    and "key_eq P ka kb"
  shows "key_hash P nan ka = key_hash P nan kb"
  using prim_laws.key_eq_hash_elems [OF assms(1)] key_composite_canonical assms(2-6) by blast

theorem key_eq_hash_witness:
  "\<exists>ka kb. key_composite num_ops [VInt8 5, VUInt64 7] = Inr ka \<and> key_composite num_ops [VBigInt 5, VFloat64 (PNum 7)] = Inr kb
    \<and> key_hash num_ops 1 ka = key_hash num_ops 1 kb"
proof -
  have "key_hash num_ops 1 [VInt64 5, VInt64 7] = key_hash num_ops 1 [VBigInt 5, VFloat64 (PNum 7)]"
    by (rule key_eq_hash [of num_ops "[VInt8 5, VUInt64 7]" _ "[VBigInt 5, VFloat64 (PNum 7)]"])
      (simp_all add: num_ops.prim_laws_axioms key_composite_def canonicalise_def in_width_def key_eq_def compare_eval round53_exact)
  then show ?thesis by (simp add: key_composite_def canonicalise_def)
qed

text \<open>
  C31: equality of keys is not transitive, although the code declares it \<open>Eq\<close> and \<open>Ord\<close>. Take any
  two different integers that round to the same \<open>f64\<close>: as keys they differ, the order puts
  the smaller first, and yet both are equal to that float, in the equality and in the
  order, and all three have the same hash. A hash map that holds both integers may answer a
  look-up of the float with either. (With the rounding of IEEE 754 the first such pair is
  2^53 and 2^53 + 1, the witness.)
\<close>

theorem key_eq_not_transitive:
  assumes "prim_laws P" "m < n" "f64_cmp P (f64_int P m) (f64_int P n) = Some Equal"
  shows "key_eq P [VInt64 m] [VFloat64 (f64_int P m)] \<and> key_eq P [VFloat64 (f64_int P m)] [VInt64 n]
   \<and> \<not> key_eq P [VInt64 m] [VInt64 n]
   \<and> key_cmp P [VInt64 m] [VFloat64 (f64_int P m)] = Equal \<and> key_cmp P [VFloat64 (f64_int P m)] [VInt64 n] = Equal
   \<and> key_cmp P [VInt64 m] [VInt64 n] = Less
   \<and> key_hash P nan [VInt64 m] = key_hash P nan [VFloat64 (f64_int P m)]
   \<and> key_hash P nan [VFloat64 (f64_int P m)] = key_hash P nan [VInt64 n]"
proof -
  note laws = prim_laws.f64_refl [OF assms(1)] prim_laws.int_not_nan [OF assms(1)]
    prim_laws.f64_equal_normalised [OF assms(1,3), of nan]
  have "f64_cmp P (f64_int P m) (f64_int P m) = Some Equal" by (rule laws(1)) (rule laws(2))
  then show ?thesis
    using assms(2,3) laws(3)
    by (simp add: key_eq_def eq_element_def cmp_element_def compare_eval cmp_lin_def key_hash_def hash_element_def cmp_some_def cmp_then_def)
qed

theorem key_eq_not_transitive_witness:
  "key_eq num_ops [VInt64 9007199254740992] [VFloat64 (PNum 9007199254740992)]
   \<and> key_eq num_ops [VFloat64 (PNum 9007199254740992)] [VInt64 9007199254740993]
   \<and> key_cmp num_ops [VInt64 9007199254740992] [VInt64 9007199254740993] = Less"
  using key_eq_not_transitive [OF num_ops.prim_laws_axioms, of 9007199254740992 9007199254740993 0]
  by (simp add: round53_limit pnum_cmp_def cmp_some_def cmp_lin_def)

end
