(* ===== verification/ValueText.thy ===== *)
theory ValueText
  imports ExprValue
begin

text \<open>
  Two renderings of a \<open>Value\<close>: plain JSON (\<open>crates/types/src/json_encode.rs\<close>), which packs
  rows into documents, and text (\<open>convert/to_text.rs\<close>), which interpolation and casts use.

  The printing of integers and of bytes is defined here. What other crates and the
  formatting traits print (floats, decimals, dates, UUIDs, addresses, durations, JSON
  documents) and what a connector value says of itself are the fields of \<open>text_ops\<close>.
\<close>

section \<open>Decimal and hexadecimal text\<close>

definition digit_char :: "nat \<Rightarrow> char" where
  "digit_char d = char_of (48 + d)"

fun nat_dec :: "nat \<Rightarrow> string" where
  "nat_dec n = (if n < 10 then [digit_char n] else nat_dec (n div 10) @ [digit_char (n mod 10)])"

declare nat_dec.simps [simp del]

text \<open>\<open>i64::to_string\<close>, \<open>BigInt::to_string\<close> and \<open>BigInt::to_str_radix(10)\<close>.\<close>

definition int_dec :: "int \<Rightarrow> string" where
  "int_dec i = (if i < 0 then CHR ''-'' # nat_dec (nat (- i)) else nat_dec (nat i))"

definition HEX :: string where
  "HEX = ''0123456789abcdef''"

definition bytes_to_hex :: "nat list \<Rightarrow> string" where
  "bytes_to_hex bytes = concat (map (\<lambda>b. [HEX ! (b div 16), HEX ! (b mod 16)]) bytes)"

text \<open>Reading digits back, the inverse that the round trips below need.\<close>

definition dec_nat :: "string \<Rightarrow> nat" where
  "dec_nat s = foldl (\<lambda>n c. 10 * n + (of_char c - 48)) 0 s"

definition dec_int :: "string \<Rightarrow> int" where
  "dec_int s = (case s of [] \<Rightarrow> 0 | c # cs \<Rightarrow> if c = CHR ''-'' then - int (dec_nat cs) else int (dec_nat s))"

lemma digit_value [simp]: "d < 10 \<Longrightarrow> of_char (digit_char d) = 48 + d"
  by (simp add: digit_char_def)

lemma dec_nat_snoc: "dec_nat (s @ [c]) = 10 * dec_nat s + (of_char c - 48)"
  by (simp add: dec_nat_def)

lemma dec_nat_dec [simp]: "dec_nat (nat_dec n) = n"
proof (induction n rule: nat_dec.induct)
  case (1 n)
  then show ?case
    by (subst nat_dec.simps) (auto simp: dec_nat_snoc, simp add: dec_nat_def)
qed

lemma nat_dec_digits: "c \<in> set (nat_dec n) \<Longrightarrow> \<exists>d < 10. c = digit_char d"
proof (induction n rule: nat_dec.induct)
  case (1 n)
  have "\<exists>d < 10. digit_char (n mod 10) = digit_char d" by (rule exI [of _ "n mod 10"]) simp
  with 1 show ?case by (subst (asm) (2) nat_dec.simps) (auto split: if_splits)
qed

lemma nat_dec_no_sign: "CHR ''-'' \<notin> set (nat_dec n)"
proof
  assume "CHR ''-'' \<in> set (nat_dec n)"
  then obtain d where "d < 10" "CHR ''-'' = digit_char d" using nat_dec_digits by blast
  then have "of_char (CHR ''-'') = (48 + d :: nat)" by simp
  then show False by simp
qed

lemma nat_dec_nonempty [simp]: "nat_dec n \<noteq> []"
  by (subst nat_dec.simps) simp

lemma dec_int_dec [simp]: "dec_int (int_dec i) = i"
proof (cases "nat_dec (nat i)")
  case (Cons c cs)
  then have "c \<noteq> CHR ''-''" using nat_dec_no_sign [of "nat i"] by auto
  with Cons dec_nat_dec [of "nat i"] show ?thesis by (simp add: dec_int_def int_dec_def)
qed simp


section \<open>Plain JSON\<close>

text \<open>
  \<open>fin32\<close> and \<open>num32\<close> are \<open>f32::is_finite\<close> and \<open>Number::from_f64\<close> after the widening, and
  likewise for \<open>f64\<close>; \<open>show_date\<close> and \<open>show_rfc3339\<close> are the \<open>Display\<close> of a date and
  \<open>to_rfc3339\<close>, \<open>iso_date\<close> and \<open>rfc3339_millis\<close> the formats of the JSON encoder; \<open>doc\<close> is
  the document of a \<open>Value::Json\<close> and \<open>print_json\<close> the compact printer of \<open>serde_json\<close>.
\<close>

record 'x text_ops =
  fin32 :: "'x \<Rightarrow> bool"
  fin64 :: "'x \<Rightarrow> bool"
  num32 :: "'x \<Rightarrow> json option"
  num64 :: "'x \<Rightarrow> json option"
  show_f32 :: "'x \<Rightarrow> string"
  show_f64 :: "'x \<Rightarrow> string"
  show_dec :: "'x \<Rightarrow> string"
  show_date :: "int \<Rightarrow> string"
  iso_date :: "int \<Rightarrow> string"
  show_rfc3339 :: "int \<Rightarrow> string"
  rfc3339_millis :: "int \<Rightarrow> string"
  show_uuid :: "nat \<Rightarrow> string"
  show_ipv4 :: "nat \<Rightarrow> string"
  show_ipv6 :: "nat \<Rightarrow> string"
  show_interval :: "nat \<Rightarrow> string"
  doc :: "'x \<Rightarrow> json"
  print_json :: "json \<Rightarrow> string"
  cust_to_json :: "'x \<Rightarrow> string + json"
  cust_debug :: "'x \<Rightarrow> string"

datatype json_encode_error = DepthExceeded | EncodeVariant string

definition MAX_JSON_DEPTH :: nat where
  "MAX_JSON_DEPTH = 100"

definition U64_JSON_SAFE_MAX :: nat where
  "U64_JSON_SAFE_MAX = 2 ^ 53"

text \<open>\<open>serde_json::Map::insert\<close> with \<open>preserve_order\<close>: a new key goes to the end, a key that is
  there keeps its place and takes the new value.\<close>

fun json_insert :: "string \<Rightarrow> json \<Rightarrow> (string \<times> json) list \<Rightarrow> (string \<times> json) list" where
  "json_insert k v [] = [(k, v)]"
| "json_insert k v ((k', v') # kvs) = (if k' = k then (k, v) # kvs else (k', v') # json_insert k v kvs)"

definition json_map :: "(string \<times> json) list \<Rightarrow> (string \<times> json) list" where
  "json_map kvs = foldl (\<lambda>m (k, v). json_insert k v m) [] kvs"

definition float32_to_json :: "'x text_ops \<Rightarrow> 'x \<Rightarrow> json" where
  "float32_to_json X n = (if \<not> fin32 X n then JNull else case num32 X n of None \<Rightarrow> JNull | Some j \<Rightarrow> j)"

definition float64_to_json :: "'x text_ops \<Rightarrow> 'x \<Rightarrow> json" where
  "float64_to_json X n = (if \<not> fin64 X n then JNull else case num64 X n of None \<Rightarrow> JNull | Some j \<Rightarrow> j)"

lemma json_size_entry [termination_simp]:
  "p \<in> set kvs \<Longrightarrow> size (snd p) < Suc (size_list (size_prod (\<lambda>_. 0) size) kvs)" for kvs :: "(string \<times> json) list"
  by (induction kvs) auto

function encode_serde_json_at_depth :: "json \<Rightarrow> nat \<Rightarrow> json_encode_error + json" where
  "encode_serde_json_at_depth v depth =
     (if depth > MAX_JSON_DEPTH then Inl DepthExceeded
      else case v of
        JArr items \<Rightarrow>
          bind_res (mapM_res (\<lambda>item. encode_serde_json_at_depth item (depth + 1)) items) (\<lambda>out. Inr (JArr out))
      | JObj m \<Rightarrow>
          bind_res (mapM_res (\<lambda>p. bind_res (encode_serde_json_at_depth (snd p) (depth + 1)) (\<lambda>j. Inr (fst p, j))) m)
            (\<lambda>out. Inr (JObj (json_map out)))
      | other \<Rightarrow> Inr other)"
  by pat_completeness auto
termination
  by (relation "measure (\<lambda>(v, depth). size v)") (auto simp: size_in_list json_size_entry)

declare encode_serde_json_at_depth.simps [simp del]

function encode_value_at_depth :: "'x text_ops \<Rightarrow> 'x val \<Rightarrow> nat \<Rightarrow> json_encode_error + json" where
  "encode_value_at_depth X v depth =
     (if depth > MAX_JSON_DEPTH then Inl DepthExceeded
      else case v of
        VNull \<Rightarrow> Inr JNull
      | VBool b \<Rightarrow> Inr (JBool b)
      | VInt8 n \<Rightarrow> Inr (JInt n)
      | VInt16 n \<Rightarrow> Inr (JInt n)
      | VInt32 n \<Rightarrow> Inr (JInt n)
      | VInt64 n \<Rightarrow> Inr (JInt n)
      | VUInt8 n \<Rightarrow> Inr (JInt (int n))
      | VUInt16 n \<Rightarrow> Inr (JInt (int n))
      | VUInt32 n \<Rightarrow> Inr (JInt (int n))
      | VUInt64 n \<Rightarrow> Inr (if n \<ge> U64_JSON_SAFE_MAX then JStr (nat_dec n) else JInt (int n))
      | VFloat32 f \<Rightarrow> Inr (float32_to_json X f)
      | VFloat64 f \<Rightarrow> Inr (float64_to_json X f)
      | VBigInt b \<Rightarrow> Inr (JStr (int_dec b))
      | VDecimal d \<Rightarrow> Inr (JStr (show_dec X d))
      | VText s \<Rightarrow> Inr (JStr s)
      | VBytes bs \<Rightarrow> Inr (JStr (bytes_to_hex bs))
      | VDate d \<Rightarrow> Inr (JStr (iso_date X d))
      | VTimestamp t \<Rightarrow> Inr (JStr (rfc3339_millis X t))
      | VUuid u \<Rightarrow> Inr (JStr (show_uuid X u))
      | VIpv4 a \<Rightarrow> Inr (JStr (show_ipv4 X a))
      | VIpv6 a \<Rightarrow> Inr (JStr (show_ipv6 X a))
      | VJson j \<Rightarrow> encode_serde_json_at_depth (doc X j) (depth + 1)
      | VObject entries \<Rightarrow>
          bind_res (mapM_res (\<lambda>p. bind_res (encode_value_at_depth X (snd p) (depth + 1)) (\<lambda>j. Inr (fst p, j))) entries)
            (\<lambda>out. Inr (JObj (json_map out)))
      | VArray items \<Rightarrow>
          bind_res (mapM_res (\<lambda>item. encode_value_at_depth X item (depth + 1)) items) (\<lambda>out. Inr (JArr out))
      | VCustom c \<Rightarrow> (case cust_to_json X c of Inl e \<Rightarrow> Inl (EncodeVariant e) | Inr j \<Rightarrow> Inr j)
      | VInterval _ \<Rightarrow> Inl (EncodeVariant ''interval has no JSON encoding rule''))"
  by pat_completeness auto
termination
  by (relation "measure (\<lambda>(X, v, depth). size v)") (auto simp: size_in_list val_size_entry)

declare encode_value_at_depth.simps [simp del]

definition value_to_json :: "'x text_ops \<Rightarrow> 'x val \<Rightarrow> json_encode_error + json" where
  "value_to_json X v = encode_value_at_depth X v 0"

text \<open>\<open>value_to_json(v).unwrap_or(Null)\<close>, and the two containers rendered with it.\<close>

definition json_or_null :: "'x text_ops \<Rightarrow> 'x val \<Rightarrow> json" where
  "json_or_null X v = (case value_to_json X v of Inl e \<Rightarrow> JNull | Inr j \<Rightarrow> j)"

definition object_to_json :: "'x text_ops \<Rightarrow> (string \<times> 'x val) list \<Rightarrow> json" where
  "object_to_json X entries = JObj (json_map (map (\<lambda>(k, v). (k, json_or_null X v)) entries))"

definition array_to_json :: "'x text_ops \<Rightarrow> 'x val list \<Rightarrow> json" where
  "array_to_json X items = JArr (map (json_or_null X) items)"


section \<open>Text\<close>

definition custom_to_string :: "'x text_ops \<Rightarrow> 'x \<Rightarrow> string" where
  "custom_to_string X c =
     (case cust_to_json X c of
        Inr (JStr s) \<Rightarrow> s
      | Inr j \<Rightarrow> print_json X j
      | Inl _ \<Rightarrow> cust_debug X c)"

definition value_to_string :: "'x text_ops \<Rightarrow> 'x val \<Rightarrow> string" where
  "value_to_string X v =
     (case v of
        VNull \<Rightarrow> []
      | VBool b \<Rightarrow> if b then ''true'' else ''false''
      | VInt8 n \<Rightarrow> int_dec n
      | VInt16 n \<Rightarrow> int_dec n
      | VInt32 n \<Rightarrow> int_dec n
      | VInt64 n \<Rightarrow> int_dec n
      | VUInt8 n \<Rightarrow> nat_dec n
      | VUInt16 n \<Rightarrow> nat_dec n
      | VUInt32 n \<Rightarrow> nat_dec n
      | VUInt64 n \<Rightarrow> nat_dec n
      | VFloat32 f \<Rightarrow> show_f32 X f
      | VFloat64 f \<Rightarrow> show_f64 X f
      | VText s \<Rightarrow> s
      | VBigInt b \<Rightarrow> int_dec b
      | VDecimal d \<Rightarrow> show_dec X d
      | VUuid u \<Rightarrow> show_uuid X u
      | VDate d \<Rightarrow> show_date X d
      | VTimestamp t \<Rightarrow> show_rfc3339 X t
      | VBytes bs \<Rightarrow> bytes_to_hex bs
      | VIpv4 a \<Rightarrow> show_ipv4 X a
      | VIpv6 a \<Rightarrow> show_ipv6 X a
      | VJson j \<Rightarrow> print_json X (doc X j)
      | VObject entries \<Rightarrow> print_json X (object_to_json X entries)
      | VArray items \<Rightarrow> print_json X (array_to_json X items)
      | VCustom c \<Rightarrow> custom_to_string X c
      | VInterval d \<Rightarrow> show_interval X d)"

end
