(* ===== verification/ValueCodec.thy ===== *)
theory ValueCodec
  imports ValueText
begin

text \<open>
  The tagged JSON form of a \<open>Value\<close> (\<open>Serialize\<close> and \<open>Deserialize\<close> in
  \<open>crates/types/src/value.rs\<close>), which carries cursors to and from the storage, and
  \<open>DataType::decode_cursor_json\<close> (\<open>data_type.rs\<close>), the typed way back.

  Tags, envelopes, integer ranges and every error path are defined here; the JSON form that
  other crates give their own types, and the decoder of a connector descriptor, are the
  fields of \<open>codec_ops\<close>, with what the code relies on in the locale \<open>codec_laws\<close>.
\<close>

unbundle bit_operations_syntax

section \<open>Writing\<close>

record ('x, 'c) codec_ops = "'x text_ops" +
  date_json :: "int \<Rightarrow> json"
  json_date :: "json \<Rightarrow> string + int"
  timestamp_json :: "int \<Rightarrow> json"
  json_timestamp :: "json \<Rightarrow> string + int"
  uuid_json :: "nat \<Rightarrow> json"
  json_uuid :: "json \<Rightarrow> string + nat"
  interval_json :: "nat \<Rightarrow> json"
  json_interval :: "json \<Rightarrow> string + nat"
  json_f32 :: "json \<Rightarrow> string + 'x"
  json_f64 :: "json \<Rightarrow> string + 'x"
  parse_bigint :: "string \<Rightarrow> string + int"
  parse_decimal :: "string \<Rightarrow> string + 'x"
  parse_ipv4 :: "string \<Rightarrow> string + nat"
  parse_ipv6 :: "string \<Rightarrow> string + nat"
  of_doc :: "json \<Rightarrow> 'x"
  value_cursor :: "'x \<Rightarrow> bool"
  value_kind :: "'x \<Rightarrow> string"
  decode_cursor_value :: "'c \<Rightarrow> json \<Rightarrow> string + 'x"

definition emit :: "string \<Rightarrow> json \<Rightarrow> json" where
  "emit tag value = JObj [(''type'', JStr tag), (''value'', value)]"

text \<open>\<open>serialize_f32\<close> and \<open>serialize_f64\<close> of \<open>serde_json\<close>: a number that JSON cannot hold is null.\<close>

definition number_json :: "json option \<Rightarrow> json" where
  "number_json n = (case n of None \<Rightarrow> JNull | Some j \<Rightarrow> j)"

definition text_of :: "('x, 'c) codec_ops \<Rightarrow> 'x text_ops" where
  "text_of C = text_ops.truncate C"

definition value_serialize :: "('x, 'c) codec_ops \<Rightarrow> 'x val \<Rightarrow> string + json" where
  "value_serialize C v =
     (case v of
        VNull \<Rightarrow> Inr (JObj [(''type'', JStr ''null'')])
      | VBool b \<Rightarrow> Inr (emit ''bool'' (JBool b))
      | VInt8 n \<Rightarrow> Inr (emit ''int8'' (JInt n))
      | VInt16 n \<Rightarrow> Inr (emit ''int16'' (JInt n))
      | VInt32 n \<Rightarrow> Inr (emit ''int32'' (JInt n))
      | VInt64 n \<Rightarrow> Inr (emit ''int64'' (JInt n))
      | VUInt8 n \<Rightarrow> Inr (emit ''u_int8'' (JInt (int n)))
      | VUInt16 n \<Rightarrow> Inr (emit ''u_int16'' (JInt (int n)))
      | VUInt32 n \<Rightarrow> Inr (emit ''u_int32'' (JInt (int n)))
      | VUInt64 n \<Rightarrow> Inr (emit ''u_int64'' (JInt (int n)))
      | VFloat32 f \<Rightarrow> Inr (emit ''float32'' (number_json (num32 C f)))
      | VFloat64 f \<Rightarrow> Inr (emit ''float64'' (number_json (num64 C f)))
      | VBigInt b \<Rightarrow> Inr (emit ''big_int'' (JStr (int_dec b)))
      | VDecimal d \<Rightarrow> Inr (emit ''decimal'' (JStr (show_dec C d)))
      | VText s \<Rightarrow> Inr (emit ''text'' (JStr s))
      | VBytes bs \<Rightarrow> Inr (emit ''bytes'' (JArr (map (\<lambda>b. JInt (int b)) bs)))
      | VDate d \<Rightarrow> Inr (emit ''date'' (date_json C d))
      | VTimestamp t \<Rightarrow> Inr (emit ''timestamp'' (timestamp_json C t))
      | VUuid u \<Rightarrow> Inr (emit ''uuid'' (uuid_json C u))
      | VIpv4 a \<Rightarrow> Inr (emit ''ipv4'' (JStr (show_ipv4 C a)))
      | VIpv6 a \<Rightarrow> Inr (emit ''ipv6'' (JStr (show_ipv6 C a)))
      | VJson j \<Rightarrow> Inr (emit ''json'' (doc C j))
      | VObject entries \<Rightarrow> Inr (emit ''object'' (object_to_json (text_of C) entries))
      | VArray items \<Rightarrow> Inr (emit ''array'' (array_to_json (text_of C) items))
      | VInterval d \<Rightarrow> Inr (emit ''interval'' (interval_json C d))
      | VCustom c \<Rightarrow>
          (if \<not> value_cursor C c then Inl ''Value::Custom is not cursor_compatible''
           else case cust_to_json C c of
             Inl e \<Rightarrow> Inl (''Value::Custom to_json failed: '' @ e)
           | Inr payload \<Rightarrow>
               Inr (JObj [(''type'', JStr ''custom''), (''kind'', JStr (value_kind C c)), (''value'', payload)])))"

section \<open>Reading\<close>

text \<open>The loop of \<open>ValueVisitor::visit_map\<close>: the three slots it fills, in the order of the keys.\<close>

fun visit_entries ::
  "(string \<times> json) list \<Rightarrow> string option \<Rightarrow> json option \<Rightarrow> string option \<Rightarrow> string + string option \<times> json option" where
  "visit_entries [] tag raw kind = Inr (tag, raw)"
| "visit_entries ((key, j) # m) tag raw kind =
     (if key = ''type'' then
        (if tag \<noteq> None then Inl ''duplicate field type''
         else case j of JStr s \<Rightarrow> visit_entries m (Some s) raw kind | _ \<Rightarrow> Inl ''invalid type'')
      else if key = ''value'' then
        (if raw \<noteq> None then Inl ''duplicate field value'' else visit_entries m tag (Some j) kind)
      else if key = ''kind'' then
        (if kind \<noteq> None then Inl ''duplicate field kind''
         else case j of JStr s \<Rightarrow> visit_entries m tag raw (Some s) | _ \<Rightarrow> Inl ''invalid type'')
      else Inl ''unknown field'')"

text \<open>The instances of \<open>decode\<close> for the built-in types: \<open>serde_json\<close> takes an integer in range,
  a boolean, a string, or an array of bytes.\<close>

definition json_int :: "int \<Rightarrow> int \<Rightarrow> json \<Rightarrow> string + int" where
  "json_int lo hi j =
     (case j of
        JInt n \<Rightarrow> if lo \<le> n \<and> n < hi then Inr n else Inl ''invalid value''
      | _ \<Rightarrow> Inl ''invalid type'')"

definition json_signed :: "nat \<Rightarrow> (int \<Rightarrow> 'x val) \<Rightarrow> json \<Rightarrow> string + 'x val" where
  "json_signed w mk j = bind_res (json_int (- (2 ^ (w - 1))) (2 ^ (w - 1)) j) (\<lambda>n. Inr (mk n))"

definition json_unsigned :: "nat \<Rightarrow> (nat \<Rightarrow> 'x val) \<Rightarrow> json \<Rightarrow> string + 'x val" where
  "json_unsigned w mk j = bind_res (json_int 0 (2 ^ w) j) (\<lambda>n. Inr (mk (nat n)))"

definition json_bool :: "json \<Rightarrow> string + bool" where
  "json_bool j = (case j of JBool b \<Rightarrow> Inr b | _ \<Rightarrow> Inl ''invalid type'')"

definition json_string :: "json \<Rightarrow> string + string" where
  "json_string j = (case j of JStr s \<Rightarrow> Inr s | _ \<Rightarrow> Inl ''invalid type'')"

definition json_bytes :: "json \<Rightarrow> string + nat list" where
  "json_bytes j =
     (case j of
        JArr xs \<Rightarrow> bind_res (mapM_res (json_int 0 256) xs) (\<lambda>ns. Inr (map nat ns))
      | _ \<Rightarrow> Inl ''invalid type'')"

definition visit_tag :: "('x, 'c) codec_ops \<Rightarrow> string \<Rightarrow> json \<Rightarrow> string + 'x val" where
  "visit_tag C tag v =
     (if tag = ''null'' then Inr VNull
      else if tag = ''bool'' then bind_res (json_bool v) (\<lambda>b. Inr (VBool b))
      else if tag = ''int8'' then json_signed 8 VInt8 v
      else if tag = ''int16'' then json_signed 16 VInt16 v
      else if tag = ''int32'' then json_signed 32 VInt32 v
      else if tag = ''int64'' then json_signed 64 VInt64 v
      else if tag = ''u_int8'' then json_unsigned 8 VUInt8 v
      else if tag = ''u_int16'' then json_unsigned 16 VUInt16 v
      else if tag = ''u_int32'' then json_unsigned 32 VUInt32 v
      else if tag = ''u_int64'' then json_unsigned 64 VUInt64 v
      else if tag = ''float32'' then bind_res (json_f32 C v) (\<lambda>f. Inr (VFloat32 f))
      else if tag = ''float64'' then bind_res (json_f64 C v) (\<lambda>f. Inr (VFloat64 f))
      else if tag = ''big_int'' then
        bind_res (json_string v) (\<lambda>s. bind_res (parse_bigint C s) (\<lambda>b. Inr (VBigInt b)))
      else if tag = ''decimal'' then
        bind_res (json_string v) (\<lambda>s. bind_res (parse_decimal C s) (\<lambda>d. Inr (VDecimal d)))
      else if tag = ''text'' then bind_res (json_string v) (\<lambda>s. Inr (VText s))
      else if tag = ''bytes'' then bind_res (json_bytes v) (\<lambda>bs. Inr (VBytes bs))
      else if tag = ''date'' then bind_res (json_date C v) (\<lambda>d. Inr (VDate d))
      else if tag = ''timestamp'' then bind_res (json_timestamp C v) (\<lambda>t. Inr (VTimestamp t))
      else if tag = ''uuid'' then bind_res (json_uuid C v) (\<lambda>u. Inr (VUuid u))
      else if tag = ''ipv4'' then
        bind_res (json_string v) (\<lambda>s. bind_res (parse_ipv4 C s) (\<lambda>a. Inr (VIpv4 a)))
      else if tag = ''ipv6'' then
        bind_res (json_string v) (\<lambda>s. bind_res (parse_ipv6 C s) (\<lambda>a. Inr (VIpv6 a)))
      else if tag = ''json'' then Inr (VJson (of_doc C v))
      else if tag = ''interval'' then bind_res (json_interval C v) (\<lambda>d. Inr (VInterval d))
      else if tag = ''object'' then
        (case v of
           JObj m \<Rightarrow> Inr (VObject (map (\<lambda>(k, x). (k, VJson (of_doc C x))) m))
         | _ \<Rightarrow> Inl ''object value must be a JSON object'')
      else if tag = ''array'' then
        (case v of
           JArr xs \<Rightarrow> Inr (VArray (map (\<lambda>x. VJson (of_doc C x)) xs))
         | _ \<Rightarrow> Inl ''array value must be a JSON array'')
      else if tag = ''custom'' then Inl ''Value::Deserialize does not handle custom envelopes''
      else Inl ''unknown variant'')"

definition value_deserialize :: "('x, 'c) codec_ops \<Rightarrow> json \<Rightarrow> string + 'x val" where
  "value_deserialize C j =
     (case j of
        JObj m \<Rightarrow>
          bind_res (visit_entries m None None None) (\<lambda>(tag, raw).
            case tag of
              None \<Rightarrow> Inl ''missing field type''
            | Some tag \<Rightarrow> visit_tag C tag (case raw of None \<Rightarrow> JNull | Some v \<Rightarrow> v))
      | _ \<Rightarrow> Inl ''invalid type'')"

definition json_get :: "json \<Rightarrow> string \<Rightarrow> json option" where
  "json_get j k = (case j of JObj kvs \<Rightarrow> map_of kvs k | _ \<Rightarrow> None)"

definition decode_cursor_json ::
  "'c dyn_ops \<Rightarrow> ('x, 'c) codec_ops \<Rightarrow> 'c data_type \<Rightarrow> json \<Rightarrow> string + 'x val" where
  "decode_cursor_json D C expected j =
     (case expected of
        TCustom t \<Rightarrow>
          (case j of
             JObj _ \<Rightarrow>
               (case json_get j ''type'' of
                  Some (JStr tag) \<Rightarrow>
                    (if tag \<noteq> ''custom'' then Inl ''cursor envelope tag does not match expected DataType::Custom''
                     else case json_get j ''kind'' of
                       Some (JStr kind) \<Rightarrow>
                         (if kind \<noteq> dyn_kind D t then Inl ''cursor envelope kind does not match expected DynType kind''
                          else bind_res
                            (decode_cursor_value C t (case json_get j ''value'' of None \<Rightarrow> JNull | Some p \<Rightarrow> p))
                            (\<lambda>c. Inr (VCustom c)))
                     | _ \<Rightarrow> Inl ''cursor custom envelope missing string field kind'')
                | _ \<Rightarrow> Inl ''cursor envelope missing string field type'')
           | _ \<Rightarrow> Inl ''expected an object envelope'')
      | _ \<Rightarrow> value_deserialize C j)"


section \<open>What is written is what is read\<close>

text \<open>
  The documented laws of the libraries: text and JSON forms are read back as they were
  written, JSON null is not a number, and a descriptor of a cursor-compatible kind
  overrides \<open>decode_cursor_value\<close> for the JSON its values emit (\<open>dynamic.rs\<close>). The
  predicate \<open>valid\<close> says that a payload belongs to its Rust type.
\<close>

locale codec_laws =
  fixes D :: "'c dyn_ops" and C :: "('x, 'c) codec_ops" and valid :: "'x val \<Rightarrow> bool"
  assumes f32_back: "valid (VFloat32 f) \<Longrightarrow> num32 C f = Some j \<Longrightarrow> json_f32 C j = Inr f"
    and f64_back: "valid (VFloat64 f) \<Longrightarrow> num64 C f = Some j \<Longrightarrow> json_f64 C j = Inr f"
    and f32_null: "json_f32 C JNull \<noteq> Inr f"
    and f64_null: "json_f64 C JNull \<noteq> Inr f"
    and bigint_back: "parse_bigint C (int_dec b) = Inr b"
    and decimal_back: "valid (VDecimal d) \<Longrightarrow> parse_decimal C (show_dec C d) = Inr d"
    and date_back: "valid (VDate d') \<Longrightarrow> json_date C (date_json C d') = Inr d'"
    and timestamp_back: "valid (VTimestamp t) \<Longrightarrow> json_timestamp C (timestamp_json C t) = Inr t"
    and uuid_back: "valid (VUuid u) \<Longrightarrow> json_uuid C (uuid_json C u) = Inr u"
    and ipv4_back: "valid (VIpv4 a) \<Longrightarrow> parse_ipv4 C (show_ipv4 C a) = Inr a"
    and ipv6_back: "valid (VIpv6 a) \<Longrightarrow> parse_ipv6 C (show_ipv6 C a) = Inr a"
    and interval_back: "valid (VInterval i) \<Longrightarrow> json_interval C (interval_json C i) = Inr i"
    and doc_back: "valid (VJson x) \<Longrightarrow> of_doc C (doc C x) = x"
    and custom_back: "valid (VCustom c) \<Longrightarrow> value_cursor C c \<Longrightarrow> cust_to_json C c = Inr p \<Longrightarrow>
      value_kind C c = dyn_kind D k \<Longrightarrow> decode_cursor_value C k p = Inr c"

text \<open>A value that a cursor may hold: a scalar of its Rust type.\<close>

definition cursor_scalar :: "'x val \<Rightarrow> bool" where
  "cursor_scalar v =
     (case v of
        VObject _ \<Rightarrow> False
      | VArray _ \<Rightarrow> False
      | VBytes bs \<Rightarrow> list_all (\<lambda>b. b < 256) bs
      | _ \<Rightarrow> in_width v)"

definition custom_type :: "'c data_type \<Rightarrow> bool" where
  "custom_type t = (case t of TCustom _ \<Rightarrow> True | _ \<Rightarrow> False)"

text \<open>What a field of type \<open>t\<close> reads back.\<close>

definition reloadable :: "'c dyn_ops \<Rightarrow> ('x, 'c) codec_ops \<Rightarrow> 'c data_type \<Rightarrow> 'x val \<Rightarrow> bool" where
  "reloadable D C t v =
     (case v of
        VCustom c \<Rightarrow> (case t of TCustom k \<Rightarrow> value_kind C c = dyn_kind D k | _ \<Rightarrow> False)
      | VFloat32 f \<Rightarrow> \<not> custom_type t \<and> num32 C f \<noteq> None
      | VFloat64 f \<Rightarrow> \<not> custom_type t \<and> num64 C f \<noteq> None
      | _ \<Rightarrow> \<not> custom_type t)"

lemma json_bytes_back:
  "list_all (\<lambda>b. b < 256) bs \<Longrightarrow> json_bytes (JArr (map (\<lambda>b. JInt (int b)) bs)) = Inr bs"
proof -
  assume "list_all (\<lambda>b. b < 256) bs"
  then have "mapM_res (json_int 0 256) (map (\<lambda>b. JInt (int b)) bs) = Inr (map int bs)"
    by (induction bs) (simp_all add: json_int_def)
  then show ?thesis by (simp add: json_bytes_def comp_def)
qed

lemma number_json_Some [simp]: "number_json (Some j) = j"
  by (simp add: number_json_def)

lemma int_back [simp]:
  "lo \<le> n \<Longrightarrow> n < hi \<Longrightarrow> json_int lo hi (JInt n) = Inr n"
  by (simp add: json_int_def)

lemma deserialize_emit [simp]: "value_deserialize C (emit tag j) = visit_tag C tag j"
  by (simp add: value_deserialize_def emit_def)

lemma deserialize_null [simp]: "value_deserialize C (JObj [(''type'', JStr ''null'')]) = Inr VNull"
  by (simp add: value_deserialize_def visit_tag_def)

lemma deserialize_custom [simp]:
  "value_deserialize C (JObj [(''type'', JStr ''custom''), (''kind'', JStr k), (''value'', p)]) =
   Inl ''Value::Deserialize does not handle custom envelopes''"
  by (simp add: value_deserialize_def visit_tag_def)

context codec_laws
begin

lemma number_back:
  "valid (VFloat32 f) \<Longrightarrow> json_f32 C (number_json (num32 C f)) = Inr f' \<longleftrightarrow> num32 C f \<noteq> None \<and> f' = f"
  "valid (VFloat64 f) \<Longrightarrow> json_f64 C (number_json (num64 C f)) = Inr f' \<longleftrightarrow> num64 C f \<noteq> None \<and> f' = f"
  using f32_back [of f] f64_back [of f] f32_null f64_null
  by (auto simp: number_json_def split: option.splits)

lemmas backs = bigint_back decimal_back date_back timestamp_back uuid_back ipv4_back ipv6_back interval_back doc_back
  json_bytes_back

lemma canonical_back:
  assumes "valid v" "cursor_scalar v" "value_serialize C v = Inr j" "\<nexists>c. v = VCustom c"
  shows "value_deserialize C j = Inr u \<longleftrightarrow>
    u = v \<and> (case v of VFloat32 f \<Rightarrow> num32 C f \<noteq> None | VFloat64 f \<Rightarrow> num64 C f \<noteq> None | _ \<Rightarrow> True)"
  using assms
  by (cases v) (auto simp: value_serialize_def visit_tag_def cursor_scalar_def in_width_def json_bool_def json_string_def
      json_signed_def json_unsigned_def bind_res_Inr_iff number_back f32_back f64_back backs)

lemma custom_refused:
  assumes "value_serialize C v = Inr j" "\<nexists>c. v = VCustom c"
  shows "decode_cursor_json D C (TCustom k) j \<noteq> Inr u"
proof -
  obtain tag rest where "j = JObj ((''type'', JStr tag) # rest)" "tag \<noteq> ''custom''"
    using assms by (cases v) (auto simp: value_serialize_def emit_def)
  then show ?thesis by (simp add: decode_cursor_json_def json_get_def)
qed

lemma custom_value_back:
  assumes "valid (VCustom c)" "value_serialize C (VCustom c) = Inr j"
  shows "decode_cursor_json D C (TCustom k) j = Inr u \<longleftrightarrow> value_kind C c = dyn_kind D k \<and> u = VCustom c"
proof -
  obtain p where "value_cursor C c" "cust_to_json C c = Inr p"
      "j = JObj [(''type'', JStr ''custom''), (''kind'', JStr (value_kind C c)), (''value'', p)]"
    using assms(2) by (auto simp: value_serialize_def split: if_splits sum.splits)
  then show ?thesis
    using custom_back [OF assms(1), of p k] by (auto simp: decode_cursor_json_def json_get_def)
qed

lemma decode_canonical: "\<not> custom_type t \<Longrightarrow> decode_cursor_json D C t j = value_deserialize C j"
  by (simp add: custom_type_def decode_cursor_json_def split: data_type.splits)

lemma reload_exact:
  assumes "valid v" "cursor_scalar v" "value_serialize C v = Inr j"
  shows "decode_cursor_json D C t j = Inr u \<longleftrightarrow> reloadable D C t v \<and> u = v"
proof (cases "custom_type t")
  case True
  then obtain k where k: "t = TCustom k" by (auto simp: custom_type_def split: data_type.splits)
  show ?thesis
  proof (cases "\<exists>c. v = VCustom c")
    case True
    with custom_value_back assms k show ?thesis by (auto simp: reloadable_def)
  next
    case False
    have "\<not> reloadable D C t v" using False True by (cases v) (simp_all add: reloadable_def)
    with custom_refused [OF assms(3) False] k show ?thesis by simp
  qed
next
  case False
  show ?thesis
  proof (cases "\<exists>c. v = VCustom c")
    case True
    then have "\<exists>e. value_deserialize C j = Inl e"
      using assms(3) by (auto simp: value_serialize_def split: if_splits sum.splits)
    with True False show ?thesis
      by (auto simp: decode_canonical reloadable_def custom_type_def split: data_type.splits)
  next
    case no: False
    with canonical_back [OF assms no] False show ?thesis
      by (cases v) (auto simp: decode_canonical reloadable_def)
  qed
qed

end

text \<open>
  C27: the tagged form of a cursor value is exact. Writing a scalar fails only for a connector
  value that is not cursor-compatible or has no JSON; and reading the written form under the
  type of a field gives back the value that was written, variant and all, or is refused,
  for every type of field. It is refused in exactly these cases: a canonical value (a null
  is one) under a connector type, a connector value under any type but its own kind, and a
  float that JSON cannot hold (\<open>NaN\<close>, infinities). Hypotheses: the libraries read back
  what they print (\<open>codec_laws\<close>) and the payload belongs to its Rust type; objects and
  arrays, which no cursor holds, are left out.
\<close>

theorem cursor_value_exact:
  assumes "codec_laws D C valid" "valid v" "cursor_scalar v"
  shows "(\<forall>j t u. value_serialize C v = Inr j \<longrightarrow>
      decode_cursor_json D C t j = Inr u \<longleftrightarrow> reloadable D C t v \<and> u = v)
    \<and> ((\<exists>j. value_serialize C v = Inr j) \<longleftrightarrow>
      (\<forall>c. v = VCustom c \<longrightarrow> value_cursor C c \<and> (\<exists>p. cust_to_json C c = Inr p)))"
proof
  show "\<forall>j t u. value_serialize C v = Inr j \<longrightarrow> decode_cursor_json D C t j = Inr u \<longleftrightarrow> reloadable D C t v \<and> u = v"
    using codec_laws.reload_exact [OF assms] by blast
  show "(\<exists>j. value_serialize C v = Inr j) \<longleftrightarrow>
      (\<forall>c. v = VCustom c \<longrightarrow> value_cursor C c \<and> (\<exists>p. cust_to_json C c = Inr p))"
    by (cases v) (auto simp: value_serialize_def split: sum.splits)
qed


section \<open>A codec over JSON payloads\<close>

text \<open>
  An instance of the laws: payloads are JSON terms, a float its 64 bits, a decimal its text,
  dates, timestamps, UUIDs and addresses the decimal text of their number, and one
  connector type, \<open>postgresql.inet\<close>.
\<close>

definition finite_bits :: "json \<Rightarrow> json option" where
  "finite_bits x =
     (case x of
        JFloat w \<Rightarrow> if drop_bit 52 w AND 2047 = 2047 then None else Some (JFloat w)
      | _ \<Rightarrow> None)"

definition json_float :: "json \<Rightarrow> string + json" where
  "json_float j = (case j of JFloat w \<Rightarrow> Inr (JFloat w) | _ \<Rightarrow> Inl ''invalid type'')"

definition json_text :: "json \<Rightarrow> string" where
  "json_text j = (case j of JStr s \<Rightarrow> s | _ \<Rightarrow> [])"

definition inet_ops :: "unit dyn_ops" where
  "inet_ops = \<lparr>dyn_kind = (\<lambda>_. ''postgresql.inet''), dyn_cursor_compatible = (\<lambda>_. True), dyn_is_object = (\<lambda>_. False),
     dyn_can_convert_to = (\<lambda>_ _ _. False), dyn_can_construct_from = (\<lambda>_ _ _. False), dyn_is_equal = (\<lambda>_ _. True)\<rparr>"

definition json_codec :: "(json, unit) codec_ops" where
  "json_codec =
     \<lparr>fin32 = (\<lambda>x. finite_bits x \<noteq> None), fin64 = (\<lambda>x. finite_bits x \<noteq> None), num32 = finite_bits, num64 = finite_bits,
      show_f32 = (\<lambda>_. ''?''), show_f64 = (\<lambda>_. ''?''), show_dec = json_text,
      show_date = int_dec, iso_date = int_dec, show_rfc3339 = int_dec, rfc3339_millis = int_dec,
      show_uuid = nat_dec, show_ipv4 = nat_dec, show_ipv6 = nat_dec, show_interval = nat_dec,
      doc = (\<lambda>x. x), print_json = (\<lambda>_. ''?''), cust_to_json = Inr, cust_debug = json_text,
      date_json = (\<lambda>d. JStr (int_dec d)), json_date = (\<lambda>j. bind_res (json_string j) (\<lambda>s. Inr (dec_int s))),
      timestamp_json = (\<lambda>t. JStr (int_dec t)), json_timestamp = (\<lambda>j. bind_res (json_string j) (\<lambda>s. Inr (dec_int s))),
      uuid_json = (\<lambda>u. JStr (nat_dec u)), json_uuid = (\<lambda>j. bind_res (json_string j) (\<lambda>s. Inr (dec_nat s))),
      interval_json = (\<lambda>d. JStr (nat_dec d)), json_interval = (\<lambda>j. bind_res (json_string j) (\<lambda>s. Inr (dec_nat s))),
      json_f32 = json_float, json_f64 = json_float,
      parse_bigint = (\<lambda>s. Inr (dec_int s)), parse_decimal = (\<lambda>s. Inr (JStr s)),
      parse_ipv4 = (\<lambda>s. Inr (dec_nat s)), parse_ipv6 = (\<lambda>s. Inr (dec_nat s)),
      of_doc = (\<lambda>j. j), value_cursor = (\<lambda>_. True), value_kind = (\<lambda>_. ''postgresql.inet''),
      decode_cursor_value = (\<lambda>_ p. Inr p)\<rparr>"

definition json_valid :: "json val \<Rightarrow> bool" where
  "json_valid v = (case v of VDecimal d \<Rightarrow> (case d of JStr _ \<Rightarrow> True | _ \<Rightarrow> False) | _ \<Rightarrow> True)"

interpretation jc: codec_laws inet_ops json_codec json_valid
  by unfold_locales
    (auto simp: json_codec_def json_valid_def finite_bits_def json_float_def json_text_def json_string_def
      split: json.splits if_splits)

theorem cursor_value_exact_witness:
  "(\<forall>t u. decode_cursor_json inet_ops json_codec t (emit ''u_int64'' (JInt 18446744073709551615)) = Inr u \<longleftrightarrow>
      reloadable inet_ops json_codec t (VUInt64 18446744073709551615) \<and> u = VUInt64 18446744073709551615)
   \<and> reloadable inet_ops json_codec TUInt64 (VUInt64 18446744073709551615)
   \<and> \<not> reloadable inet_ops json_codec (TCustom ()) VNull
   \<and> \<not> reloadable inet_ops json_codec TFloat64 (VFloat64 (JFloat 0x7ff0000000000000))
   \<and> reloadable inet_ops json_codec TFloat64 (VFloat64 (JFloat 0x3ff0000000000000))"
proof -
  have "value_serialize json_codec (VUInt64 18446744073709551615) = Inr (emit ''u_int64'' (JInt 18446744073709551615))"
    by (simp add: value_serialize_def)
  with cursor_value_exact [of inet_ops json_codec json_valid "VUInt64 18446744073709551615"] jc.codec_laws_axioms
  show ?thesis
    by (auto simp: json_valid_def cursor_scalar_def in_width_def reloadable_def custom_type_def json_codec_def finite_bits_def)
qed

end
