(* ===== verification/PgStorage.thy ===== *)
theory PgStorage
  imports Runner ValueCodec
begin

text \<open>
  The persisted cursor: its JSON envelope (\<open>crates/core/src/model/cursor.rs\<close>) and the
  PostgreSQL storage (\<open>crates/storages/postgres/src/pg_storage.rs\<close>), whose two tables are
  maps from flow names, as \<open>INSERT ... ON CONFLICT (flow) DO UPDATE\<close> and
  \<open>SELECT ... WHERE flow = $1\<close> make them. The codec of a single value is an argument; the
  theory of the value codec has the code's own.
\<close>

section \<open>The envelope\<close>

text \<open>\<open>#[derive(Serialize)]\<close> on \<open>CursorState\<close> and \<open>CursorFieldValue\<close>; the error is that of the first
  field that does not serialise.\<close>

definition field_to_json :: "('v cursor_value \<Rightarrow> string + json) \<Rightarrow> string \<times> 'v cursor_value \<Rightarrow> string + json" where
  "field_to_json enc f = bind_res (enc (snd f)) (\<lambda>j. Inr (JObj [(''name'', JStr (fst f)), (''value'', j)]))"

definition cursor_to_json :: "('v cursor_value \<Rightarrow> string + json) \<Rightarrow> 'v cursor \<Rightarrow> string + json" where
  "cursor_to_json enc c = bind_res (mapM_res (field_to_json enc) c) (\<lambda>fs. Inr (JObj [(''fields'', JArr fs)]))"

definition decode_field ::
  "('c data_type \<Rightarrow> json \<Rightarrow> string + 'v cursor_value) \<Rightarrow> json \<times> 'c data_type \<Rightarrow> runtime_error + string \<times> 'v cursor_value" where
  "decode_field dec entry =
     (case entry of (raw, expected) \<Rightarrow>
        (case raw of
           JObj _ \<Rightarrow>
             (case json_get raw ''name'' of
                Some (JStr name) \<Rightarrow>
                  (case json_get raw ''value'' of
                     None \<Rightarrow> Inl (Other ''CursorState field missing value'')
                   | Some vj \<Rightarrow>
                       (case dec expected vj of
                          Inl e \<Rightarrow> Inl (Other e)
                        | Inr v \<Rightarrow> Inr (name, v)))
              | _ \<Rightarrow> Inl (Other ''CursorState field missing string name''))
         | _ \<Rightarrow> Inl (Other ''CursorState field entry must be an object'')))"

definition from_typed_json ::
  "('c data_type \<Rightarrow> json \<Rightarrow> string + 'v cursor_value) \<Rightarrow> json \<Rightarrow> 'c data_type list \<Rightarrow> runtime_error + 'v cursor" where
  "from_typed_json dec j types =
     (case j of
        JObj _ \<Rightarrow>
          (case json_get j ''fields'' of
             Some (JArr raw) \<Rightarrow>
               (if length raw \<noteq> length types
                then Inl (Other ''CursorState JSON has a different number of fields'')
                else mapM_res (decode_field dec) (zip raw types))
           | _ \<Rightarrow> Inl (Other ''CursorState JSON missing array field fields''))
      | _ \<Rightarrow> Inl (Other ''expected CursorState object envelope''))"

lemma cursor_to_json_length:
  "cursor_to_json enc c = Inr j \<Longrightarrow> \<exists>fs. j = JObj [(''fields'', JArr fs)] \<and> length fs = length c"
  by (auto simp: cursor_to_json_def bind_res_Inr_iff mapM_res_length)

lemma from_typed_json_own:
  assumes "list_all2 (\<lambda>f t. \<exists>j. enc (snd f) = Inr j \<and> dec t j = Inr (snd f)) c types"
  shows "\<exists>j. cursor_to_json enc c = Inr j \<and> from_typed_json dec j types = Inr c"
proof -
  have "\<exists>fs. mapM_res (field_to_json enc) c = Inr fs \<and> length fs = length types
      \<and> mapM_res (decode_field dec) (zip fs types) = Inr c"
    using assms
  proof (induction rule: list_all2_induct)
    case (Cons f fs t ts)
    then show ?case by (cases f) (auto simp: field_to_json_def decode_field_def json_get_def)
  qed simp
  then show ?thesis
    by (auto simp: from_typed_json_def cursor_to_json_def json_get_def)
qed

text \<open>
  C26: a cursor whose values all serialise, each to something its field's type decodes to
  that value, serialises, and is read back as it was written; it is refused when the number
  of cursor fields has changed in the meantime, so that it is never silently cut or padded.
\<close>

theorem cursor_envelope_roundtrip:
  assumes "list_all2 (\<lambda>f t. \<exists>j. enc (snd f) = Inr j \<and> dec t j = Inr (snd f)) c types"
  shows "\<exists>j. cursor_to_json enc c = Inr j \<and> from_typed_json dec j types = Inr c
    \<and> (\<forall>types'. length types' \<noteq> length c \<longrightarrow> (\<exists>e. from_typed_json dec j types' = Inl (Other e)))"
proof -
  obtain j where j: "cursor_to_json enc c = Inr j" "from_typed_json dec j types = Inr c"
    using from_typed_json_own [OF assms] by blast
  moreover obtain fs where "j = JObj [(''fields'', JArr fs)]" "length fs = length c"
    using cursor_to_json_length [OF j(1)] by blast
  ultimately show ?thesis by (auto simp: from_typed_json_def json_get_def)
qed

section \<open>The tables\<close>

record pg_tables =
  cursors :: "string \<rightharpoonup> json"
  resume_tokens :: "string \<rightharpoonup> json"

definition pg_load_cursor ::
  "('c data_type \<Rightarrow> json \<Rightarrow> string + 'v cursor_value) \<Rightarrow> string \<Rightarrow> 'c data_type list \<Rightarrow> pg_tables \<Rightarrow> runtime_error + 'v cursor option" where
  "pg_load_cursor dec flow types db =
     (case cursors db flow of
        None \<Rightarrow> Inr None
      | Some j \<Rightarrow> bind_res (from_typed_json dec j types) (\<lambda>c. Inr (Some c)))"

text \<open>\<open>save_cursor\<close> serialises first: a cursor that does not serialise is an error in a dry run
  too.\<close>

definition pg_save_cursor ::
  "('v cursor_value \<Rightarrow> string + json) \<Rightarrow> string \<Rightarrow> 'v cursor \<Rightarrow> bool \<Rightarrow> pg_tables \<Rightarrow> (runtime_error + unit) \<times> pg_tables" where
  "pg_save_cursor enc flow c dry_run db =
     (case cursor_to_json enc c of
        Inl e \<Rightarrow> (Inl (Serde e), db)
      | Inr j \<Rightarrow> (Inr (), if dry_run then db else db\<lparr>cursors := (cursors db)(flow \<mapsto> j)\<rparr>))"

definition pg_load_resume_token :: "string \<Rightarrow> pg_tables \<Rightarrow> json option" where
  "pg_load_resume_token flow db = resume_tokens db flow"

definition pg_save_resume_token :: "string \<Rightarrow> json \<Rightarrow> bool \<Rightarrow> pg_tables \<Rightarrow> pg_tables" where
  "pg_save_resume_token flow j dry_run db =
     (if dry_run then db else db\<lparr>resume_tokens := (resume_tokens db)(flow \<mapsto> j)\<rparr>)"

section \<open>Cells of type \<open>int64\<close>\<close>

text \<open>The code's value codec on the cursors of a flow over \<open>int64\<close> columns: such a cell is a
  \<open>Value::Int64\<close> or a \<open>Value::Null\<close>.\<close>

definition cell_value :: "int option cursor_value \<Rightarrow> json val" where
  "cell_value v =
     (case v of
        CurJson j \<Rightarrow> VJson j
      | CurObject x \<Rightarrow> (case x of None \<Rightarrow> VNull | Some n \<Rightarrow> VInt64 n)
      | CurOther x \<Rightarrow> (case x of None \<Rightarrow> VNull | Some n \<Rightarrow> VInt64 n))"

definition int64_enc :: "int option cursor_value \<Rightarrow> string + json" where
  "int64_enc v = value_serialize json_codec (cell_value v)"

definition int64_dec :: "unit data_type \<Rightarrow> json \<Rightarrow> string + int option cursor_value" where
  "int64_dec t j =
     bind_res (decode_cursor_json inet_ops json_codec t j) (\<lambda>v.
       case v of
         VNull \<Rightarrow> Inr (CurOther None)
       | VInt64 n \<Rightarrow> Inr (CurOther (Some n))
       | VJson d \<Rightarrow> Inr (CurJson d)
       | _ \<Rightarrow> Inl ''not an int64 cell'')"

definition int64_cell :: "int option \<Rightarrow> bool" where
  "int64_cell x = (case x of None \<Rightarrow> True | Some n \<Rightarrow> - (2 ^ 63) \<le> n \<and> n < 2 ^ 63)"

lemma int64_codec:
  assumes "int64_cell x" "\<not> custom_type t"
  shows "\<exists>j. int64_enc (CurOther x) = Inr j \<and> int64_dec t j = Inr (CurOther x)"
proof -
  let ?v = "cell_value (CurOther x)"
  obtain j where j: "value_serialize json_codec ?v = Inr j"
    by (cases x) (auto simp: cell_value_def value_serialize_def)
  have "cursor_scalar ?v" "json_valid ?v" "reloadable inet_ops json_codec t ?v"
    using assms by (cases x; simp add: cell_value_def cursor_scalar_def in_width_def int64_cell_def json_valid_def reloadable_def)+
  then have "decode_cursor_json inet_ops json_codec t j = Inr ?v" using jc.reload_exact j by blast
  with j show ?thesis by (cases x) (simp_all add: int64_enc_def int64_dec_def cell_value_def)
qed

lemma int64_dec_canonical:
  assumes "int64_dec t j = Inr x"
  shows "int64_dec TInt64 j = Inr x"
proof (cases "custom_type t")
  case True
  then obtain k where "t = TCustom k" by (auto simp: custom_type_def split: data_type.splits)
  then show ?thesis using assms
    by (auto simp: int64_dec_def decode_cursor_json_def bind_res_Inr_iff split: json.splits option.splits if_splits)
next
  case False
  then show ?thesis using assms by (simp add: int64_dec_def jc.decode_canonical custom_type_def)
qed

theorem cursor_envelope_roundtrip_witness:
  "\<exists>j. cursor_to_json int64_enc [(''id'', CurOther (Some 42))] = Inr j
     \<and> from_typed_json int64_dec j [TInt64] = Inr [(''id'', CurOther (Some 42))]
     \<and> (\<exists>e. from_typed_json int64_dec j [] = Inl (Other e))"
proof -
  have "list_all2 (\<lambda>f t. \<exists>j. int64_enc (snd f) = Inr j \<and> int64_dec t j = Inr (snd f))
      [(''id'', CurOther (Some 42))] [TInt64]"
    using int64_codec [of "Some 42" TInt64] by (simp add: int64_cell_def custom_type_def)
  from cursor_envelope_roundtrip [OF this] show ?thesis by force
qed

end
