(* ===== verification/Delivery.thy ===== *)
theory Delivery
  imports Runner
begin

text \<open>
  What the runner guarantees about delivery. The contract of a source, a sink and a storage
  is the locale \<open>delivery\<close>: a read hands on a cursor that covers no more than the old one and
  the rows of the batch, an acknowledged write is in the sink, an acknowledged save is in
  the storage, and an operation that fails or is cut off may or may not have taken effect.
  Under it, no row at or before the persisted cursor is ever missing from the sink, whatever
  fails and however often the process is restarted.
\<close>

section \<open>Reasoning about actions\<close>

text \<open>\<open>triple I Pre m Post\<close>: from a state in \<open>Pre\<close>, \<open>m\<close> ends in \<open>Post\<close> with its result, or in \<open>I\<close> with
  an error.\<close>

definition triple :: "('s \<Rightarrow> bool) \<Rightarrow> ('s \<Rightarrow> bool) \<Rightarrow> ('s, 'a) act \<Rightarrow> ('a \<Rightarrow> 's \<Rightarrow> bool) \<Rightarrow> bool" where
  "triple I Pre m Post \<longleftrightarrow>
     (\<forall>s. Pre s \<longrightarrow> (case m s of (Inl e, s') \<Rightarrow> I s' | (Inr x, s') \<Rightarrow> Post x s'))"

lemma triple_and_then:
  "triple I Pre m Mid \<Longrightarrow> (\<And>x. triple I (Mid x) (f x) Post) \<Longrightarrow> triple I Pre (and_then m f) Post"
  unfolding triple_def and_then_def by (fastforce split: prod.splits sum.splits)

lemma triple_ret: "(\<And>s. Pre s \<Longrightarrow> Post x s) \<Longrightarrow> triple I Pre (ret x) Post"
  by (simp add: triple_def ret_def)

lemma triple_fail: "(\<And>s. Pre s \<Longrightarrow> I s) \<Longrightarrow> triple I Pre (fail e) Post"
  by (simp add: triple_def fail_def)

lemma triple_weaken:
  "triple I Pre' m Post' \<Longrightarrow> (\<And>s. Pre s \<Longrightarrow> Pre' s) \<Longrightarrow> (\<And>x s. Post' x s \<Longrightarrow> Post x s) \<Longrightarrow> triple I Pre m Post"
  unfolding triple_def by (fastforce split: prod.splits sum.splits)

lemma tripleI:
  "(\<And>s. Pre s \<Longrightarrow> (case m s of (Inl e, s') \<Rightarrow> I s' | (Inr x, s') \<Rightarrow> Post x s')) \<Longrightarrow> triple I Pre m Post"
  by (simp add: triple_def)

lemma triple_app:
  "triple I Pre m Post \<Longrightarrow> Pre s \<Longrightarrow> (case m s of (Inl e, s') \<Rightarrow> I s' | (Inr x, s') \<Rightarrow> Post x s')"
  by (simp add: triple_def)

text \<open>An action that is \<open>ret x\<close> in some states and another action in the rest.\<close>

lemma triple_if:
  assumes "\<And>s. f s = (if c s then ret x s else g s s)" "\<And>s0. triple I Pre (g s0) Post" "\<And>s. Pre s \<Longrightarrow> Post x s"
  shows "triple I Pre f Post"
proof (rule tripleI)
  fix s assume "Pre s"
  with assms(3) triple_app [OF assms(2) [of s]] show "case f s of (Inl e, s') \<Rightarrow> I s' | (Inr x, s') \<Rightarrow> Post x s'"
    by (cases "c s") (simp_all add: assms(1) [of s] ret_def)
qed

lemma tripleD:
  assumes "triple I Pre m Post" "Pre s"
  shows "m s = (Inl e, s') \<Longrightarrow> I s'" "m s = (Inr x, s') \<Longrightarrow> Post x s'"
  using triple_app [OF assms] by simp_all

lemma triple_lift_io:
  "(\<And>r w x w'. Pre (r, w) \<Longrightarrow> f w = (x, w') \<Longrightarrow> (case x of Inl e \<Rightarrow> I (r, w') | Inr y \<Rightarrow> Post y (r, w'))) \<Longrightarrow>
   triple I Pre (lift_io f) Post"
  unfolding triple_def lift_io_def by (fastforce split: prod.splits sum.splits)

lemma triple_timed:
  assumes "\<And>r w res w'. Pre (r, w) \<Longrightarrow> f w = (res, w') \<Longrightarrow> I (r, w') \<and> (\<forall>y. res = Completed (Inr y) \<longrightarrow> Post y (r, w'))"
  shows "triple I Pre (timed flow op f) Post"
  unfolding timed_def
  by (rule triple_lift_io)
    (use assms in \<open>fastforce simp: with_timeout_def split: prod.splits sum.splits op_result.splits\<close>)

section \<open>The contract\<close>

text \<open>The rows a transform may make of a source row.\<close>

definition img :: "('v, 'c, 'd, 's, 'k, 'w) ports \<Rightarrow> 'v flow_row \<Rightarrow> 'v flow_row \<Rightarrow> bool" where
  "img P x y \<longleftrightarrow> y = x \<or> (\<exists>d w vs. p_eval_row P d w x = Inr vs \<and> y = \<lparr>r_values = vs, r_body = None, r_op = r_op x\<rparr>)"

definition delivered :: "('v, 'c, 'd, 's, 'k, 'w) ports \<Rightarrow> ('w \<Rightarrow> 'v flow_row set) \<Rightarrow> 'w \<Rightarrow> 'v flow_row set" where
  "delivered P sunk w = {x. \<exists>y \<in> sunk w. img P x y}"

text \<open>\<open>sunk\<close> is what the sink holds, \<open>stored\<close> the persisted cursor, \<open>covers\<close> the rows at or before
  a cursor, \<open>okc\<close> the cursors that fit the flow's configuration.\<close>

locale delivery =
  fixes P :: "('v, 'c, 'd, 's, 'k, 'w) ports"
    and sunk :: "'w \<Rightarrow> 'v flow_row set"
    and stored :: "'w \<Rightarrow> 'v cursor option"
    and covers :: "'v cursor option \<Rightarrow> 'v flow_row set"
    and okc :: "'v cursor option \<Rightarrow> bool"
  assumes acquire_quiet: "p_acquire P cm w = (x1, w') \<Longrightarrow> sunk w \<subseteq> sunk w' \<and> stored w' = stored w"
    and build_source_quiet: "p_build_source P d w = (x2, w') \<Longrightarrow> sunk w \<subseteq> sunk w' \<and> stored w' = stored w"
    and build_sink_quiet: "p_build_sink P d w = (x3, w') \<Longrightarrow> sunk w \<subseteq> sunk w' \<and> stored w' = stored w"
    and wait_quiet: "p_wait P wk w = (b0, w') \<Longrightarrow> sunk w \<subseteq> sunk w' \<and> stored w' = stored w"
    and load_quiet: "p_load_cursor P ts w = (x4, w') \<Longrightarrow> sunk w \<subseteq> sunk w' \<and> stored w' = stored w"
    and load_value: "p_load_cursor P ts w = (Completed (Inr c), w') \<Longrightarrow> okc (stored w) \<Longrightarrow>
        covers c \<subseteq> covers (stored w) \<and> okc c"
    and load_token_quiet: "p_load_token P w = (x5, w') \<Longrightarrow> sunk w \<subseteq> sunk w' \<and> stored w' = stored w"
    and load_token_value: "p_load_token P w = (Completed (Inr t), w') \<Longrightarrow> okc (stored w) \<Longrightarrow>
        covers (map_option (\<lambda>j. [(RESUME_TOKEN_FIELD, CurJson j)]) t) \<subseteq> covers (stored w)
        \<and> okc (map_option (\<lambda>j. [(RESUME_TOKEN_FIELD, CurJson j)]) t)"
    and read_quiet: "p_read_batch P d s c w = (x6, w') \<Longrightarrow> sunk w \<subseteq> sunk w' \<and> stored w' = stored w"
    and read_value: "p_read_batch P d s c w = (Completed (Inr bt), w') \<Longrightarrow> b_next bt = Some c' \<Longrightarrow> okc c \<Longrightarrow>
        covers (Some c') \<subseteq> covers c \<union> set (b_rows bt) \<and> okc (Some c')"
    and write_effect: "p_write_batch P d k bt False w = (x7, w') \<Longrightarrow> sunk w \<subseteq> sunk w' \<and> stored w' = stored w"
    and write_value: "p_write_batch P d k bt False w = (Completed (Inr ()), w') \<Longrightarrow> set (b_rows bt) \<subseteq> sunk w'"
    and save_effect: "p_save_cursor P c0 False w = (x8, w') \<Longrightarrow> okc (Some c0) \<Longrightarrow>
        sunk w \<subseteq> sunk w' \<and> (stored w' = stored w \<or> stored w' = Some c0)"
    and save_token_effect: "p_save_token P j False w = (x9, w') \<Longrightarrow>
        sunk w \<subseteq> sunk w' \<and> (stored w' = stored w \<or> stored w' = Some [(RESUME_TOKEN_FIELD, CurJson j)])"
    and token_covers: "extract_resume_token (p_value_to_json P) c1 = Inr j \<Longrightarrow> okc (Some c1) \<Longrightarrow>
        covers (Some [(RESUME_TOKEN_FIELD, CurJson j)]) \<subseteq> covers (Some c1) \<and> okc (Some [(RESUME_TOKEN_FIELD, CurJson j)])"
    and covers_None: "covers None = {}"
    and okc_None: "okc None"

text \<open>The runner with crashes: a fresh runner may replace the current one in any world it has
  reached.\<close>

inductive run_reachable ::
  "('v, 'c, 'd, 's, 'k, 'w) ports \<Rightarrow> flow_config \<Rightarrow> 'w \<Rightarrow> ('v, 'd, 's, 'k) runner \<times> 'w \<Rightarrow> bool"
  for P fl w0 where
  start: "run_reachable P fl w0 (runner_new d, w0)"
| iterate: "run_reachable P fl w0 s \<Longrightarrow> run_iteration P fl s = (ctl, s') \<Longrightarrow> run_reachable P fl w0 s'"
| restart: "run_reachable P fl w0 (r, w) \<Longrightarrow> run_reachable P fl w0 (runner_new d, w)"

context delivery
begin

definition dlv :: "'w \<Rightarrow> 'v flow_row set" where
  "dlv w = delivered P sunk w"

definition cov_inv :: "('v, 'd, 's, 'k) runner \<times> 'w \<Rightarrow> bool" where
  "cov_inv s \<longleftrightarrow> covers (stored (snd s)) \<subseteq> dlv (snd s) \<and> covers (ru_cursor (fst s)) \<subseteq> dlv (snd s)
     \<and> okc (stored (snd s)) \<and> okc (ru_cursor (fst s))"

lemma dlv_mono: "sunk w \<subseteq> sunk w' \<Longrightarrow> dlv w \<subseteq> dlv w'"
  by (auto simp: dlv_def delivered_def)

lemma cov_quiet: "cov_inv (r, w) \<Longrightarrow> sunk w \<subseteq> sunk w' \<and> stored w' = stored w \<Longrightarrow> cov_inv (r, w')"
  using dlv_mono [of w w'] unfolding cov_inv_def by (simp, blast)

lemma cov_upd [simp]:
  "cov_inv (r\<lparr>ru_source_ctx := a\<rparr>, w) = cov_inv (r, w)" "cov_inv (r\<lparr>ru_sink_ctx := b\<rparr>, w) = cov_inv (r, w)"
  "cov_inv (r\<lparr>ru_derived := d\<rparr>, w) = cov_inv (r, w)" "cov_inv (r\<lparr>ru_backoff := n\<rparr>, w) = cov_inv (r, w)"
  "cov_inv (r\<lparr>ru_cursor := c\<rparr>, w) \<longleftrightarrow> covers (stored w) \<subseteq> dlv w \<and> covers c \<subseteq> dlv w \<and> okc (stored w) \<and> okc c"
  by (simp_all add: cov_inv_def)

lemma acquire_triple: "triple cov_inv cov_inv (lift_io (p_acquire P cm)) (\<lambda>_. cov_inv)"
  by (rule triple_lift_io) (auto dest: acquire_quiet intro: cov_quiet split: sum.split)

lemma build_source_triple: "triple cov_inv cov_inv (build_source_ctx P) (\<lambda>_. cov_inv)"
proof -
  have b: "triple cov_inv cov_inv (lift_io (p_build_source P d)) (\<lambda>_. cov_inv)" for d
    by (rule triple_lift_io) (auto dest: build_source_quiet intro: cov_quiet split: sum.split)
  have "triple cov_inv cov_inv (and_then (lift_io (p_acquire P SourceC)) (\<lambda>_.
           and_then (lift_io (p_build_source P d)) (\<lambda>ctx (r, w).
           ret () (r\<lparr>ru_source_ctx := Some ctx\<rparr>, w)))) (\<lambda>_. cov_inv)" (is "triple _ _ (?g d) _") for d
    by (intro triple_and_then [OF acquire_triple] triple_and_then [OF b]) (auto simp: triple_def ret_def)
  note body = this
  show ?thesis
    by (rule triple_if [where c = "\<lambda>s. ru_source_ctx (fst s) \<noteq> None" and g = "\<lambda>s. ?g (ru_derived (fst s))" and x = "()"]; (rule build_source_ctx_def body | assumption))
qed

lemma build_sink_triple: "triple cov_inv cov_inv (build_sink_ctx P) (\<lambda>_. cov_inv)"
proof -
  have b: "triple cov_inv cov_inv (lift_io (p_build_sink P d)) (\<lambda>_. cov_inv)" for d
    by (rule triple_lift_io) (auto dest: build_sink_quiet intro: cov_quiet split: sum.split)
  have "triple cov_inv cov_inv (and_then (lift_io (p_acquire P SinkC)) (\<lambda>_.
           and_then (lift_io (p_build_sink P d)) (\<lambda>ctx (r, w).
           ret () (r\<lparr>ru_sink_ctx := Some ctx\<rparr>, w)))) (\<lambda>_. cov_inv)" (is "triple _ _ (?g d) _") for d
    by (intro triple_and_then [OF acquire_triple] triple_and_then [OF b]) (auto simp: triple_def ret_def)
  note body = this
  show ?thesis
    by (rule triple_if [where c = "\<lambda>s. ru_sink_ctx (fst s) \<noteq> None" and g = "\<lambda>s. ?g (ru_derived (fst s))" and x = "()"]; (rule build_sink_ctx_def body | assumption))
qed

lemma ensure_built_triple: "triple cov_inv cov_inv (ensure_built P) (\<lambda>_. cov_inv)"
proof -
  have "triple cov_inv cov_inv (rebuild_derived P) (\<lambda>_. cov_inv)"
    by (auto simp: triple_def rebuild_derived_def Let_def ret_def fail_def split: sum.split)
  then have "triple cov_inv cov_inv (and_then (build_source_ctx P) (\<lambda>_. and_then (build_sink_ctx P) (\<lambda>_. rebuild_derived P))) (\<lambda>_. cov_inv)"
    (is "triple _ _ ?g _")
    by (intro triple_and_then [OF build_source_triple] triple_and_then [OF build_sink_triple])
  note body = this
  show ?thesis
    by (rule triple_if [where c = "\<lambda>s. ru_source_ctx (fst s) \<noteq> None \<and> ru_sink_ctx (fst s) \<noteq> None"
          and g = "\<lambda>s. ?g" and x = "()"]; (rule ensure_built_def body | assumption))
qed

text \<open>Loading: the value that comes back covers no more than what is stored.\<close>

lemma load_triple: "triple cov_inv cov_inv (load_cursor P fl) (\<lambda>_. cov_inv)"
proof -
  let ?Post = "\<lambda>c s. cov_inv s \<and> covers c \<subseteq> dlv (snd s) \<and> okc c"
  have col: "triple cov_inv cov_inv (timed f ''load_cursor'' (p_load_cursor P ts)) ?Post" for f ts
  proof (rule triple_timed)
    fix r w res w'
    assume *: "cov_inv (r, w)" "p_load_cursor P ts w = (res, w')"
    then have "cov_inv (r, w')" using load_quiet cov_quiet by blast
    then show "cov_inv (r, w') \<and> (\<forall>y. res = Completed (Inr y) \<longrightarrow> cov_inv (r, w') \<and> covers y \<subseteq> dlv (snd (r, w')) \<and> okc y)"
      using * load_value [of ts w _ w'] load_quiet [OF *(2)] by (fastforce simp: cov_inv_def)
  qed
  have tok: "triple cov_inv cov_inv (and_then (timed f ''load_resume_token'' (p_load_token P)) (\<lambda>token.
                 ret (map_option (\<lambda>j. [(RESUME_TOKEN_FIELD, CurJson j)]) token))) ?Post" for f
  proof (rule triple_and_then [where Mid = "\<lambda>t s. cov_inv s \<and> covers (map_option (\<lambda>j. [(RESUME_TOKEN_FIELD, CurJson j)]) t) \<subseteq> dlv (snd s)
        \<and> okc (map_option (\<lambda>j. [(RESUME_TOKEN_FIELD, CurJson j)]) t)"])
    show "triple cov_inv cov_inv (timed f ''load_resume_token'' (p_load_token P))
      (\<lambda>t s. cov_inv s \<and> covers (map_option (\<lambda>j. [(RESUME_TOKEN_FIELD, CurJson j)]) t) \<subseteq> dlv (snd s)
        \<and> okc (map_option (\<lambda>j. [(RESUME_TOKEN_FIELD, CurJson j)]) t))"
    proof (rule triple_timed)
      fix r w res w'
      assume *: "cov_inv (r, w)" "p_load_token P w = (res, w')"
      then have "cov_inv (r, w')" using load_token_quiet cov_quiet by blast
      then show "cov_inv (r, w') \<and> (\<forall>y. res = Completed (Inr y) \<longrightarrow> cov_inv (r, w') \<and>
          covers (map_option (\<lambda>j. [(RESUME_TOKEN_FIELD, CurJson j)]) y) \<subseteq> dlv (snd (r, w'))
          \<and> okc (map_option (\<lambda>j. [(RESUME_TOKEN_FIELD, CurJson j)]) y))"
        using * load_token_value [of w _ w'] load_token_quiet [OF *(2)] by (fastforce simp: cov_inv_def)
    qed
  qed (rule triple_ret, simp)
  have "triple cov_inv cov_inv (and_then (lift_io (p_acquire P StorageC)) (\<lambda>_.
        and_then
          (case fl_persistence fl of
             ColumnCursor \<Rightarrow>
               (case resolve_cursor_types P r of
                  Inl e \<Rightarrow> fail e
                | Inr types \<Rightarrow> timed (fl_name fl) ''load_cursor'' (p_load_cursor P types))
           | ResumeToken \<Rightarrow>
               and_then (timed (fl_name fl) ''load_resume_token'' (p_load_token P)) (\<lambda>token.
                 ret (map_option (\<lambda>j. [(RESUME_TOKEN_FIELD, CurJson j)]) token)))
          (\<lambda>c (r, w). ret () (r\<lparr>ru_cursor := c\<rparr>, w)))) (\<lambda>_. cov_inv)" (is "triple _ _ (?g r) _") for r
  proof (intro triple_and_then [OF acquire_triple] triple_and_then [where Mid = ?Post])
    show "triple cov_inv cov_inv
          (case fl_persistence fl of
             ColumnCursor \<Rightarrow>
               (case resolve_cursor_types P r of
                  Inl e \<Rightarrow> fail e
                | Inr types \<Rightarrow> timed (fl_name fl) ''load_cursor'' (p_load_cursor P types))
           | ResumeToken \<Rightarrow>
               and_then (timed (fl_name fl) ''load_resume_token'' (p_load_token P)) (\<lambda>token.
                 ret (map_option (\<lambda>j. [(RESUME_TOKEN_FIELD, CurJson j)]) token))) ?Post"
      using col tok by (auto split: cursor_persistence.split sum.split intro: triple_fail)
    show "triple cov_inv (?Post c) (\<lambda>(r, w). ret () (r\<lparr>ru_cursor := c\<rparr>, w)) (\<lambda>_. cov_inv)" for c
      by (auto simp: triple_def ret_def cov_inv_def)
  qed
  note body = this
  show ?thesis
    by (rule triple_if [where c = "\<lambda>s. ru_cursor (fst s) \<noteq> None" and g = "\<lambda>s. ?g (fst s)" and x = "()"]; (rule load_cursor_def body | assumption))
qed

text \<open>What a batch promises: its cursor covers no more than the current one and the source rows
  the batch was made from.\<close>

definition promises :: "'v cursor option \<Rightarrow> 'v batch \<Rightarrow> bool" where
  "promises c b \<longleftrightarrow>
     (\<forall>c'. b_next b = Some c' \<longrightarrow>
        okc (Some c') \<and> (\<exists>rows. list_all2 (img P) rows (b_rows b) \<and> covers (Some c') \<subseteq> covers c \<union> set rows))"

definition holds :: "'v batch \<Rightarrow> ('v, 'd, 's, 'k) runner \<times> 'w \<Rightarrow> bool" where
  "holds b s \<longleftrightarrow> cov_inv s \<and> promises (ru_cursor (fst s)) b"

lemma img_refl [simp]: "img P x x"
  by (simp add: img_def)

text \<open>A read batch holds the source rows themselves.\<close>

definition raw_holds :: "'v batch \<Rightarrow> ('v, 'd, 's, 'k) runner \<times> 'w \<Rightarrow> bool" where
  "raw_holds b s \<longleftrightarrow> cov_inv s \<and>
     (\<forall>c'. b_next b = Some c' \<longrightarrow> covers (Some c') \<subseteq> covers (ru_cursor (fst s)) \<union> set (b_rows b) \<and> okc (Some c'))"

lemma read_triple: "triple cov_inv cov_inv (read_step P fl False) raw_holds"
proof (rule tripleI)
  fix s0 :: "('v, 'd, 's, 'k) runner \<times> 'w"
  assume inv0: "cov_inv s0"
  let ?at = "\<lambda>s. cov_inv s \<and> fst s = fst s0"
  have ctx: "triple cov_inv ?at (expect_ctx (ru_source_ctx (fst s0))) (\<lambda>_. ?at)"
    by (auto simp: expect_ctx_def split: option.split intro: triple_fail triple_ret)
  have acq: "triple cov_inv ?at (lift_io (p_acquire P SourceC)) (\<lambda>_. ?at)"
    by (rule triple_lift_io) (auto dest: acquire_quiet intro: cov_quiet split: sum.split)
  have rd: "triple cov_inv ?at (timed (fl_name fl) ''read_batch''
      (p_read_batch P (ru_derived (fst s0)) c (ru_cursor (fst s0)))) raw_holds" for c
  proof (rule triple_timed)
    fix r w res w'
    assume *: "cov_inv (r, w) \<and> fst (r, w) = fst s0" "p_read_batch P (ru_derived (fst s0)) c (ru_cursor (fst s0)) w = (res, w')"
    then have inv': "cov_inv (r, w')" using read_quiet cov_quiet by blast
    have okc: "okc (ru_cursor (fst s0))" using *(1) by (auto simp: cov_inv_def)
    have "raw_holds y (r, w')" if fin: "res = Completed (Inr y)" for y
      using read_value [OF *(2) [unfolded fin] _ okc] *(1) inv'
      by (auto simp: raw_holds_def)
    with inv' show "cov_inv (r, w') \<and> (\<forall>y. res = Completed (Inr y) \<longrightarrow> raw_holds y (r, w'))" by blast
  qed
  have "triple cov_inv ?at (and_then (expect_ctx (ru_source_ctx (fst s0))) (\<lambda>ctx.
     and_then (lift_io (p_acquire P SourceC)) (\<lambda>_.
       timed (fl_name fl) ''read_batch'' (p_read_batch P (ru_derived (fst s0)) ctx (ru_cursor (fst s0)))))) raw_holds"
    by (intro triple_and_then [OF ctx] triple_and_then [OF acq] rd)
  from triple_app [OF this, of s0] inv0
  show "case read_step P fl False s0 of (Inl e, s') \<Rightarrow> cov_inv s' | (Inr x, s') \<Rightarrow> raw_holds x s'"
    by (simp add: read_step_def)
qed

lemma transform_img:
  assumes "transform_apply ident (p_eval_row P d w) b = Inr b'"
  shows "list_all2 (img P) (b_rows b) (b_rows b') \<and> b_next b' = b_next b"
proof (cases "ident \<and> list_all (\<lambda>r. r_body r = None) (b_rows b)")
  case True
  with assms show ?thesis by (simp add: transform_apply_def list_all2_same)
next
  case False
  then obtain rows where rows: "mapM_res (transform_row (p_eval_row P d w)) (b_rows b) = Inr rows"
      "b' = \<lparr>b_rows = rows, b_next = b_next b\<rparr>"
    using assms by (auto simp: transform_apply_def bind_res_Inr_iff)
  have "mapM_res (transform_row (p_eval_row P d w)) xs = Inr ys \<Longrightarrow> list_all2 (img P) xs ys" for xs ys
  proof (induction xs arbitrary: ys)
    case (Cons x xs)
    then obtain y ys' where ys: "ys = y # ys'" "transform_row (p_eval_row P d w) x = Inr y"
        "mapM_res (transform_row (p_eval_row P d w)) xs = Inr ys'"
      by (auto simp: bind_res_Inr_iff)
    then have "img P x y" by (auto simp: transform_row_def bind_res_Inr_iff img_def)
    with ys Cons.IH show ?case by simp
  qed simp
  with rows show ?thesis by simp
qed

lemma transform_triple: "triple cov_inv (raw_holds raw) (transform_step P raw) holds"
proof (rule tripleI)
  fix s :: "('v, 'd, 's, 'k) runner \<times> 'w"
  assume *: "raw_holds raw s"
  have "holds b s" if "transform_apply (p_is_identity P (ru_derived (fst s))) (p_eval_row P (ru_derived (fst s)) (snd s)) raw = Inr b" for b
    using transform_img [OF that] * unfolding holds_def raw_holds_def promises_def by auto
  then show "case transform_step P raw s of (Inl e, s') \<Rightarrow> cov_inv s' | (Inr x, s') \<Rightarrow> holds x s'"
    using * by (cases s) (auto simp: transform_step_def raw_holds_def split: sum.split)
qed

lemma written_delivered:
  assumes "list_all2 (img P) rows (b_rows b)" "set (b_rows b) \<subseteq> sunk w"
  shows "set rows \<subseteq> dlv w"
proof
  fix x assume "x \<in> set rows"
  then obtain y where "y \<in> set (b_rows b)" "img P x y" using assms(1) by (metis list_all2_conv_all_nth in_set_conv_nth)
  with assms(2) show "x \<in> dlv w" by (auto simp: dlv_def delivered_def)
qed

text \<open>The state in which a commit may run: everything the new cursor covers is delivered.\<close>

definition may_commit :: "'v cursor option \<Rightarrow> ('v, 'd, 's, 'k) runner \<times> 'w \<Rightarrow> bool" where
  "may_commit nxt s \<longleftrightarrow> cov_inv s \<and> (\<forall>c'. nxt = Some c' \<longrightarrow> covers (Some c') \<subseteq> dlv (snd s) \<and> okc (Some c'))"

lemma save_triple: "triple cov_inv (may_commit (Some c)) (timed f ''save_cursor'' (p_save_cursor P c False)) (\<lambda>_. may_commit (Some c))"
proof (rule triple_timed)
  fix r w res w'
  assume *: "may_commit (Some c) (r, w)" "p_save_cursor P c False w = (res, w')"
  then have "may_commit (Some c) (r, w')"
    using save_effect [OF *(2)] dlv_mono [of w w'] by (fastforce simp: may_commit_def cov_inv_def)
  then show "cov_inv (r, w') \<and> (\<forall>y. res = Completed (Inr y) \<longrightarrow> may_commit (Some c) (r, w'))"
    by (simp add: may_commit_def)
qed

lemma save_token_triple:
  assumes "extract_resume_token (p_value_to_json P) c = Inr j"
  shows "triple cov_inv (may_commit (Some c)) (timed f ''save_resume_token'' (p_save_token P j False)) (\<lambda>_. may_commit (Some c))"
proof (rule triple_timed)
  fix r w res w'
  assume *: "may_commit (Some c) (r, w)" "p_save_token P j False w = (res, w')"
  note eff = save_token_effect [OF *(2)]
  then have mono: "dlv w \<subseteq> dlv w'" by (simp add: dlv_mono)
  have pre: "covers (stored w) \<subseteq> dlv w" "covers (ru_cursor r) \<subseteq> dlv w" "covers (Some c) \<subseteq> dlv w"
      "okc (stored w)" "okc (ru_cursor r)" "okc (Some c)"
    using *(1) by (simp_all add: may_commit_def cov_inv_def)
  note tok = token_covers [OF assms pre(6)]
  have "covers (stored w') \<subseteq> dlv w'" using eff pre tok mono by (elim conjE disjE) auto
  moreover have "covers (ru_cursor r) \<subseteq> dlv w'" "covers (Some c) \<subseteq> dlv w'" using pre mono by blast+
  moreover have "okc (stored w')" using eff pre tok by auto
  ultimately have "may_commit (Some c) (r, w')" using pre by (simp add: may_commit_def cov_inv_def)
  then show "cov_inv (r, w') \<and> (\<forall>y. res = Completed (Inr y) \<longrightarrow> may_commit (Some c) (r, w'))"
    by (simp add: may_commit_def)
qed

lemma commit_triple: "triple cov_inv (may_commit nxt) (commit_cursor P fl nxt False) (\<lambda>_. cov_inv)"
proof (cases nxt)
  case None
  then show ?thesis by (auto simp: commit_cursor_def may_commit_def intro: triple_ret)
next
  case (Some c)
  have acq: "triple cov_inv (may_commit (Some c)) (lift_io (p_acquire P StorageC)) (\<lambda>_. may_commit (Some c))"
  proof (rule triple_lift_io)
    fix r w x w'
    assume "may_commit (Some c) (r, w)" "p_acquire P StorageC w = (x, w')"
    then have "may_commit (Some c) (r, w')"
      using acquire_quiet [of StorageC w x w'] dlv_mono [of w w'] by (auto simp: may_commit_def cov_inv_def)
    then show "case x of Inl e \<Rightarrow> cov_inv (r, w') | Inr y \<Rightarrow> may_commit (Some c) (r, w')"
      by (simp add: may_commit_def split: sum.split)
  qed
  have sv: "triple cov_inv (may_commit (Some c))
      (case fl_persistence fl of
         ColumnCursor \<Rightarrow> timed (fl_name fl) ''save_cursor'' (p_save_cursor P c False)
       | ResumeToken \<Rightarrow>
           (case extract_resume_token (p_value_to_json P) c of
              Inl e \<Rightarrow> fail e
            | Inr j \<Rightarrow> timed (fl_name fl) ''save_resume_token'' (p_save_token P j False))) (\<lambda>_. may_commit (Some c))"
    by (auto split: cursor_persistence.split sum.split intro: save_triple save_token_triple triple_fail simp: may_commit_def)
  have "triple cov_inv (may_commit (Some c)) (\<lambda>(r, w). ret () (r\<lparr>ru_cursor := Some c\<rparr>, w)) (\<lambda>_. cov_inv)"
    by (auto simp: triple_def ret_def may_commit_def cov_inv_def)
  then show ?thesis
    unfolding commit_cursor_def Some option.case by (intro triple_and_then [OF acq] triple_and_then [OF sv])
qed

lemma write_triple: "triple cov_inv (holds b) (write_and_commit P fl b False) (\<lambda>_. cov_inv)"
proof (rule tripleI)
  fix s0 :: "('v, 'd, 's, 'k) runner \<times> 'w"
  assume h: "holds b s0"
  have ctx: "triple cov_inv (holds b) (expect_ctx (ru_sink_ctx (fst s0))) (\<lambda>_. holds b)"
    by (auto simp: expect_ctx_def holds_def split: option.split intro: triple_fail triple_ret)
  have acq: "triple cov_inv (holds b) (lift_io (p_acquire P SinkC)) (\<lambda>_. holds b)"
    by (rule triple_lift_io) (auto dest!: acquire_quiet simp: holds_def intro: cov_quiet split: sum.split)
  have wr: "triple cov_inv (holds b) (timed (fl_name fl) ''write_batch''
      (p_write_batch P (ru_derived (fst s0)) ctx (b\<lparr>b_next := None\<rparr>) False)) (\<lambda>_. may_commit (b_next b))" for ctx
  proof (rule triple_timed)
    fix r w res w'
    assume *: "holds b (r, w)" "p_write_batch P (ru_derived (fst s0)) ctx (b\<lparr>b_next := None\<rparr>) False w = (res, w')"
    note eff = write_effect [OF *(2)]
    then have inv': "cov_inv (r, w')" using *(1) cov_quiet by (auto simp: holds_def)
    have "may_commit (b_next b) (r, w')" if "res = Completed (Inr ())"
    proof -
      have sub: "set (b_rows b) \<subseteq> sunk w'"
        using write_value [of "ru_derived (fst s0)" ctx "b\<lparr>b_next := None\<rparr>" w w'] *(2) that by simp
      have "covers (Some c') \<subseteq> dlv w' \<and> okc (Some c')" if c': "b_next b = Some c'" for c'
      proof -
        obtain rows where "list_all2 (img P) rows (b_rows b)" "covers (Some c') \<subseteq> covers (ru_cursor r) \<union> set rows"
            "okc (Some c')"
          using *(1) c' by (auto simp: holds_def promises_def)
        moreover have "covers (ru_cursor r) \<subseteq> dlv w'" using inv' by (simp add: cov_inv_def)
        ultimately show ?thesis using written_delivered [OF _ sub] by blast
      qed
      with inv' show ?thesis by (simp add: may_commit_def)
    qed
    with inv' show "cov_inv (r, w') \<and> (\<forall>y. res = Completed (Inr y) \<longrightarrow> may_commit (b_next b) (r, w'))" by simp
  qed
  have "triple cov_inv (holds b) (and_then (expect_ctx (ru_sink_ctx (fst s0))) (\<lambda>ctx.
     and_then (lift_io (p_acquire P SinkC)) (\<lambda>_.
     and_then (timed (fl_name fl) ''write_batch'' (p_write_batch P (ru_derived (fst s0)) ctx (b\<lparr>b_next := None\<rparr>) False)) (\<lambda>_.
     commit_cursor P fl (b_next b) False)))) (\<lambda>_. cov_inv)"
    by (intro triple_and_then [OF ctx] triple_and_then [OF acq] triple_and_then [OF wr] commit_triple)
  from triple_app [OF this h]
  show "case write_and_commit P fl b False s0 of (Inl e, s') \<Rightarrow> cov_inv s' | (Inr x, s') \<Rightarrow> cov_inv s'"
    by (simp add: write_and_commit_def)
qed

lemma finish_triple: "triple cov_inv (holds b) (finish_tick P fl b False) (\<lambda>_. cov_inv)"
proof (rule tripleI)
  fix s :: "('v, 'd, 's, 'k) runner \<times> 'w"
  assume h: "holds b s"
  have "triple cov_inv (holds b) (and_then (write_and_commit P fl b False) (\<lambda>_. ret oc)) (\<lambda>_. cov_inv)" for oc
    by (rule triple_and_then [OF write_triple]) (rule triple_ret)
  note w = triple_app [OF this [of Exit] h] triple_app [OF this [of Continue] h]
  show "case finish_tick P fl b False s of (Inl e, s') \<Rightarrow> cov_inv s' | (Inr x, s') \<Rightarrow> cov_inv s'"
    using h w by (simp add: finish_tick_def Let_def ret_def [of _ s] holds_def)
qed

lemma tick_triple: "triple cov_inv cov_inv (tick P fl False) (\<lambda>_. cov_inv)"
proof -
  have body: "triple cov_inv cov_inv (and_then (load_cursor P fl) (\<lambda>_.
            and_then (read_step P fl False) (\<lambda>raw.
            and_then (transform_step P raw) (\<lambda>b.
            finish_tick P fl b False)))) (\<lambda>_. cov_inv)" (is "triple _ _ ?g _")
    by (intro triple_and_then [OF load_triple] triple_and_then [OF read_triple]
        triple_and_then [OF transform_triple] finish_triple)
  have "triple cov_inv cov_inv (\<lambda>s. if p_shutdown P (snd s) then ret Exit s else ?g s) (\<lambda>_. cov_inv)"
    by (rule triple_if [where c = "\<lambda>s. p_shutdown P (snd s)" and x = Exit and g = "\<lambda>s. ?g"]; (rule refl body | assumption))
  then show ?thesis unfolding tick_def by (rule triple_and_then [OF ensure_built_triple])
qed

lemma iteration_inv:
  assumes "cov_inv s" "run_iteration P fl s = (ctl, s')"
  shows "cov_inv s'"
proof -
  obtain res r w where t: "tick P fl False s = (res, (r, w))" by (metis prod.exhaust)
  then have i: "cov_inv (r, w)"
    using tripleD [OF tick_triple assms(1)] by (cases res) auto
  have wq: "cov_inv (q, w')" if "p_wait P k w = (z, w')" "cov_inv (q, w)" for q k z w'
    using cov_quiet [OF that(2) wait_quiet [OF that(1)]] .
  show ?thesis
    using assms(2) t i wq
    by (fastforce simp: run_iteration_def Let_def split: sum.splits tick_outcome.splits prod.splits if_splits)
qed

lemma cov_inv_new: "cov_inv (runner_new d, w) \<longleftrightarrow> covers (stored w) \<subseteq> dlv w \<and> okc (stored w)"
  by (simp add: cov_inv_def runner_new_def covers_None okc_None)

lemma reachable_inv:
  "run_reachable P fl w0 s \<Longrightarrow> covers (stored w0) \<subseteq> dlv w0 \<Longrightarrow> okc (stored w0) \<Longrightarrow> cov_inv s"
proof (induction rule: run_reachable.induct)
  case (restart r w d)
  then show ?case by (simp add: cov_inv_new) (simp add: cov_inv_def)
qed (simp_all add: cov_inv_new iteration_inv)

end

text \<open>
  C20: at-least-once delivery. Under the contract of sources, sinks and storages, started in
  a world whose persisted cursor is honest (for instance an empty one), after any number of
  iterations of the runner, failures, timeouts, cancellations and restarts of the process,
  every source row at or before the persisted cursor has been delivered to the sink.
\<close>

theorem at_least_once_delivery:
  assumes "delivery P sunk stored covers okc"
    and "okc (stored w0)" and "covers (stored w0) \<subseteq> delivered P sunk w0"
    and "run_reachable P fl w0 (r, w)"
  shows "covers (stored w) \<subseteq> delivered P sunk w"
  using delivery.reachable_inv [OF assms(1,4)] assms(2,3)
  by (simp add: delivery.cov_inv_def [OF assms(1)] delivery.dlv_def [OF assms(1)])

end
