(* ===== verification/RunnerProps.thy ===== *)
theory RunnerProps
  imports Delivery
begin

text \<open>
  Further guarantees of the runner: a dry tick performs no live operation, the backoff stays
  within its bounds, the plans in use always belong to the contexts in use, and the engine
  and the retry helper (\<open>flow/engine.rs\<close>, \<open>util/retry.rs\<close>).
\<close>

section \<open>Dry runs\<close>

text \<open>
  C22: a dry tick (the sample probe of the validation) never performs a live operation: its
  result and its effect do not change if the live read, the live write and the live saves
  are replaced by anything at all.
\<close>

theorem dry_tick_never_live:
  "tick (P\<lparr>p_read_batch := R,
           p_write_batch := (\<lambda>d k b dry. if dry then p_write_batch P d k b True else W d k b),
           p_save_cursor := (\<lambda>c dry. if dry then p_save_cursor P c True else S c),
           p_save_token := (\<lambda>j dry. if dry then p_save_token P j True else T j)\<rparr>) fl True s
   = tick P fl True s"
  (is "tick ?Q fl True s = _")
proof -
  have b: "build_source_ctx ?Q = build_source_ctx P" "build_sink_ctx ?Q = build_sink_ctx P"
      "rebuild_derived ?Q = rebuild_derived P"
    by (intro ext; simp add: build_source_ctx_def build_sink_ctx_def rebuild_derived_def)+
  have e: "ensure_built ?Q = ensure_built P" by (intro ext) (simp add: ensure_built_def b)
  have l: "load_cursor ?Q fl = load_cursor P fl"
    by (intro ext) (simp add: load_cursor_def resolve_cursor_types_def cong: cursor_persistence.case_cong sum.case_cong)
  have r: "read_step ?Q fl True = read_step P fl True" by (intro ext) (simp add: read_step_def)
  have t: "transform_step ?Q raw = transform_step P raw" for raw
    by (intro ext) (simp add: transform_step_def)
  have c: "commit_cursor ?Q fl nxt True = commit_cursor P fl nxt True" for nxt
    by (simp add: commit_cursor_def cong: option.case_cong cursor_persistence.case_cong sum.case_cong)
  have f: "finish_tick ?Q fl bt True = finish_tick P fl bt True" for bt
    by (intro ext) (simp add: finish_tick_def write_and_commit_def [abs_def] c)
  show ?thesis by (simp add: tick_def e l r t f cong: if_cong)
qed

section \<open>Backoff\<close>

definition keeps :: "('r \<Rightarrow> 'x) \<Rightarrow> ('r \<times> 'w, 'a) act \<Rightarrow> bool" where
  "keeps g m \<longleftrightarrow> (\<forall>s. g (fst (snd (m s))) = g (fst s))"

lemma keeps_basic [intro]:
  "keeps g (ret x)" "keeps g (fail e)" "keeps g (lift_io f)" "keeps g (timed flow op h)"
  by (auto simp: keeps_def ret_def fail_def lift_io_def timed_def split: prod.splits)

lemma keeps_and_then [intro]: "keeps g m \<Longrightarrow> (\<And>x. keeps g (f x)) \<Longrightarrow> keeps g (and_then m f)"
proof -
  assume m: "keeps g m" and f: "\<And>x. keeps g (f x)"
  have "g (fst (snd (and_then m f s))) = g (fst s)" for s
  proof -
    obtain res s' where Pair: "m s = (res, s')" by (cases "m s")
    then have "g (fst s') = g (fst s)" using m by (metis keeps_def snd_conv)
    then show ?thesis using Pair f by (cases res; cases s') (simp_all add: and_then_def keeps_def)
  qed
  then show ?thesis by (simp add: keeps_def)
qed

text \<open>An action that depends on the state it starts in.\<close>

lemma keeps_if: "(\<And>s. f s = (if c s then ret x s else h s s)) \<Longrightarrow> (\<And>s0. keeps g (h s0)) \<Longrightarrow> keeps g f"
  by (simp add: keeps_def ret_def)

lemma keeps_dep: "(\<And>s. f s = h s s) \<Longrightarrow> (\<And>s0. keeps g (h s0)) \<Longrightarrow> keeps g f"
  by (simp add: keeps_def)

lemma keeps_upd [intro]:
  "keeps ru_backoff (\<lambda>(r, w). ret () (r\<lparr>ru_source_ctx := a\<rparr>, w))"
  "keeps ru_backoff (\<lambda>(r, w). ret () (r\<lparr>ru_sink_ctx := b\<rparr>, w))"
  "keeps ru_backoff (\<lambda>(r, w). ret () (r\<lparr>ru_cursor := c\<rparr>, w))"
  by (auto simp: keeps_def ret_def)

lemma keeps_expect [intro]: "keeps g (expect_ctx c)"
  by (auto simp: expect_ctx_def split: option.split)

lemma keeps_cases [intro]:
  "keeps g m \<Longrightarrow> (\<And>x. keeps g (h x)) \<Longrightarrow> keeps g (case y of None \<Rightarrow> m | Some x \<Rightarrow> h x)"
  "(\<And>e. keeps g (h1 e)) \<Longrightarrow> (\<And>x. keeps g (h2 x)) \<Longrightarrow> keeps g (case z of Inl e \<Rightarrow> h1 e | Inr x \<Rightarrow> h2 x)"
  "keeps g m1 \<Longrightarrow> keeps g m2 \<Longrightarrow> keeps g (case p of ColumnCursor \<Rightarrow> m1 | ResumeToken \<Rightarrow> m2)"
  "keeps g m1 \<Longrightarrow> keeps g m2 \<Longrightarrow> keeps g (if b then m1 else m2)"
  by (auto split: option.split sum.split cursor_persistence.split)

text \<open>Everything in a tick leaves the backoff alone.\<close>

lemma ensure_built_keeps: "keeps ru_backoff (ensure_built P)"
proof -
  have src: "keeps ru_backoff (build_source_ctx P)"
    by (rule keeps_if, rule build_source_ctx_def) blast
  have snk: "keeps ru_backoff (build_sink_ctx P)"
    by (rule keeps_if, rule build_sink_ctx_def) blast
  have reb: "keeps ru_backoff (rebuild_derived P)"
    by (auto simp: keeps_def rebuild_derived_def Let_def ret_def fail_def split: sum.split)
  show ?thesis by (rule keeps_if, rule ensure_built_def) (intro keeps_and_then src snk reb)
qed

lemma load_cursor_keeps: "keeps ru_backoff (load_cursor P fl)"
  by (rule keeps_if, rule load_cursor_def) blast

lemma commit_cursor_keeps: "keeps ru_backoff (commit_cursor P fl nxt dry)"
  unfolding commit_cursor_def by blast

lemma finish_tick_keeps: "keeps ru_backoff (finish_tick P fl b dry)"
proof -
  have w: "keeps ru_backoff (write_and_commit P fl b dry)"
    by (rule keeps_dep, rule write_and_commit_def) (blast intro: commit_cursor_keeps)
  show ?thesis
    by (rule keeps_if, unfold finish_tick_def Let_def, rule refl) (blast intro: w)
qed

lemma tick_keeps_backoff: "keeps ru_backoff (tick P fl dry)"
proof -
  have r: "keeps ru_backoff (read_step P fl dry)" by (rule keeps_dep, rule read_step_def) blast
  have t: "keeps ru_backoff (transform_step P raw)" for raw by (auto simp: keeps_def transform_step_def)
  have "keeps ru_backoff (\<lambda>s. if p_shutdown P (snd s) then ret Exit s
       else and_then (load_cursor P fl) (\<lambda>_.
            and_then (read_step P fl dry) (\<lambda>raw.
            and_then (transform_step P raw) (\<lambda>b.
            finish_tick P fl b dry))) s)"
    by (rule keeps_if, rule refl) (intro keeps_and_then load_cursor_keeps r t finish_tick_keeps)
  then show ?thesis unfolding tick_def by (intro keeps_and_then ensure_built_keeps)
qed


lemma iteration_backoff:
  assumes "run_iteration P fl (r, w) = (ctl, (r', w'))"
  shows "ru_backoff r' = BACKOFF_INITIAL \<or> ru_backoff r' = ru_backoff r
    \<or> ru_backoff r' = min (ru_backoff r * BACKOFF_MULTIPLIER) BACKOFF_CAP"
proof -
  obtain res r1 w1 where t: "tick P fl False (r, w) = (res, (r1, w1))" by (metis prod.exhaust)
  have "ru_backoff r1 = ru_backoff r"
    using tick_keeps_backoff [of P fl False, unfolded keeps_def, THEN spec, of "(r, w)"] t by simp
  with assms t show ?thesis
    by (auto simp: run_iteration_def Let_def split: sum.splits tick_outcome.splits prod.splits if_splits)
qed

text \<open>
  C24: the backoff of a runner is always between one second and one hour, whatever fails and
  for however long.
\<close>

theorem backoff_bounded:
  assumes "run_reachable P fl w0 (r, w)"
  shows "1 \<le> ru_backoff r \<and> ru_backoff r \<le> 3600"
  using assms
proof (induction "(r, w)" arbitrary: r w rule: run_reachable.induct)
  case (iterate s ctl)
  obtain r1 w1 where s: "s = (r1, w1)" by (cases s)
  with iterate have "1 \<le> ru_backoff r1 \<and> ru_backoff r1 \<le> 3600" by simp
  with iteration_backoff [of P fl r1 w1 ctl r w] iterate(3) s show ?case
    by (auto simp: BACKOFF_INITIAL_def BACKOFF_MULTIPLIER_def BACKOFF_CAP_def)
qed (simp_all add: runner_new_def BACKOFF_INITIAL_def)


section \<open>Plans match contexts\<close>

definition plan_of :: "('v, 'c, 'd, 's, 'k, 'w) ports \<Rightarrow> 's \<Rightarrow> 'k \<Rightarrow> string + 'd" where
  "plan_of P sc kc =
     p_build_derived P (schema_state (p_src_schemaless P) (p_source_schema P sc))
       (schema_state (p_dst_schemaless P) (p_sink_schema P kc))"

definition fresh :: "('v, 'c, 'd, 's, 'k, 'w) ports \<Rightarrow> ('v, 'd, 's, 'k) runner \<Rightarrow> bool" where
  "fresh P r \<longleftrightarrow>
     (\<forall>sc kc. ru_source_ctx r = Some sc \<and> ru_sink_ctx r = Some kc \<longrightarrow> plan_of P sc kc = Inr (ru_derived r))"

lemma build_ctx_cases:
  "build_source_ctx P s = (Inl e, s') \<Longrightarrow> ru_source_ctx (fst s) = None \<and> fst s' = fst s"
  "build_source_ctx P s = (Inr u, s') \<Longrightarrow> ru_source_ctx (fst s') \<noteq> None \<and> ru_sink_ctx (fst s') = ru_sink_ctx (fst s)"
  "build_sink_ctx P s = (Inl e, s') \<Longrightarrow> ru_sink_ctx (fst s) = None \<and> fst s' = fst s"
  "build_sink_ctx P s = (Inr u, s') \<Longrightarrow> ru_sink_ctx (fst s') \<noteq> None \<and> ru_source_ctx (fst s') = ru_source_ctx (fst s)"
  by (auto simp: build_source_ctx_def build_sink_ctx_def and_then_def lift_io_def ret_def
      split: prod.splits sum.splits if_splits)

lemma ensure_built_cases:
  assumes "fresh P (fst s)" "ensure_built P s = (res, s')"
  shows "case res of
      Inr _ \<Rightarrow> fresh P (fst s') \<and> ru_source_ctx (fst s') \<noteq> None \<and> ru_sink_ctx (fst s') \<noteq> None
    | Inl e \<Rightarrow> fresh P (fst s') \<or> (\<exists>m. e = Validation m)"
proof (cases "ru_source_ctx (fst s) \<noteq> None \<and> ru_sink_ctx (fst s) \<noteq> None")
  case True
  with assms show ?thesis by (auto simp: ensure_built_def ret_def)
next
  case False
  obtain r1 s1 where 1: "build_source_ctx P s = (r1, s1)" by (cases "build_source_ctx P s")
  obtain r2 s2 where 2: "build_sink_ctx P s1 = (r2, s2)" by (cases "build_sink_ctx P s1")
  show ?thesis
  proof (cases r1)
    case (Inl e)
    with 1 False assms(2) build_ctx_cases(1) [of P s e s1] show ?thesis
      by (auto simp: ensure_built_def and_then_def fresh_def)
  next
    case r1: (Inr u)
    show ?thesis
    proof (cases r2)
      case (Inl e)
      with 1 2 r1 False assms(2) build_ctx_cases(3) [of P s1 e s2] show ?thesis
        by (auto simp: ensure_built_def and_then_def fresh_def)
    next
      case (Inr u')
      obtain r w where s2: "s2 = (r, w)" by (cases s2)
      have "ru_source_ctx r \<noteq> None" "ru_sink_ctx r \<noteq> None"
        using build_ctx_cases(2) [of P s u s1] build_ctx_cases(4) [of P s1 u' s2] 1 2 r1 Inr s2 by auto
      with 1 2 r1 Inr s2 False assms(2) show ?thesis
        by (auto simp: ensure_built_def and_then_def rebuild_derived_def Let_def ret_def fail_def fresh_def plan_of_def
            split: sum.splits)
    qed
  qed
qed


text \<open>After the contexts are built nothing in a tick touches them or the plans.\<close>

definition ctx_part :: "('v, 'd, 's, 'k) runner \<Rightarrow> 's option \<times> 'k option \<times> 'd" where
  "ctx_part r = (ru_source_ctx r, ru_sink_ctx r, ru_derived r)"

lemma keeps_ctx_upd [intro]: "keeps ctx_part (\<lambda>(r, w). ret () (r\<lparr>ru_cursor := c\<rparr>, w))"
  by (auto simp: keeps_def ret_def ctx_part_def)

lemma tick_tail_keeps_ctx:
  "keeps ctx_part (\<lambda>s. if p_shutdown P (snd s) then ret Exit s
       else and_then (load_cursor P fl) (\<lambda>_.
            and_then (read_step P fl dry) (\<lambda>raw.
            and_then (transform_step P raw) (\<lambda>b.
            finish_tick P fl b dry))) s)"
proof -
  have l: "keeps ctx_part (load_cursor P fl)" by (rule keeps_if, rule load_cursor_def) blast
  have r: "keeps ctx_part (read_step P fl dry)" by (rule keeps_dep, rule read_step_def) blast
  have t: "keeps ctx_part (transform_step P raw)" for raw by (auto simp: keeps_def transform_step_def)
  have c: "keeps ctx_part (commit_cursor P fl nxt dry)" for nxt unfolding commit_cursor_def by blast
  have w: "keeps ctx_part (write_and_commit P fl b dry)" for b
    by (rule keeps_dep, rule write_and_commit_def) (blast intro: c)
  have f: "keeps ctx_part (finish_tick P fl b dry)" for b
    by (rule keeps_if, unfold finish_tick_def Let_def, rule refl) (blast intro: w)
  show ?thesis by (rule keeps_if, rule refl) (intro keeps_and_then l r t f)
qed

lemma fresh_ctx_part: "ctx_part r = ctx_part r' \<Longrightarrow> fresh P r = fresh P r'"
  by (simp add: ctx_part_def fresh_def)

lemma tick_fresh:
  assumes "fresh P (fst s)" "tick P fl False s = (res, s')"
  shows "fresh P (fst s') \<or> (\<exists>m. res = Inl (Validation m))"
proof -
  obtain x s1 where e: "ensure_built P s = (x, s1)" by (cases "ensure_built P s")
  note c = ensure_built_cases [OF assms(1) e]
  show ?thesis
  proof (cases x)
    case (Inl m)
    with c e assms(2) show ?thesis by (auto simp: tick_def and_then_def)
  next
    case (Inr u)
    with e assms(2) have "ctx_part (fst s') = ctx_part (fst s1)"
      using tick_tail_keeps_ctx [of P fl False, unfolded keeps_def, THEN spec, of s1]
      by (simp add: tick_def and_then_def [of "ensure_built P"])
    with c Inr show ?thesis using fresh_ctx_part [of "fst s'" "fst s1" P] by simp
  qed
qed

text \<open>
  C21: a daemon never runs with stale plans. Whenever both contexts are in place, the derived
  plans are the ones built from the schemas of exactly these contexts, although a rebuild
  may fail half-way and contexts are dropped and rebuilt after errors.
\<close>

theorem plans_match_contexts:
  assumes "run_reachable P fl w0 (r, w)" and "fl_mode fl = Daemon"
    and "ru_source_ctx r = Some sc" and "ru_sink_ctx r = Some kc"
  shows "plan_of P sc kc = Inr (ru_derived r)"
proof -
  have "fresh P r" using assms(1)
  proof (induction "(r, w)" arbitrary: r w rule: run_reachable.induct)
    case (iterate s ctl)
    obtain r0 w0' where s: "s = (r0, w0')" by (cases s)
    with iterate have 0: "fresh P (fst s)" by simp
    obtain res r1 w1 where t: "tick P fl False s = (res, (r1, w1))" by (metis prod.exhaust)
    note f = tick_fresh [OF 0 t]
    have drop: "fresh P (q\<lparr>ru_source_ctx := None, ru_sink_ctx := None\<rparr>)" "fresh P (q\<lparr>ru_backoff := n\<rparr>) = fresh P q" for q n
      by (simp_all add: fresh_def)
    show ?case
      using iterate(3) t f drop assms(2)
      by (auto simp: run_iteration_def Let_def should_drop_ctx_on_def
          split: sum.splits tick_outcome.splits prod.splits if_splits)
  qed (simp_all add: fresh_def runner_new_def)
  with assms(3,4) show ?thesis by (simp add: fresh_def)
qed

section \<open>The engine\<close>

text \<open>\<open>FlowEngine::run\<close>: the outcomes of the spawned tasks, joined in the order of the flows.\<close>

datatype task_result = Joined "runtime_error + unit" | Panicked string

definition join_step :: "runtime_error option \<Rightarrow> task_result \<Rightarrow> runtime_error option" where
  "join_step first_error t =
     (case t of
        Joined (Inr _) \<Rightarrow> first_error
      | Joined (Inl e) \<Rightarrow> (if first_error = None then Some e else first_error)
      | Panicked m \<Rightarrow> (if first_error = None then Some (Other m) else first_error))"

definition engine_run :: "task_result list \<Rightarrow> runtime_error + unit" where
  "engine_run tasks = (case foldl join_step None tasks of Some e \<Rightarrow> Inl e | None \<Rightarrow> Inr ())"

definition task_error :: "task_result \<Rightarrow> runtime_error option" where
  "task_error t = (case t of Joined (Inr _) \<Rightarrow> None | Joined (Inl e) \<Rightarrow> Some e | Panicked m \<Rightarrow> Some (Other m))"

lemma join_step_error: "join_step fe t = (if fe = None then task_error t else fe)"
proof (cases t)
  case (Joined r)
  then show ?thesis by (cases r) (simp_all add: join_step_def task_error_def)
qed (simp add: join_step_def task_error_def)

lemma foldl_join:
  "foldl join_step fe tasks =
     (if fe = None then (case List.map_filter task_error tasks of [] \<Rightarrow> None | e # _ \<Rightarrow> Some e) else fe)"
proof (induction tasks arbitrary: fe)
  case (Cons t tasks)
  then show ?case
    by (cases "task_error t") (simp_all add: join_step_error List.map_filter_simps)
qed (simp add: List.map_filter_simps)

text \<open>
  C28: the engine reports success exactly when every flow ended without error or panic, and
  otherwise the first error in the order of the flows, whichever failed first in time.
\<close>

theorem engine_first_error:
  "engine_run tasks =
     (case List.map_filter task_error tasks of [] \<Rightarrow> Inr () | e # _ \<Rightarrow> Inl e)"
  by (simp add: engine_run_def foldl_join split: list.split)

section \<open>Retrying probes\<close>

definition ACCESS_PROBE_RETRY_ATTEMPTS :: nat where "ACCESS_PROBE_RETRY_ATTEMPTS = 3"
definition ACCESS_PROBE_RETRY_BASE :: nat where "ACCESS_PROBE_RETRY_BASE = 50"
definition ACCESS_PROBE_RETRY_FACTOR :: nat where "ACCESS_PROBE_RETRY_FACTOR = 5"

text \<open>The first \<open>n\<close> attempts of the loop and the last one; the log holds the sleeps, in
  milliseconds.\<close>

fun retry_loop :: "nat \<Rightarrow> nat \<Rightarrow> ('w \<Rightarrow> (runtime_error + 'a) \<times> 'w) \<Rightarrow> nat list \<Rightarrow> 'w \<Rightarrow> (runtime_error + 'a) \<times> nat list \<times> 'w" where
  "retry_loop 0 delay op slept w = (case op w of (res, w') \<Rightarrow> (res, slept, w'))"
| "retry_loop (Suc n) delay op slept w =
     (case op w of
        (Inr v, w') \<Rightarrow> (Inr v, slept, w')
      | (Inl (Backend m), w') \<Rightarrow> retry_loop n (delay * ACCESS_PROBE_RETRY_FACTOR) op (slept @ [delay]) w'
      | (Inl e, w') \<Rightarrow> (Inl e, slept, w'))"

definition retry_transient :: "('w \<Rightarrow> (runtime_error + 'a) \<times> 'w) \<Rightarrow> 'w \<Rightarrow> (runtime_error + 'a) \<times> nat list \<times> 'w" where
  "retry_transient op w = retry_loop (ACCESS_PROBE_RETRY_ATTEMPTS - 1) ACCESS_PROBE_RETRY_BASE op [] w"

definition is_backend :: "runtime_error + 'a \<Rightarrow> bool" where
  "is_backend r = (case r of Inl (Backend _) \<Rightarrow> True | _ \<Rightarrow> False)"

lemma retry_loop_Suc:
  "retry_loop (Suc n) delay op slept w =
     (case op w of (r, w') \<Rightarrow>
        if is_backend r then retry_loop n (delay * ACCESS_PROBE_RETRY_FACTOR) op (slept @ [delay]) w'
        else (r, slept, w'))"
proof -
  obtain r w' where r: "op w = (r, w')" by (cases "op w")
  show ?thesis
  proof (cases r)
    case (Inl e)
    with r show ?thesis by (cases e) (simp_all add: is_backend_def)
  qed (simp add: r is_backend_def)
qed

lemma retry_loop_0: "retry_loop 0 delay op slept w = (case op w of (r, w') \<Rightarrow> (r, slept, w'))"
  by simp

text \<open>
  C29: a probe is tried at most three times and again only after a backend error: the answer
  is the first result that is not a backend error, or the third result, and the pauses are
  50 ms before the second attempt and 250 ms before the third.
\<close>

theorem retry_transient_spec:
  "retry_transient op w =
     (let (r1, w1) = op w; (r2, w2) = op w1; (r3, w3) = op w2
      in if \<not> is_backend r1 then (r1, [], w1)
         else if \<not> is_backend r2 then (r2, [50], w2)
         else (r3, [50, 250], w3))"
proof -
  have "ACCESS_PROBE_RETRY_ATTEMPTS - 1 = Suc (Suc 0)" by (simp add: ACCESS_PROBE_RETRY_ATTEMPTS_def)
  then show ?thesis
    unfolding retry_transient_def by (simp add: retry_loop_Suc retry_loop_0 ACCESS_PROBE_RETRY_BASE_def
      ACCESS_PROBE_RETRY_FACTOR_def Let_def split_beta del: retry_loop.simps)
qed

end
