(* ===== verification/PgFlow.thy ===== *)
theory PgFlow
  imports Keyset PgStorage RunnerProps
begin

text \<open>
  A whole flow: the runner over the PostgreSQL source and the PostgreSQL storage, reading a
  table of \<open>int64\<close> cells into a sink that appends. Every connector call takes its fate from
  a script of faults: it may fail, run into the query timeout or be cancelled by the
  shutdown, before or after it has taken effect.
\<close>

section \<open>The flow\<close>

record pg_flow =
  pf_name :: string
  pf_spec :: "int read_spec"
  pf_nullable :: "bool list"
  pf_table :: "int row list"

datatype fault = Fine | Broken runtime_error bool | Late bool | Stopping bool

record pg_world =
  pw_sink :: "int option flow_row list"
  pw_db :: pg_tables
  pw_faults :: "fault list"
  pw_shutdown :: bool

text \<open>One call: the fault at the head of the script decides its result and whether its effect
  is kept.\<close>

definition call :: "(pg_world \<Rightarrow> (runtime_error + 'a) \<times> pg_world) \<Rightarrow> pg_world \<Rightarrow> 'a op_result \<times> pg_world" where
  "call op w =
     (case pw_faults w of
        [] \<Rightarrow> (case op w of (res, w') \<Rightarrow> (Completed res, w'))
      | f # fs \<Rightarrow>
          (let w0 = w\<lparr>pw_faults := fs\<rparr>; keep = (\<lambda>b. if b then snd (op w0) else w0)
           in case f of
                Fine \<Rightarrow> (case op w0 of (res, w') \<Rightarrow> (Completed res, w'))
              | Broken e b \<Rightarrow> (Completed (Inl e), keep b)
              | Late b \<Rightarrow> (Elapsed, keep b)
              | Stopping b \<Rightarrow> (ShutdownChanged, (keep b)\<lparr>pw_shutdown := True\<rparr>)))"

definition to_flow_row :: "string list \<Rightarrow> int row \<Rightarrow> int option flow_row" where
  "to_flow_row columns r = \<lparr>r_values = map r columns, r_body = None, r_op = Upsert\<rparr>"

definition to_cursor :: "int cursor_state \<Rightarrow> int option cursor" where
  "to_cursor st = map (\<lambda>(n, v). (n, CurOther v)) st"

definition of_cursor :: "int option cursor \<Rightarrow> int cursor_state" where
  "of_cursor c = map (\<lambda>(n, v). (n, case v of CurOther x \<Rightarrow> x | _ \<Rightarrow> None)) c"

text \<open>The database's answer, with insertion sort as the \<open>ORDER BY\<close>.\<close>

definition pg_fetch :: "int read_spec \<Rightarrow> read_query \<Rightarrow> int cursor_state \<Rightarrow> int row list \<Rightarrow> int row list" where
  "pg_fetch spec q st table =
     take (rs_limit spec)
       (sort_by (\<lambda>a b. cursor_cmp (rs_order spec) (key_of (rs_cursor_fields spec) a) (key_of (rs_cursor_fields spec) b))
         (filter (selected st q) table))"

definition pg_read :: "pg_flow \<Rightarrow> int option cursor option \<Rightarrow> runtime_error + int option batch" where
  "pg_read F cursor =
     (case read_plan 0 (pf_spec F) (pf_nullable F) (map_option of_cursor cursor) of
        Inl e \<Rightarrow> Inl (Other e)
      | Inr q \<Rightarrow>
          (let rows = pg_fetch (pf_spec F) q (case cursor of None \<Rightarrow> [] | Some c \<Rightarrow> of_cursor c) (pf_table F)
           in Inr \<lparr>b_rows = map (to_flow_row (rs_columns (pf_spec F))) rows,
                   b_next = map_option to_cursor (next_cursor (rs_cursor_fields (pf_spec F)) rows)\<rparr>))"

definition pg_schema :: "pg_flow \<Rightarrow> unit schema" where
  "pg_schema F =
     schema_new (map (\<lambda>c. \<lparr>f_name = c, f_type = TInt64, f_nullable = True\<rparr>) (rs_columns (pf_spec F)))"

definition pg_save_op :: "pg_flow \<Rightarrow> int option cursor \<Rightarrow> bool \<Rightarrow> pg_world \<Rightarrow> (runtime_error + unit) \<times> pg_world" where
  "pg_save_op F c dry w =
     (case pg_save_cursor int64_enc (pf_name F) c dry (pw_db w) of (res, db) \<Rightarrow> (res, w\<lparr>pw_db := db\<rparr>))"

text \<open>The flow keeps a column cursor; it has no resume token to load or to save.\<close>

definition pg_ports :: "pg_flow \<Rightarrow> (int option, unit, unit, unit, unit, pg_world) ports" where
  "pg_ports F = \<lparr>
     p_acquire = (\<lambda>cm w. (Inr (), w)),
     p_build_source = (\<lambda>d w. case call (\<lambda>w. (Inr (), w)) w of (res, w') \<Rightarrow> (with_timeout (pf_name F) ''build_context'' res, w')),
     p_build_sink = (\<lambda>d w. case call (\<lambda>w. (Inr (), w)) w of (res, w') \<Rightarrow> (with_timeout (pf_name F) ''build_context'' res, w')),
     p_source_schema = (\<lambda>s. Some (pg_schema F)),
     p_sink_schema = (\<lambda>k. Some (pg_schema F)),
     p_src_schemaless = False,
     p_dst_schemaless = False,
     p_build_derived = (\<lambda>src dst. Inr ()),
     p_cursor_fields = (\<lambda>d. rs_cursor_fields (pf_spec F)),
     p_limit = (\<lambda>d. rs_limit (pf_spec F)),
     p_is_identity = (\<lambda>d. True),
     p_eval_row = (\<lambda>d w r. Inr (r_values r)),
     p_shutdown = pw_shutdown,
     p_load_cursor = (\<lambda>types. call (\<lambda>w. (pg_load_cursor int64_dec (pf_name F) types (pw_db w), w))),
     p_save_cursor = (\<lambda>c dry. call (pg_save_op F c dry)),
     p_load_token = call (\<lambda>w. (Inl (NotRegistered ''resume token''), w)),
     p_save_token = (\<lambda>j dry. call (\<lambda>w. (Inl (NotRegistered ''resume token''), w))),
     p_read_batch = (\<lambda>d s cursor. call (\<lambda>w. (pg_read F cursor, w))),
     p_sample = (\<lambda>d s n. call (\<lambda>w. (pg_read F None, w))),
     p_write_batch = (\<lambda>d k b dry. call (\<lambda>w. (Inr (), if dry then w else w\<lparr>pw_sink := pw_sink w @ b_rows b\<rparr>))),
     p_value_to_json = (\<lambda>v. Inr JNull),
     p_wait = (\<lambda>k w. (pw_shutdown w, w))\<rparr>"


section \<open>What the flow has delivered and persisted\<close>

definition stored_types :: "json \<Rightarrow> unit data_type list" where
  "stored_types j = (case json_get j ''fields'' of Some (JArr raw) \<Rightarrow> replicate (length raw) TInt64 | _ \<Rightarrow> [])"

text \<open>The persisted cursor, and no cursor where the row of the table does not decode.\<close>

definition pg_stored :: "pg_flow \<Rightarrow> pg_world \<Rightarrow> int option cursor option" where
  "pg_stored F w =
     (case cursors (pw_db w) (pf_name F) of
        None \<Rightarrow> None
      | Some j \<Rightarrow> (case from_typed_json int64_dec j (stored_types j) of Inl e \<Rightarrow> None | Inr c \<Rightarrow> Some c))"

definition pg_after :: "pg_flow \<Rightarrow> int option cursor \<Rightarrow> int row \<Rightarrow> bool" where
  "pg_after F c r \<longleftrightarrow>
     after_key (rs_order (pf_spec F)) (key_of (rs_cursor_fields (pf_spec F)) r) (map snd (of_cursor c))"

text \<open>The rows at or before a cursor.\<close>

definition pg_covers :: "pg_flow \<Rightarrow> int option cursor option \<Rightarrow> int option flow_row set" where
  "pg_covers F c =
     (case c of
        None \<Rightarrow> {}
      | Some c \<Rightarrow> to_flow_row (rs_columns (pf_spec F)) ` {r \<in> set (pf_table F). \<not> pg_after F c r})"

definition pg_cursor_ok :: "pg_flow \<Rightarrow> int option cursor option \<Rightarrow> bool" where
  "pg_cursor_ok F c =
     (case c of
        None \<Rightarrow> True
      | Some c \<Rightarrow> map fst c = rs_cursor_fields (pf_spec F)
          \<and> list_all (\<lambda>f. \<exists>x. snd f = CurOther x \<and> int64_cell x) c)"

text \<open>What a flow needs of its configuration and its table: a positive limit, distinct cursor
  fields that identify the rows, columns declared \<open>NOT NULL\<close> without nulls, 64-bit cells.\<close>

definition pg_flow_ok :: "pg_flow \<Rightarrow> bool" where
  "pg_flow_ok F \<longleftrightarrow>
     0 < rs_limit (pf_spec F) \<and> distinct (rs_cursor_fields (pf_spec F))
     \<and> set (rs_cursor_fields (pf_spec F)) \<subseteq> set (rs_columns (pf_spec F))
     \<and> unique_keys (rs_cursor_fields (pf_spec F)) (pf_table F)
     \<and> (\<forall>r \<in> set (pf_table F). respects_nullable (rs_cursor_fields (pf_spec F)) (pf_nullable F) r
          \<and> (\<forall>c \<in> set (rs_cursor_fields (pf_spec F)). int64_cell (r c)))"

lemma call_cases:
  assumes "call op w = (res, w')"
  obtains fs where "w' \<in> {w\<lparr>pw_faults := fs\<rparr>, snd (op (w\<lparr>pw_faults := fs\<rparr>)),
        w\<lparr>pw_faults := fs, pw_shutdown := True\<rparr>, (snd (op (w\<lparr>pw_faults := fs\<rparr>)))\<lparr>pw_shutdown := True\<rparr>}"
    "\<And>y. res = Completed (Inr y) \<Longrightarrow> op (w\<lparr>pw_faults := fs\<rparr>) = (Inr y, w')"
proof (cases "pw_faults w")
  case Nil
  have eq: "w\<lparr>pw_faults := []\<rparr> = w" using Nil by (metis pg_world.update_convs(3) pg_world.surjective)
  with Nil assms show ?thesis
    by (intro that [of "[]"]) (auto simp: call_def eq split: prod.splits)
next
  case (Cons f fs)
  with assms show ?thesis
    by (intro that [of fs]; cases f) (auto simp: call_def Let_def split: prod.splits)
qed

lemma call_quiet:
  assumes "call op w = (res, w')" "\<And>w. snd (op w) = w"
  shows "pw_sink w' = pw_sink w \<and> pw_db w' = pw_db w"
  by (rule call_cases [OF assms(1)]) (auto simp: assms(2))

lemma of_to_cursor [simp]: "of_cursor (to_cursor st) = st"
  by (simp add: of_cursor_def to_cursor_def comp_def split_beta)

lemma cursor_names [simp]: "map fst (of_cursor c) = map fst c" "map fst (to_cursor st) = map fst st"
  by (simp_all add: of_cursor_def to_cursor_def comp_def split_beta)

lemma pg_fetch_result: "query_result st q (rs_cursor_fields spec) (rs_order spec) table (rs_limit spec) (pg_fetch spec q st table)"
  unfolding query_result_def pg_fetch_def
  by (intro exI conjI refl) (simp_all add: key_asc.sorted_sort_by_key)


section \<open>The flow keeps the contract\<close>

lemma pg_read_batch:
  assumes "pg_read F cursor = Inr bt"
  obtains rows where "read_batch 0 (pf_spec F) (pf_nullable F) (pf_table F) (map_option of_cursor cursor)
      (rows, next_cursor (rs_cursor_fields (pf_spec F)) rows)"
    "b_rows bt = map (to_flow_row (rs_columns (pf_spec F))) rows"
    "b_next bt = map_option to_cursor (next_cursor (rs_cursor_fields (pf_spec F)) rows)"
proof -
  obtain q where q: "read_plan 0 (pf_spec F) (pf_nullable F) (map_option of_cursor cursor) = Inr q"
    using assms by (auto simp: pg_read_def split: sum.splits)
  let ?st = "case cursor of None \<Rightarrow> [] | Some c \<Rightarrow> of_cursor c"
  have st: "(case map_option of_cursor cursor of None \<Rightarrow> [] | Some c \<Rightarrow> c) = ?st" by (cases cursor) simp_all
  show ?thesis
    by (rule that [of "pg_fetch (pf_spec F) q ?st (pf_table F)"])
      (use assms q st pg_fetch_result [of ?st q "pf_spec F" "pf_table F"] in
        \<open>auto simp: pg_read_def read_batch_def Let_def\<close>)
qed


lemma next_cursor_ok:
  assumes "pg_flow_ok F" "set rows \<subseteq> set (pf_table F)" "next_cursor (rs_cursor_fields (pf_spec F)) rows = Some n"
  shows "pg_cursor_ok F (Some (to_cursor n))"
proof -
  let ?cf = "rs_cursor_fields (pf_spec F)"
  have n: "n = zip ?cf (map (last rows) ?cf)" "rows \<noteq> []"
    using assms(3) by (auto simp: next_cursor_def key_of_def split: if_splits)
  have "last rows \<in> set (pf_table F)" using last_in_set [OF n(2)] assms(2) by blast
  then have "\<forall>c \<in> set ?cf. int64_cell (last rows c)"
    using assms(1) by (simp add: pg_flow_ok_def)
  then show ?thesis
    using n(1) by (auto simp: pg_cursor_ok_def to_cursor_def list_all_iff comp_def split_beta set_zip)
qed

lemma read_batch_rows:
  assumes "read_batch zero spec nullable table cursor (rows, nxt)"
  shows "set rows \<subseteq> set table"
proof -
  obtain st q where "query_result st q (rs_cursor_fields spec) (rs_order spec) table (rs_limit spec) rows"
    using assms by (auto simp: read_batch_def)
  then show ?thesis by (rule query_result_set) (auto dest: in_set_takeD)
qed

lemma pg_read_value:
  assumes ok: "pg_flow_ok F" and rd: "pg_read F c = Inr bt" and nxt: "b_next bt = Some c'" and okc: "pg_cursor_ok F c"
  shows "pg_covers F (Some c') \<subseteq> pg_covers F c \<union> set (b_rows bt) \<and> pg_cursor_ok F (Some c')"
proof -
  let ?cf = "rs_cursor_fields (pf_spec F)"
  obtain rows where rb: "read_batch 0 (pf_spec F) (pf_nullable F) (pf_table F) (map_option of_cursor c) (rows, next_cursor ?cf rows)"
      and b: "b_rows bt = map (to_flow_row (rs_columns (pf_spec F))) rows"
        "b_next bt = map_option to_cursor (next_cursor ?cf rows)"
    by (rule pg_read_batch [OF rd])
  obtain n where n: "next_cursor ?cf rows = Some n" "c' = to_cursor n" using nxt b(2) by auto
  have names: "map fst st = ?cf" if "map_option of_cursor c = Some st" for st
    using that okc by (auto simp: pg_cursor_ok_def)
  have "r \<in> set rows" if r: "r \<in> set (pf_table F)" "\<not> pg_after F c' r" and old: "\<And>d. c = Some d \<Longrightarrow> pg_after F d r" for r
  proof -
    have "r \<in> set rows \<or> (\<exists>m. next_cursor ?cf rows = Some m
        \<and> after_key (rs_order (pf_spec F)) (key_of ?cf r) (map snd m))"
      by (rule read_batch_complete [OF rb names _ _ _ _ r(1)])
        (use ok old in \<open>auto simp: pg_flow_ok_def pg_after_def\<close>)
    with r(2) n show ?thesis by (simp add: pg_after_def)
  qed
  then have "pg_covers F (Some c') \<subseteq> pg_covers F c \<union> set (b_rows bt)"
    by (cases c) (auto simp: pg_covers_def b(1))
  with next_cursor_ok [OF ok read_batch_rows [OF rb] n(1)] n(2) show ?thesis by simp
qed

text \<open>What decodes to an \<open>int64\<close> cell under some type decodes to it under \<open>int64\<close>, so that what the
  flow loads is what the table holds.\<close>

lemma decode_field_canonical:
  "decode_field int64_dec (raw, t) = Inr x \<Longrightarrow> decode_field int64_dec (raw, TInt64) = Inr x"
  by (auto simp: decode_field_def dest: int64_dec_canonical split: json.splits option.splits sum.splits)

lemma decode_fields_canonical:
  "length ts = length raw \<Longrightarrow> mapM_res (decode_field int64_dec) (zip raw ts) = Inr d \<Longrightarrow>
   mapM_res (decode_field int64_dec) (zip raw (replicate (length raw) TInt64)) = Inr d"
proof (induction raw arbitrary: ts d)
  case (Cons x raw)
  then obtain t us where ts: "ts = t # us" "length us = length raw" by (metis length_Suc_conv)
  with Cons show ?case by (auto simp: bind_res_Inr_iff dest: decode_field_canonical)
qed simp

lemma pg_load_stored:
  assumes "pg_load_cursor int64_dec (pf_name F) types (pw_db w) = Inr c"
  shows "c = pg_stored F w"
proof (cases "cursors (pw_db w) (pf_name F)")
  case (Some j)
  then obtain d where d: "from_typed_json int64_dec j types = Inr d" "c = Some d"
    using assms by (auto simp: pg_load_cursor_def bind_res_Inr_iff)
  then obtain raw where raw: "json_get j ''fields'' = Some (JArr raw)" "length types = length raw"
      "mapM_res (decode_field int64_dec) (zip raw types) = Inr d"
    by (auto simp: from_typed_json_def split: json.splits option.splits if_splits)
  have "stored_types j = replicate (length raw) TInt64" using raw(1) by (simp add: stored_types_def)
  then have "from_typed_json int64_dec j (stored_types j) = Inr d"
    using d(1) raw decode_fields_canonical [OF raw(2,3)]
    by (simp add: from_typed_json_def split: json.splits)
  with Some d(2) show ?thesis by (simp add: pg_stored_def)
qed (use assms in \<open>simp add: pg_load_cursor_def pg_stored_def\<close>)


lemma pg_save_stored:
  assumes "pg_cursor_ok F (Some c)"
  shows "\<exists>j. cursor_to_json int64_enc c = Inr j
    \<and> pg_save_op F c False w = (Inr (), w\<lparr>pw_db := (pw_db w)\<lparr>cursors := (cursors (pw_db w))(pf_name F \<mapsto> j)\<rparr>\<rparr>)
    \<and> pg_stored F (snd (pg_save_op F c False w)) = Some c"
proof -
  have "list_all2 (\<lambda>f t. \<exists>j. int64_enc (snd f) = Inr j \<and> int64_dec t j = Inr (snd f)) c (replicate (length c) TInt64)"
    using assms int64_codec by (fastforce simp: pg_cursor_ok_def list_all2_conv_all_nth list_all_length custom_type_def)
  then obtain j where j: "cursor_to_json int64_enc c = Inr j"
      "from_typed_json int64_dec j (replicate (length c) TInt64) = Inr c"
    using from_typed_json_own by blast
  moreover have "stored_types j = replicate (length c) TInt64"
    using cursor_to_json_length [OF j(1)] by (auto simp: stored_types_def json_get_def)
  ultimately show ?thesis by (simp add: pg_stored_def pg_save_op_def pg_save_cursor_def)
qed

lemma pg_stored_db: "pw_db w' = pw_db w \<Longrightarrow> pg_stored F w' = pg_stored F w"
  by (simp add: pg_stored_def)

lemma call_silent:
  "call op w = (res, w') \<Longrightarrow> (\<And>w. snd (op w) = w) \<Longrightarrow> pw_sink w' = pw_sink w \<and> pg_stored F w' = pg_stored F w"
  using call_quiet pg_stored_db by blast

lemma call_value: "call op w = (Completed (Inr y), w') \<Longrightarrow> \<exists>fs. op (w\<lparr>pw_faults := fs\<rparr>) = (Inr y, w')"
  by (erule call_cases) blast

lemma call_effect:
  "call op w = (res, w') \<Longrightarrow>
   \<exists>fs. (pw_sink w' = pw_sink w \<and> pw_db w' = pw_db w)
     \<or> (pw_sink w' = pw_sink (snd (op (w\<lparr>pw_faults := fs\<rparr>))) \<and> pw_db w' = pw_db (snd (op (w\<lparr>pw_faults := fs\<rparr>))))"
  by (erule call_cases) auto

lemma pg_quiet:
  "p_acquire (pg_ports F) cm w = (x1, w') \<Longrightarrow> pw_sink w' = pw_sink w \<and> pg_stored F w' = pg_stored F w"
  "p_build_source (pg_ports F) d w = (x2, w') \<Longrightarrow> pw_sink w' = pw_sink w \<and> pg_stored F w' = pg_stored F w"
  "p_build_sink (pg_ports F) d w = (x3, w') \<Longrightarrow> pw_sink w' = pw_sink w \<and> pg_stored F w' = pg_stored F w"
  "p_wait (pg_ports F) wk w = (b, w') \<Longrightarrow> pw_sink w' = pw_sink w \<and> pg_stored F w' = pg_stored F w"
  "p_load_cursor (pg_ports F) ts w = (x4, w') \<Longrightarrow> pw_sink w' = pw_sink w \<and> pg_stored F w' = pg_stored F w"
  "p_load_token (pg_ports F) w = (x5, w') \<Longrightarrow> pw_sink w' = pw_sink w \<and> pg_stored F w' = pg_stored F w"
  "p_read_batch (pg_ports F) d sc c w = (x6, w') \<Longrightarrow> pw_sink w' = pw_sink w \<and> pg_stored F w' = pg_stored F w"
  "p_save_token (pg_ports F) j dry w = (x7, w') \<Longrightarrow> pw_sink w' = pw_sink w \<and> pg_stored F w' = pg_stored F w"
  by (auto simp: pg_ports_def split: prod.splits dest!: call_silent [where F = F])

lemma pg_load_value:
  assumes "p_load_cursor (pg_ports F) ts w = (Completed (Inr c), w')"
  shows "c = pg_stored F w"
proof -
  have "\<exists>fs. (pg_load_cursor int64_dec (pf_name F) ts (pw_db (w\<lparr>pw_faults := fs\<rparr>)), w\<lparr>pw_faults := fs\<rparr>) = (Inr c, w')"
    by (rule call_value) (use assms in \<open>simp add: pg_ports_def\<close>)
  then show ?thesis using pg_load_stored [of F ts w c] by auto
qed

lemma pg_no_token: "p_load_token (pg_ports F) w \<noteq> (Completed (Inr t), w')"
proof
  assume "p_load_token (pg_ports F) w = (Completed (Inr t), w')"
  then have "call (\<lambda>w. (Inl (NotRegistered ''resume token''), w)) w = (Completed (Inr t), w')" by (simp add: pg_ports_def)
  from call_value [OF this] show False by simp
qed

lemma pg_write_call:
  "p_write_batch (pg_ports F) d k bt False = call (\<lambda>w. (Inr (), w\<lparr>pw_sink := pw_sink w @ b_rows bt\<rparr>))"
  by (simp add: pg_ports_def)

lemma pg_write:
  "p_write_batch (pg_ports F) d k bt False w = (x, w') \<Longrightarrow>
   set (pw_sink w) \<subseteq> set (pw_sink w') \<and> pg_stored F w' = pg_stored F w"
  "p_write_batch (pg_ports F) d k bt False w = (Completed (Inr u), w') \<Longrightarrow> set (b_rows bt) \<subseteq> set (pw_sink w')"
  unfolding pg_write_call by (drule call_effect, auto simp: pg_stored_def) (drule call_value, auto)

lemma pg_save:
  assumes "p_save_cursor (pg_ports F) c False w = (x, w')" "pg_cursor_ok F (Some c)"
  shows "pw_sink w' = pw_sink w \<and> (pg_stored F w' = pg_stored F w \<or> pg_stored F w' = Some c)"
proof -
  have "call (pg_save_op F c False) w = (x, w')"
    using assms(1) by (simp add: pg_ports_def)
  from call_effect [OF this] obtain fs where "(pw_sink w' = pw_sink w \<and> pw_db w' = pw_db w)
      \<or> (pw_sink w' = pw_sink (snd (pg_save_op F c False (w\<lparr>pw_faults := fs\<rparr>)))
         \<and> pw_db w' = pw_db (snd (pg_save_op F c False (w\<lparr>pw_faults := fs\<rparr>))))"
    by blast
  moreover obtain j where "pg_save_op F c False (w\<lparr>pw_faults := fs\<rparr>) =
      (Inr (), w\<lparr>pw_faults := fs, pw_db := (pw_db w)\<lparr>cursors := (cursors (pw_db w))(pf_name F \<mapsto> j)\<rparr>\<rparr>)"
    using pg_save_stored [OF assms(2), of "w\<lparr>pw_faults := fs\<rparr>"] by auto
  moreover have "pg_stored F (snd (pg_save_op F c False (w\<lparr>pw_faults := fs\<rparr>))) = Some c"
    using pg_save_stored [OF assms(2)] by blast
  ultimately show ?thesis by (auto simp: pg_stored_def)
qed

lemma pg_read_call: "p_read_batch (pg_ports F) d s c = call (\<lambda>w. (pg_read F c, w))"
  by (simp add: pg_ports_def)

lemma pg_delivery:
  assumes ok: "pg_flow_ok F"
  shows "delivery (pg_ports F) (\<lambda>w. set (pw_sink w)) (pg_stored F) (pg_covers F) (pg_cursor_ok F)"
proof (unfold_locales, goal_cases)
  case (10 d s c w bt w' c')
  then have "pg_read F c = Inr bt" using call_value [of "\<lambda>w. (pg_read F c, w)" w bt w'] by (auto simp: pg_read_call)
  then show ?case using pg_read_value [OF ok] 10 by blast
next
  case (15 c1 j)
  then show ?case
    by (cases c1) (auto simp: extract_resume_token_def pg_cursor_ok_def split: if_splits cursor_value.splits)
qed (auto dest: pg_quiet pg_load_value pg_write pg_save simp: pg_no_token pg_covers_def pg_cursor_ok_def)


text \<open>Every well-configured flow is a \<open>delivery\<close>.\<close>

locale pg_run =
  fixes F :: pg_flow
  assumes flow_ok: "pg_flow_ok F"

sublocale pg_run \<subseteq> delivery "pg_ports F" "\<lambda>w. set (pw_sink w)" "pg_stored F" "pg_covers F" "pg_cursor_ok F"
  by (rule pg_delivery [OF flow_ok])

context pg_run
begin

lemma covered_delivered:
  "pg_covers F c \<subseteq> delivered (pg_ports F) (\<lambda>w. set (pw_sink w)) w \<longleftrightarrow> pg_covers F c \<subseteq> set (pw_sink w)"
proof -
  have "x \<in> set (pw_sink w)" if "x \<in> pg_covers F c" "img (pg_ports F) x y" "y \<in> set (pw_sink w)" for x y
    using that by (auto simp: img_def pg_ports_def pg_covers_def to_flow_row_def split: option.splits)
  moreover have "x \<in> set (pw_sink w) \<Longrightarrow> \<exists>y \<in> set (pw_sink w). img (pg_ports F) x y" for x
    using img_refl by blast
  ultimately show ?thesis by (auto simp: delivered_def)
qed

lemma reachable_covered:
  assumes "pg_cursor_ok F (pg_stored F w0)" "pg_covers F (pg_stored F w0) \<subseteq> set (pw_sink w0)"
    and "run_reachable (pg_ports F) fl w0 (r, w)"
  shows "pg_covers F (pg_stored F w) \<subseteq> set (pw_sink w)"
  using reachable_inv [OF assms(3)] assms(1,2) by (simp add: cov_inv_def dlv_def covered_delivered)

end

text \<open>A flow over two rows, read one at a time.\<close>

definition demo_flow :: pg_flow where
  "demo_flow = \<lparr>pf_name = ''orders'',
     pf_spec = \<lparr>rs_table = ''t'', rs_columns = [''id''], rs_cursor_fields = [''id''], rs_order = Asc, rs_limit = 1\<rparr>,
     pf_nullable = [False], pf_table = [\<lambda>_. Some 9, \<lambda>_. Some 7]\<rparr>"

definition demo_config :: "run_mode \<Rightarrow> flow_config" where
  "demo_config m = \<lparr>fl_name = ''orders'', fl_persistence = ColumnCursor, fl_mode = m\<rparr>"

definition empty_world :: "fault list \<Rightarrow> pg_world" where
  "empty_world fs =
     \<lparr>pw_sink = [], pw_db = \<lparr>cursors = Map.empty, resume_tokens = Map.empty\<rparr>, pw_faults = fs, pw_shutdown = False\<rparr>"

lemma demo_ok: "pg_flow_ok demo_flow"
  by (auto simp: pg_flow_ok_def demo_flow_def unique_keys_def key_of_def respects_nullable_def int64_cell_def)

interpretation demo: pg_run demo_flow
  by unfold_locales (rule demo_ok)

text \<open>
  C18: at-least-once delivery of a PostgreSQL flow with an identity transform, a fixed table of
  nullable \<open>int64\<close> columns and a sink that appends, under these conditions (\<open>pg_flow_ok\<close>): the
  batch limit is positive; the cursor fields are distinct selected columns; no two rows of the
  table have the same cursor key; a cursor column declared \<open>NOT NULL\<close> holds no null; cursor
  cells are 64-bit. Whatever faults hit the source, the sink and the storage, in whatever order
  and however often the process restarts, from a world whose persisted cursor is covered by the
  sink (for instance none): every row of the table at or before the persisted cursor is in the
  sink. Distinct keys are necessary: of two rows with one key, a batch limit of one reads only
  the first before the cursor passes both.
\<close>

theorem pg_flow_at_least_once:
  assumes "pg_flow_ok F" and "pg_cursor_ok F (pg_stored F w0)"
    and "pg_covers F (pg_stored F w0) \<subseteq> set (pw_sink w0)"
    and "run_reachable (pg_ports F) fl w0 (r, w)"
  shows "pg_covers F (pg_stored F w) \<subseteq> set (pw_sink w)"
  by (rule pg_run.reachable_covered [OF pg_run.intro [OF assms(1)] assms(2-4)])


text \<open>The contexts are built, the cursor loaded, a batch read and written, and the save of the
  cursor runs into the timeout after it has taken effect.\<close>

theorem pg_flow_at_least_once_witness:
  "case run_iteration (pg_ports demo_flow) (demo_config Daemon)
      (runner_new (), empty_world [Fine, Fine, Fine, Fine, Fine, Late True]) of
     (ctl, r, w) \<Rightarrow> pg_covers demo_flow (pg_stored demo_flow w) \<subseteq> set (pw_sink w)"
proof -
  let ?w = "empty_world [Fine, Fine, Fine, Fine, Fine, Late True]"
  obtain ctl r w where it: "run_iteration (pg_ports demo_flow) (demo_config Daemon) (runner_new (), ?w) = (ctl, r, w)"
    by (metis prod.exhaust)
  have "pg_covers demo_flow (pg_stored demo_flow w) \<subseteq> set (pw_sink w)"
    by (rule pg_flow_at_least_once [OF demo_ok _ _ run_reachable.iterate [OF run_reachable.start it]])
      (simp_all add: pg_stored_def empty_world_def pg_cursor_ok_def pg_covers_def)
  with it show ?thesis by simp
qed

text \<open>The general theorem, of any connectors that keep the contract, holds of this flow.\<close>

theorem at_least_once_delivery_witness:
  "case run_iteration (pg_ports demo_flow) (demo_config Daemon)
      (runner_new (), empty_world [Fine, Fine, Fine, Fine, Broken (Backend ''sink'') True]) of
     (ctl, r, w) \<Rightarrow> pg_covers demo_flow (pg_stored demo_flow w) \<subseteq>
       delivered (pg_ports demo_flow) (\<lambda>w. set (pw_sink w)) w"
proof -
  let ?w = "empty_world [Fine, Fine, Fine, Fine, Broken (Backend ''sink'') True]"
  obtain ctl r w where it: "run_iteration (pg_ports demo_flow) (demo_config Daemon) (runner_new (), ?w) = (ctl, r, w)"
    by (metis prod.exhaust)
  have "pg_covers demo_flow (pg_stored demo_flow w) \<subseteq> delivered (pg_ports demo_flow) (\<lambda>w. set (pw_sink w)) w"
    by (rule at_least_once_delivery [OF demo.delivery_axioms _ _ run_reachable.iterate [OF run_reachable.start it]])
      (simp_all add: pg_stored_def empty_world_def pg_cursor_ok_def pg_covers_def)
  with it show ?thesis by simp
qed


text \<open>A failing build of the source context: the runner waits one second, then four.\<close>

lemma demo_tick_fails:
  "tick (pg_ports demo_flow) (demo_config m) False (runner_new (), empty_world [Broken (Backend ''down'') False]) =
     (Inl (Backend ''down''), (runner_new (), empty_world []))"
  by (simp add: tick_def and_then_def ensure_built_def build_source_ctx_def lift_io_def runner_new_def pg_ports_def
    call_def empty_world_def with_timeout_def)


theorem backoff_bounded_witness:
  "case run_iteration (pg_ports demo_flow) (demo_config Daemon) (runner_new (), empty_world [Broken (Backend ''down'') False]) of
     (ctl, r, w) \<Rightarrow> ru_backoff r \<le> 3600 \<and> ru_backoff r = 4"
proof -
  let ?w = "empty_world [Broken (Backend ''down'') False]"
  have it: "run_iteration (pg_ports demo_flow) (demo_config Daemon) (runner_new (), ?w) =
      (Looping, (runner_new ()\<lparr>ru_backoff := 4\<rparr>, empty_world []))"
    unfolding run_iteration_def demo_tick_fails
    by (simp add: demo_config_def should_drop_ctx_on_def pg_ports_def empty_world_def runner_new_def
      BACKOFF_INITIAL_def BACKOFF_MULTIPLIER_def BACKOFF_CAP_def)
  from backoff_bounded [OF run_reachable.iterate [OF run_reachable.start it]] it show ?thesis by simp
qed

end
