(* ===== verification/PgComplete.thy ===== *)
theory PgComplete
  imports PgFlow
begin

text \<open>
  A PostgreSQL flow that meets no fault: run once, it ends, and it delivers every row of the
  table exactly once and in the order of the cursor.
\<close>

section \<open>A tick without faults\<close>

lemma call_fine: "pw_faults w = [] \<Longrightarrow> call op w = (Completed (fst (op w)), snd (op w))"
  by (simp add: call_def split_beta)

lemma pg_schema_find: "name \<in> set (rs_columns (pf_spec F)) \<Longrightarrow> schema_find (pg_schema F) name \<noteq> None"
  by (auto simp: pg_schema_def schema_find_build schema_new_def find_None_iff)

lemma resolve_ok:
  "set names \<subseteq> set (rs_columns (pf_spec F)) \<Longrightarrow> \<exists>ts. resolve_fields (Some (pg_schema F)) False names = Inr ts"
proof (induction names)
  case (Cons n names)
  then obtain f ts where "schema_find (pg_schema F) n = Some f" "resolve_fields (Some (pg_schema F)) False names = Inr ts"
    using pg_schema_find [of n F] by auto
  then show ?case by simp
qed simp

definition built :: "('v, unit, unit, unit) runner \<Rightarrow> ('v, unit, unit, unit) runner" where
  "built r = r\<lparr>ru_source_ctx := Some (), ru_sink_ctx := Some ()\<rparr>"

lemma built_simps [simp]:
  "ru_source_ctx (built r) = Some ()" "ru_sink_ctx (built r) = Some ()" "ru_cursor (built r) = ru_cursor r"
  "built (built r) = built r"
  by (simp_all add: built_def)

lemma ensure_built_fine:
  fixes r :: "(int option, unit, unit, unit) runner"
  assumes "pw_faults w = []"
  shows "ensure_built (pg_ports F) (r, w) = (Inr (), (built r, w))"
  by (cases "ru_source_ctx r"; cases "ru_sink_ctx r")
    (auto simp: ensure_built_def build_source_ctx_def build_sink_ctx_def rebuild_derived_def and_then_def lift_io_def
      ret_def pg_ports_def call_fine assms with_timeout_def built_def Let_def)

lemma load_cursor_fine:
  assumes "pw_faults w = []" "fl_persistence fl = ColumnCursor" "pg_flow_ok F"
    and "ru_cursor r = None \<longrightarrow> cursors (pw_db w) (pf_name F) = None"
  shows "load_cursor (pg_ports F) fl (built r, w) = (Inr (), (built r, w))"
proof -
  obtain ts where ts: "resolve_fields (Some (pg_schema F)) False (rs_cursor_fields (pf_spec F)) = Inr ts"
    using resolve_ok [of "rs_cursor_fields (pf_spec F)" F] assms(3) by (auto simp: pg_flow_ok_def)
  show ?thesis
  proof (cases "ru_cursor r")
    case None
    then have "built r\<lparr>ru_cursor := None\<rparr> = built r" by (simp add: built_def)
    with None ts assms show ?thesis
      by (simp add: load_cursor_def and_then_def lift_io_def timed_def ret_def pg_ports_def resolve_cursor_types_def
        call_fine with_timeout_def pg_load_cursor_def)
  qed (simp add: load_cursor_def ret_def)
qed

lemma read_fine:
  assumes "pw_faults w = []" "pg_read F (ru_cursor r) = Inr b"
  shows "read_step (pg_ports F) fl False (built r, w) = (Inr b, (built r, w))"
    and "transform_step (pg_ports F) b (built r, w) = (Inr b, (built r, w))"
proof -
  show "read_step (pg_ports F) fl False (built r, w) = (Inr b, (built r, w))"
    using assms by (simp add: read_step_def expect_ctx_def and_then_def lift_io_def timed_def ret_def pg_ports_def
      call_fine with_timeout_def)
  obtain rows where "b_rows b = map (to_flow_row (rs_columns (pf_spec F))) rows" by (rule pg_read_batch [OF assms(2)])
  then have "list_all (\<lambda>r. r_body r = None) (b_rows b)" by (simp add: list_all_iff to_flow_row_def)
  then show "transform_step (pg_ports F) b (built r, w) = (Inr b, (built r, w))"
    by (simp add: transform_step_def transform_apply_def pg_ports_def)
qed

text \<open>The world and the runner after a batch.\<close>

definition wrote :: "pg_flow \<Rightarrow> int option batch \<Rightarrow> int option cursor \<Rightarrow> pg_world \<Rightarrow> pg_world" where
  "wrote F b c w = snd (pg_save_op F c False (w\<lparr>pw_sink := pw_sink w @ b_rows b\<rparr>))"

lemma save_op_frame [simp]:
  "pw_sink (snd (pg_save_op F c d w)) = pw_sink w" "pw_faults (snd (pg_save_op F c d w)) = pw_faults w"
  "pw_shutdown (snd (pg_save_op F c d w)) = pw_shutdown w"
  by (simp_all add: pg_save_op_def split: prod.splits)

lemma pg_read_next_ok:
  assumes "pg_flow_ok F" "pg_read F cur = Inr b" "b_next b = Some c"
  shows "pg_cursor_ok F (Some c)"
proof -
  obtain rows where rows: "read_batch 0 (pf_spec F) (pf_nullable F) (pf_table F) (map_option of_cursor cur)
      (rows, next_cursor (rs_cursor_fields (pf_spec F)) rows)"
      "b_next b = map_option to_cursor (next_cursor (rs_cursor_fields (pf_spec F)) rows)"
    by (rule pg_read_batch [OF assms(2)])
  then obtain n where "next_cursor (rs_cursor_fields (pf_spec F)) rows = Some n" "c = to_cursor n"
    using assms(3) by (metis map_option_eq_Some)
  with next_cursor_ok [OF assms(1) read_batch_rows [OF rows(1)]] show ?thesis by blast
qed

lemma save_fine:
  assumes "pg_flow_ok F" "pg_read F cur = Inr b" "b_next b = Some c"
  obtains w' where "pg_save_op F c False w = (Inr (), w')"
  using pg_save_stored [OF pg_read_next_ok [OF assms], of w] by blast

lemma tick_fine:
  assumes "pw_faults w = []" "\<not> pw_shutdown w" "fl_persistence fl = ColumnCursor" "pg_flow_ok F"
    and "ru_cursor r = None \<longrightarrow> cursors (pw_db w) (pf_name F) = None"
    and "pg_read F (ru_cursor r) = Inr b"
  shows "b_rows b = [] \<Longrightarrow> tick (pg_ports F) fl False (r, w) =
      (Inr (if fl_mode fl = Once then Exit else Idle), (built r, w))"
    and "b_rows b \<noteq> [] \<Longrightarrow> b_next b = Some c \<Longrightarrow> tick (pg_ports F) fl False (r, w) =
      (Inr (if length (b_rows b) < rs_limit (pf_spec F) \<and> fl_mode fl = Once then Exit else Continue),
       (built r\<lparr>ru_cursor := Some c\<rparr>, wrote F b c w))"
proof -
  have shut: "p_shutdown (pg_ports F) = pw_shutdown" by (simp add: pg_ports_def)
  have t: "tick (pg_ports F) fl False (r, w) = finish_tick (pg_ports F) fl b False (built r, w)"
    using assms(2) unfolding tick_def and_then_def ensure_built_fine [OF assms(1)]
    by (simp add: shut load_cursor_fine [OF assms(1,3,4,5)] read_fine [OF assms(1,6)])
  show "b_rows b = [] \<Longrightarrow> tick (pg_ports F) fl False (r, w) =
      (Inr (if fl_mode fl = Once then Exit else Idle), (built r, w))"
    by (simp add: t finish_tick_def ret_def)
  assume b: "b_rows b \<noteq> []" "b_next b = Some c"
  obtain w' where "pg_save_op F c False (w\<lparr>pw_sink := pw_sink w @ b_rows b\<rparr>) = (Inr (), w')"
    by (rule save_fine [OF assms(4,6) b(2)])
  with assms(1,3) b show "tick (pg_ports F) fl False (r, w) =
      (Inr (if length (b_rows b) < rs_limit (pf_spec F) \<and> fl_mode fl = Once then Exit else Continue),
       (built r\<lparr>ru_cursor := Some c\<rparr>, wrote F b c w))"
    unfolding t
    by (simp add: finish_tick_def write_and_commit_def commit_cursor_def expect_ctx_def and_then_def lift_io_def timed_def
      ret_def pg_ports_def call_fine with_timeout_def wrote_def)
qed


section \<open>The batches of a whole run\<close>

definition sorted_table :: "pg_flow \<Rightarrow> int row list" where
  "sorted_table F =
     sort_by (\<lambda>a b. cursor_cmp (rs_order (pf_spec F)) (key_of (rs_cursor_fields (pf_spec F)) a) (key_of (rs_cursor_fields (pf_spec F)) b))
       (pf_table F)"

text \<open>The order is one for which the \<open>WHERE\<close> is exact; the keys of the table's rows are distinct.\<close>

definition exact_flow :: "pg_flow \<Rightarrow> bool" where
  "exact_flow F \<longleftrightarrow>
     (rs_order (pf_spec F) = Asc \<or> length (rs_cursor_fields (pf_spec F)) = 1 \<or> \<not> list_ex (\<lambda>n. n) (pf_nullable F))
     \<and> distinct (map (key_of (rs_cursor_fields (pf_spec F))) (pf_table F))"

definition key_less :: "pg_flow \<Rightarrow> int row \<Rightarrow> int row \<Rightarrow> bool" where
  "key_less F a b \<longleftrightarrow>
     cursor_cmp (rs_order (pf_spec F)) (key_of (rs_cursor_fields (pf_spec F)) a) (key_of (rs_cursor_fields (pf_spec F)) b) = Less"

lemma key_less_asym: "key_less F a b \<Longrightarrow> \<not> key_less F b a"
  unfolding key_less_def by (metis key_asc.cmp_less_trans key_asc.cmp_irrefl)

lemma after_key_less:
  "after_key (rs_order (pf_spec F)) (key_of (rs_cursor_fields (pf_spec F)) a) (key_of (rs_cursor_fields (pf_spec F)) b)
    \<longleftrightarrow> key_less F b a"
  unfolding key_less_def after_key_def
  using key_asc.cmp_swap [of "rs_order (pf_spec F)" "key_of (rs_cursor_fields (pf_spec F)) a" "key_of (rs_cursor_fields (pf_spec F)) b"]
  by (cases "cursor_cmp (rs_order (pf_spec F)) (key_of (rs_cursor_fields (pf_spec F)) b) (key_of (rs_cursor_fields (pf_spec F)) a)")
    simp_all

lemma sorted_strict:
  assumes "sorted_wrt (\<lambda>a b. cursor_cmp (rs_order (pf_spec F)) (key_of (rs_cursor_fields (pf_spec F)) a)
      (key_of (rs_cursor_fields (pf_spec F)) b) \<noteq> Greater) xs" "distinct (map (key_of (rs_cursor_fields (pf_spec F))) xs)"
  shows "sorted_wrt (key_less F) xs"
  using assms
proof (induction xs)
  case (Cons x xs)
  have "key_less F x y" if y: "y \<in> set xs" for y
    using Cons.prems y key_asc.cmp_Equal [of "rs_order (pf_spec F)" "key_of (rs_cursor_fields (pf_spec F)) x" "key_of (rs_cursor_fields (pf_spec F)) y"]
    unfolding key_less_def
    by (cases "cursor_cmp (rs_order (pf_spec F)) (key_of (rs_cursor_fields (pf_spec F)) x) (key_of (rs_cursor_fields (pf_spec F)) y)") auto
  with Cons show ?case by simp
qed simp

lemma sort_strict:
  assumes "distinct (map (key_of (rs_cursor_fields (pf_spec F))) rows)"
  shows "sorted_wrt (key_less F) (sort_by (\<lambda>a b. cursor_cmp (rs_order (pf_spec F)) (key_of (rs_cursor_fields (pf_spec F)) a)
      (key_of (rs_cursor_fields (pf_spec F)) b)) rows)"
proof (rule sorted_strict [OF key_asc.sorted_sort_by_key])
  show "distinct (map (key_of (rs_cursor_fields (pf_spec F))) (sort_by (\<lambda>a b. cursor_cmp (rs_order (pf_spec F))
      (key_of (rs_cursor_fields (pf_spec F)) a) (key_of (rs_cursor_fields (pf_spec F)) b)) rows))"
    by (rule mset_eq_imp_distinct_iff [THEN iffD1, OF _ assms]) (simp only: mset_map mset_sort_by)
qed

lemma filter_after:
  assumes "sorted_wrt R xs" "\<And>a b. R a b \<Longrightarrow> \<not> R b a" "n < length xs"
  shows "{x \<in> set xs. R (xs ! n) x} = set (drop (Suc n) xs)"
proof -
  have split: "xs = take n xs @ xs ! n # drop (Suc n) xs" using assms(3) by (rule id_take_nth_drop)
  then have "sorted_wrt R (take n xs @ xs ! n # drop (Suc n) xs)" using assms(1) by simp
  then have "\<forall>x \<in> set (drop (Suc n) xs). R (xs ! n) x" "\<forall>x \<in> set (take n xs). R x (xs ! n)"
    unfolding sorted_wrt_append by simp_all
  moreover have "set xs = set (take n xs) \<union> {xs ! n} \<union> set (drop (Suc n) xs)" by (subst split) simp
  ultimately show ?thesis using assms(2) by blast
qed

text \<open>The cursor after the first \<open>n\<close> rows.\<close>

definition cursor_at :: "pg_flow \<Rightarrow> nat \<Rightarrow> int cursor_state option" where
  "cursor_at F n =
     (if n = 0 then None
      else Some (zip (rs_cursor_fields (pf_spec F)) (key_of (rs_cursor_fields (pf_spec F)) (sorted_table F ! (n - 1)))))"


lemma sorted_table_set [simp]: "set (sorted_table F) = set (pf_table F)" "length (sorted_table F) = length (pf_table F)"
proof -
  show "set (sorted_table F) = set (pf_table F)" by (simp add: sorted_table_def)
  have "mset (sorted_table F) = mset (pf_table F)" by (simp add: sorted_table_def)
  then show "length (sorted_table F) = length (pf_table F)" by (rule mset_eq_length)
qed

lemma selected_at:
  assumes ok: "pg_flow_ok F" and ex: "exact_flow F" and n: "n < length (pf_table F)" and r: "r \<in> set (pf_table F)"
  defines "st \<equiv> zip (rs_cursor_fields (pf_spec F)) (key_of (rs_cursor_fields (pf_spec F)) (sorted_table F ! n))"
  assumes q: "build_read_batch (rs_table (pf_spec F)) (rs_columns (pf_spec F)) (rs_cursor_fields (pf_spec F))
      (rs_order (pf_spec F)) (Some st) (pf_nullable F) = Inr q"
  shows "selected st q r \<longleftrightarrow> key_less F (sorted_table F ! n) r"
proof -
  let ?cf = "rs_cursor_fields (pf_spec F)" and ?s = "sorted_table F ! n"
  have s: "?s \<in> set (pf_table F)" using n nth_mem [of n "sorted_table F"] by simp
  have nn: "\<not> list_ex (\<lambda>n. n) (pf_nullable F) \<Longrightarrow> None \<notin> set (key_of ?cf x)" if "x \<in> set (pf_table F)" for x
    using that ok respects_nullable_key [of ?cf "pf_nullable F" x] by (simp add: pg_flow_ok_def)
  have "snd ` set st \<subseteq> set (key_of ?cf ?s)" by (auto simp: st_def dest: set_zip_rightD)
  then have "exact_order (rs_order (pf_spec F)) ?cf (pf_nullable F) r st"
    using ex nn [OF r] nn [OF s] by (auto simp: exact_flow_def exact_order_def)
  moreover have "map snd st = key_of ?cf ?s" by (simp add: st_def key_of_def)
  ultimately show ?thesis
    using selected_exact [OF q, of st r] cursor_values_zip [of ?cf ?s] nn [OF r] by (simp add: st_def after_key_less)
qed

lemma sort_suffix:
  assumes ex: "exact_flow F" and s: "set (filter p (pf_table F)) = set (drop n (sorted_table F))"
  shows "sort_by (\<lambda>a b. cursor_cmp (rs_order (pf_spec F)) (key_of (rs_cursor_fields (pf_spec F)) a)
      (key_of (rs_cursor_fields (pf_spec F)) b)) (filter p (pf_table F)) = drop n (sorted_table F)"
proof (rule sorted_wrt_unique [where R = "key_less F", OF _ _ _ key_less_asym])
  have d: "distinct (map (key_of (rs_cursor_fields (pf_spec F))) (pf_table F))" using ex by (simp add: exact_flow_def)
  show "sorted_wrt (key_less F) (sort_by (\<lambda>a b. cursor_cmp (rs_order (pf_spec F)) (key_of (rs_cursor_fields (pf_spec F)) a)
      (key_of (rs_cursor_fields (pf_spec F)) b)) (filter p (pf_table F)))"
    by (rule sort_strict [OF distinct_map_filter [OF d]])
  show "sorted_wrt (key_less F) (drop n (sorted_table F))"
    unfolding sorted_table_def by (rule sorted_wrt_drop [OF sort_strict [OF d]])
  show "set (sort_by (\<lambda>a b. cursor_cmp (rs_order (pf_spec F)) (key_of (rs_cursor_fields (pf_spec F)) a)
      (key_of (rs_cursor_fields (pf_spec F)) b)) (filter p (pf_table F))) = set (drop n (sorted_table F))"
    using s by (simp only: set_sort_by)
qed

lemma pg_read_at:
  assumes ok: "pg_flow_ok F" and ex: "exact_flow F" and n: "n \<le> length (pf_table F)"
  shows "pg_read F (map_option to_cursor (cursor_at F n)) =
     Inr \<lparr>b_rows = map (to_flow_row (rs_columns (pf_spec F))) (take (rs_limit (pf_spec F)) (drop n (sorted_table F))),
          b_next = map_option to_cursor
            (next_cursor (rs_cursor_fields (pf_spec F)) (take (rs_limit (pf_spec F)) (drop n (sorted_table F))))\<rparr>"
proof -
  let ?cf = "rs_cursor_fields (pf_spec F)" and ?st = "case cursor_at F n of None \<Rightarrow> [] | Some c \<Rightarrow> c"
  have "\<exists>q. build_read_batch (rs_table (pf_spec F)) (rs_columns (pf_spec F)) ?cf (rs_order (pf_spec F)) (cursor_at F n) (pf_nullable F) = Inr q"
    by (auto simp: cursor_at_def build_read_batch_def cursor_values_zip split: prod.split)
  then obtain q where q: "build_read_batch (rs_table (pf_spec F)) (rs_columns (pf_spec F)) ?cf (rs_order (pf_spec F))
      (cursor_at F n) (pf_nullable F) = Inr q" by blast
  have "map_option of_cursor (map_option to_cursor (cursor_at F n)) = cursor_at F n"
    by (cases "cursor_at F n") simp_all
  moreover have "read_plan 0 (pf_spec F) (pf_nullable F) (cursor_at F n) = Inr q"
    using q read_plan_fresh [of "cursor_at F n" "pf_spec F" 0 "pf_nullable F"] by (auto simp: cursor_at_def key_of_def)
  moreover have "(case map_option to_cursor (cursor_at F n) of None \<Rightarrow> [] | Some c \<Rightarrow> of_cursor c) = ?st"
    by (cases "cursor_at F n") simp_all
  moreover have "pg_fetch (pf_spec F) q ?st (pf_table F) = take (rs_limit (pf_spec F)) (drop n (sorted_table F))"
    unfolding pg_fetch_def
  proof (rule arg_cong [where f = "take (rs_limit (pf_spec F))"], rule sort_suffix [OF ex], cases n)
    case 0
    then show "set (filter (selected ?st q) (pf_table F)) = set (drop n (sorted_table F))"
      using q by (auto simp: cursor_at_def build_read_batch_def selected_def eval_where_def)
  next
    case (Suc m)
    have strict: "sorted_wrt (key_less F) (sorted_table F)"
      unfolding sorted_table_def using sort_strict ex by (simp add: exact_flow_def)
    have "{r \<in> set (sorted_table F). key_less F (sorted_table F ! m) r} = set (drop (Suc m) (sorted_table F))"
      by (rule filter_after [OF strict key_less_asym]) (use n Suc in simp_all)
    then show "set (filter (selected ?st q) (pf_table F)) = set (drop n (sorted_table F))"
      using selected_at [OF ok ex, of m] n Suc q by (auto simp: cursor_at_def)
  qed
  ultimately show ?thesis by (simp add: pg_read_def Let_def)
qed


lemma next_cursor_at:
  assumes "n < length (pf_table F)" "0 < l"
  shows "next_cursor (rs_cursor_fields (pf_spec F)) (take l (drop n (sorted_table F))) =
    cursor_at F (n + min l (length (pf_table F) - n))"
proof -
  let ?m = "min l (length (pf_table F) - n)"
  have ne: "take l (drop n (sorted_table F)) \<noteq> []" using assms by simp
  have "last (take l (drop n (sorted_table F))) = take l (drop n (sorted_table F)) ! (?m - 1)"
    using ne by (simp add: last_conv_nth min.commute)
  also have "\<dots> = sorted_table F ! (n + ?m - 1)" using assms by (simp add: min_def)
  finally show ?thesis using ne assms by (simp add: next_cursor_def cursor_at_def)
qed

lemma run_from:
  assumes ok: "pg_flow_ok F" and ex: "exact_flow F" and fl: "fl_persistence fl = ColumnCursor" "fl_mode fl = Once"
    and n: "n \<le> length (pf_table F)" and w: "pw_faults w = []" "\<not> pw_shutdown w"
    and r: "ru_cursor r = map_option to_cursor (cursor_at F n)" "n = 0 \<Longrightarrow> cursors (pw_db w) (pf_name F) = None"
  shows "\<exists>r' w'. run_loop (Suc ((length (pf_table F) - n) div rs_limit (pf_spec F))) (pg_ports F) fl (r, w) = (Some (Inr ()), (r', w'))
    \<and> pw_sink w' = pw_sink w @ map (to_flow_row (rs_columns (pf_spec F))) (drop n (sorted_table F))"
  using n w r
proof (induction "length (pf_table F) - n" arbitrary: n r w rule: less_induct)
  case less
  let ?l = "rs_limit (pf_spec F)" and ?left = "length (pf_table F) - n"
  have l: "0 < ?l" using ok by (simp add: pg_flow_ok_def)
  define rows where "rows = take ?l (drop n (sorted_table F))"
  define b where "b = \<lparr>b_rows = map (to_flow_row (rs_columns (pf_spec F))) rows,
          b_next = map_option to_cursor (next_cursor (rs_cursor_fields (pf_spec F)) rows)\<rparr>"
  have rd: "pg_read F (ru_cursor r) = Inr b"
    using pg_read_at [OF ok ex less.prems(1)] less.prems(4) by (simp add: rows_def b_def)
  have len: "length rows = min ?l ?left" by (simp add: rows_def min.commute)
  have fresh: "ru_cursor r = None \<longrightarrow> cursors (pw_db w) (pf_name F) = None"
    using less.prems(4,5) by (simp add: cursor_at_def split: if_splits)
  note T = tick_fine [OF less.prems(2,3) fl(1) ok fresh rd]
  show ?case
  proof (cases "?left = 0")
    case True
    then have "tick (pg_ports F) fl False (r, w) = (Inr Exit, (built r, w))"
      using T(1) len fl(2) by (simp add: b_def)
    with True show ?thesis by (simp add: run_iteration_def)
  next
    case False
    then have lt: "n < length (pf_table F)" by simp
    define c where "c = to_cursor (the (cursor_at F (n + min ?l ?left)))"
    have nxt: "b_next b = Some c" "cursor_at F (n + min ?l ?left) \<noteq> None"
      using next_cursor_at [OF lt l] l lt by (simp_all add: b_def c_def rows_def cursor_at_def)
    have ne: "b_rows b \<noteq> []" using len l lt by (auto simp: b_def)
    note step = T(2) [OF ne nxt(1)]
    have sink: "pw_sink (wrote F b c w) = pw_sink w @ map (to_flow_row (rs_columns (pf_spec F))) rows"
      by (simp add: wrote_def b_def)
    show ?thesis
    proof (cases "?left < ?l")
      case True
      then have "rows = drop n (sorted_table F)" by (simp add: rows_def)
      with True step fl(2) sink len show ?thesis by (simp add: run_iteration_def b_def)
    next
      case big: False
      define r' where "r' = built r\<lparr>ru_cursor := Some c\<rparr>\<lparr>ru_backoff := BACKOFF_INITIAL\<rparr>"
      have it: "run_iteration (pg_ports F) fl (r, w) = (Looping, (r', wrote F b c w))"
        using step big len by (simp add: run_iteration_def b_def r'_def)
      have "\<exists>r'' w'. run_loop (Suc ((length (pf_table F) - (n + ?l)) div ?l)) (pg_ports F) fl (r', wrote F b c w) = (Some (Inr ()), (r'', w'))
        \<and> pw_sink w' = pw_sink (wrote F b c w) @ map (to_flow_row (rs_columns (pf_spec F))) (drop (n + ?l) (sorted_table F))"
        by (rule less.hyps) (use big l less.prems nxt in \<open>auto simp: wrote_def r'_def c_def min_def\<close>)
      moreover have "?left div ?l = Suc ((length (pf_table F) - (n + ?l)) div ?l)"
        using big l by (simp add: div_if [of ?left ?l] diff_diff_eq)
      moreover have "drop n (sorted_table F) = rows @ drop (n + ?l) (sorted_table F)"
        using append_take_drop_id [of ?l "drop n (sorted_table F)"] by (simp add: rows_def add.commute)
      ultimately show ?thesis using it sink by (auto simp del: run_loop.simps(2) simp: run_loop.simps(2) [of _ "pg_ports F" fl "(r, w)"])
    qed
  qed
qed


text \<open>
  C19: a run to the end, of the same flows (\<open>pg_flow_ok\<close>: positive limit, distinct cursor fields
  among the columns, \<open>NOT NULL\<close> respected, 64-bit cursor cells) whose rows have pairwise distinct
  cursor keys and whose cursor is ascending, or has one column, or has no nullable column
  (\<open>exact_flow\<close>; a descending cursor over several columns of which one is nullable is excluded:
  it can read the same rows for ever). Without faults, such a flow in \<open>Once\<close> mode with a column
  cursor and none persisted stops by itself within \<open>|table| div limit + 1\<close> ticks, and the sink has
  then received every row of the table exactly once, in the order of the cursor.
\<close>

theorem pg_flow_once_complete:
  assumes "pg_flow_ok F" and "exact_flow F"
    and "fl_persistence fl = ColumnCursor" and "fl_mode fl = Once"
    and "pw_faults w = []" and "\<not> pw_shutdown w" and "cursors (pw_db w) (pf_name F) = None"
  shows "\<exists>r' w'. runner_run (Suc (length (pf_table F) div rs_limit (pf_spec F))) (pg_ports F) fl offset (runner_new (), w) = (Some (Inr ()), (r', w'))
    \<and> pw_sink w' = pw_sink w @ map (to_flow_row (rs_columns (pf_spec F))) (sorted_table F)"
  using run_from [OF assms(1-4) _ assms(5,6), of 0 "runner_new ()"] assms(4,7)
  by (simp add: runner_run_def cursor_at_def runner_new_def)

theorem pg_flow_once_complete_witness:
  "\<exists>r' w'. runner_run 3 (pg_ports demo_flow) (demo_config Once) 0 (runner_new (), empty_world []) = (Some (Inr ()), (r', w'))
    \<and> map r_values (pw_sink w') = [[Some 7], [Some 9]]"
proof -
  have "exact_flow demo_flow"
    by (simp add: exact_flow_def demo_flow_def key_of_def)
  note run = pg_flow_once_complete [OF demo_ok this, of "demo_config Once" "empty_world []" 0]
  have fuel: "Suc (length (pf_table demo_flow) div rs_limit (pf_spec demo_flow)) = 3" by (simp add: demo_flow_def)
  have "\<exists>r' w'. runner_run 3 (pg_ports demo_flow) (demo_config Once) 0 (runner_new (), empty_world []) = (Some (Inr ()), (r', w'))
    \<and> pw_sink w' = pw_sink (empty_world []) @ map (to_flow_row (rs_columns (pf_spec demo_flow))) (sorted_table demo_flow)"
    unfolding fuel [symmetric] by (rule run) (simp_all add: demo_config_def empty_world_def)
  moreover have "map r_values (map (to_flow_row (rs_columns (pf_spec demo_flow))) (sorted_table demo_flow)) = [[Some 7], [Some 9]]"
    by (simp add: demo_flow_def sorted_table_def sort_by_def key_of_def cursor_cmp_def cmp_lin_def to_flow_row_def)
  ultimately show ?thesis by (metis append_Nil empty_world_def pg_world.select_convs(1))
qed


text \<open>After a first iteration of the daemon both contexts are in place.\<close>

theorem plans_match_contexts_witness:
  "\<exists>r w. run_reachable (pg_ports demo_flow) (demo_config Daemon) (empty_world []) (r, w)
     \<and> ru_source_ctx r = Some () \<and> ru_sink_ctx r = Some () \<and> plan_of (pg_ports demo_flow) () () = Inr (ru_derived r)"
proof -
  have ex: "exact_flow demo_flow" by (simp add: exact_flow_def demo_flow_def key_of_def)
  let ?r = "runner_new () :: (int option, unit, unit, unit) runner" and ?w = "empty_world []"
  define b where "b = \<lparr>b_rows = map (to_flow_row (rs_columns (pf_spec demo_flow))) (take (rs_limit (pf_spec demo_flow)) (drop 0 (sorted_table demo_flow))),
          b_next = map_option to_cursor
            (next_cursor (rs_cursor_fields (pf_spec demo_flow)) (take (rs_limit (pf_spec demo_flow)) (drop 0 (sorted_table demo_flow))))\<rparr>"
  have rd: "pg_read demo_flow (ru_cursor ?r) = Inr b"
    using pg_read_at [OF demo_ok ex, of 0] by (simp add: b_def cursor_at_def runner_new_def)
  have "take (rs_limit (pf_spec demo_flow)) (drop 0 (sorted_table demo_flow)) \<noteq> []"
  proof -
    have "rs_limit (pf_spec demo_flow) = 1" "length (pf_table demo_flow) = 2" by (simp_all add: demo_flow_def)
    moreover from this have "sorted_table demo_flow \<noteq> []" using sorted_table_set(2) [of demo_flow] by force
    ultimately show ?thesis by simp
  qed
  then obtain c where c: "b_rows b \<noteq> []" "b_next b = Some c" by (auto simp: b_def next_cursor_def)
  have "tick (pg_ports demo_flow) (demo_config Daemon) False (?r, ?w) =
      (Inr Continue, (built ?r\<lparr>ru_cursor := Some c\<rparr>, wrote demo_flow b c ?w))"
    using tick_fine(2) [OF _ _ _ demo_ok _ rd c, of ?w "demo_config Daemon"] by (simp add: empty_world_def demo_config_def)
  then have it: "run_iteration (pg_ports demo_flow) (demo_config Daemon) (?r, ?w) =
      (Looping, (built ?r\<lparr>ru_cursor := Some c\<rparr>\<lparr>ru_backoff := BACKOFF_INITIAL\<rparr>, wrote demo_flow b c ?w))"
    by (simp add: run_iteration_def)
  note reach = run_reachable.iterate [OF run_reachable.start it]
  from plans_match_contexts [OF reach, of "()" "()"] reach show ?thesis
    by (intro exI conjI) (auto simp: demo_config_def)
qed

end
