(* ===== verification/OptExpr.thy ===== *)
theory OptExpr
  imports ValueText
begin

text \<open>
  The intermediate representation of the expression optimizer (\<open>crates/expr/optimize\<close>): the
  function registry it resolves calls against (\<open>crates/expr/funcs\<close>), the tree \<open>OptExpr\<close> with
  its structural equality and scans (\<open>model/opt_expr.rs\<close>, \<open>util\<close>), and what a tree means.

  A node's \<open>NodeId\<close> is not modelled: structural equality excludes it and no rewrite rule
  reads it. The meaning of a tree is the evaluation the compacted program has
  (\<open>engines/evaluator.rs\<close>), on the tree itself: arguments from left to right, conditionals
  and the boolean operators lazily, three-valued \<open>&&\<close> and \<open>||\<close>, every error a value. The state
  is the register file and the world that impure functions read and change; a run that fails
  has no state. A \<open>Field\<close> node is not executable: the
  evaluator answers \<open>FieldNotBound\<close>, which is the reading with \<open>env_columns\<close> off. With
  \<open>env_columns\<close> on, a field whose name is known reads that column, which is what the
  source language means by it and what the rewriting to \<open>SourceField\<close> has to respect.
\<close>

section \<open>Functions\<close>

text \<open>\<open>FuncError\<close>, with the function's name but without the rendered types and reasons.\<close>

datatype func_error =
    TypeMismatch string
  | ArityMismatch string nat
  | EvalFailed string
  | UnknownFunction string
  | AmbiguousOverload string
  | NullNotAllowed string nat
  | DivisionByZero
  | IntegerOverflow
  | FuncStringTooLarge nat
  | RegexCompileFailed
  | FileReadFailed string
  | EncodingError
  | JsonPathError
  | InvalidArgument string

text \<open>
  What a function does with its \<open>ArgWindow\<close> (\<open>signature.rs\<close>): it borrows argument slots, takes
  ownership of them, and returns. \<open>owned_run\<close> is the run over an \<open>OwnedArgWindow\<close>, where a taken
  slot is left \<open>Null\<close>; an index out of range panics (\<open>None\<close>).
\<close>

datatype ('x, 'w) window_prog =
    WReturn "func_error + 'x val" 'w
  | WRead nat "'x val \<Rightarrow> ('x, 'w) window_prog"
  | WTake nat "'x val \<Rightarrow> ('x, 'w) window_prog"

primrec owned_run :: "('x, 'w) window_prog \<Rightarrow> 'x val list \<Rightarrow> ((func_error + 'x val) \<times> 'w) option" where
  "owned_run (WReturn r w) vs = Some (r, w)"
| "owned_run (WRead i f) vs = (if i < length vs then owned_run (f (vs ! i)) vs else None)"
| "owned_run (WTake i f) vs = (if i < length vs then owned_run (f (vs ! i)) (vs[i := VNull]) else None)"

text \<open>The contract of \<open>take\<close>: \<open>after a take the slot must not be read or taken again\<close>.\<close>

primrec linear_window :: "('x, 'w) window_prog \<Rightarrow> nat set \<Rightarrow> bool" where
  "linear_window (WReturn r w) S \<longleftrightarrow> True"
| "linear_window (WRead i f) S \<longleftrightarrow> i \<notin> S \<and> (\<forall>v. linear_window (f v) S)"
| "linear_window (WTake i f) S \<longleftrightarrow> i \<notin> S \<and> (\<forall>v. linear_window (f v) (insert i S))"

text \<open>\<open>ExprFunction\<close>: \<open>'k\<close> is the evaluation context (clock, environment, files), \<open>'w\<close> the world.\<close>

record ('x, 'k, 'w) expr_func =
  fn_name :: string
  fn_min_args :: nat
  fn_max_args :: "nat option"
  fn_is_pure :: bool
  fn_purity :: "bool list \<Rightarrow> bool"
  fn_can_fail :: bool
  fn_evaluate :: "'x val list \<Rightarrow> 'k \<Rightarrow> 'w \<Rightarrow> (func_error + 'x val) \<times> 'w"
  fn_window :: "nat \<Rightarrow> 'k \<Rightarrow> 'w \<Rightarrow> ('x, 'w) window_prog"

type_synonym func_ref = u16

type_synonym ('x, 'k, 'w) registry = "('x, 'k, 'w) expr_func list"

definition get_by_ref :: "('x, 'k, 'w) registry \<Rightarrow> func_ref \<Rightarrow> ('x, 'k, 'w) expr_func option" where
  "get_by_ref reg f = (if unat f < length reg then Some (reg ! unat f) else None)"

text \<open>
  \<open>fn_evaluate\<close> is \<open>evaluate\<close> on the values of the arguments, \<open>fn_window\<close> the same function step by
  step. They agree, and the steps keep the contract of the window, for every admissible arity.
\<close>

definition arity_ok :: "('x, 'k, 'w) expr_func \<Rightarrow> nat \<Rightarrow> bool" where
  "arity_ok fn n \<longleftrightarrow> fn_min_args fn \<le> n \<and> (case fn_max_args fn of None \<Rightarrow> True | Some m \<Rightarrow> n \<le> m)"

definition window_ok :: "('x, 'k, 'w) expr_func \<Rightarrow> bool" where
  "window_ok fn \<longleftrightarrow>
     (\<forall>vs k w. arity_ok fn (length vs) \<longrightarrow>
        linear_window (fn_window fn (length vs) k w) {} \<and>
        owned_run (fn_window fn (length vs) k w) vs = Some (fn_evaluate fn vs k w))"

section \<open>Trees\<close>

datatype value_class = ClsString | ClsBool | ClsBytes

datatype fields_selector = SelAll | SelNamed "string list"

datatype 'x assert_yield = YieldIdentity | YieldConst "'x val"

datatype 'x opt_expr =
    EConst "'x val"
  | ERegister u16
  | EField "'x opt_expr"
  | ESourceField string
  | EFields fields_selector
  | ECall func_ref "'x opt_expr list"
  | EIf "'x opt_expr" "'x opt_expr" "'x opt_expr"
  | EMultiIf "('x opt_expr \<times> 'x opt_expr) list" "'x opt_expr"
  | EIfNull "'x opt_expr" "'x opt_expr"
  | ENullIf "'x opt_expr" "'x opt_expr"
  | EAnd "'x opt_expr" "'x opt_expr"
  | EOr "'x opt_expr" "'x opt_expr"
  | EInterpolation "'x opt_expr list"
  | EObject "(string \<times> 'x opt_expr) list"
  | EArray "'x opt_expr list"
  | ESwitch "'x opt_expr list" "('x key \<times> 'x opt_expr) list" "'x opt_expr"
  | ETypeAssert "'x opt_expr" value_class "'x assert_yield"
  | EBlock "(u16 \<times> 'x opt_expr) list" "'x opt_expr"

definition as_const :: "'x opt_expr \<Rightarrow> 'x val option" where
  "as_const e = (case e of EConst v \<Rightarrow> Some v | _ \<Rightarrow> None)"

lemma as_const_Some [simp]: "as_const e = Some v \<longleftrightarrow> e = EConst v"
  by (cases e) (simp_all add: as_const_def)

lemma as_const_EConst [simp]: "as_const (EConst v) = Some v"
  by simp

text \<open>\<open>for_each_child\<close>: the child slots of a node, in order.\<close>

fun children :: "'x opt_expr \<Rightarrow> 'x opt_expr list" where
  "children (EField e) = [e]"
| "children (ECall f args) = args"
| "children (EIf c t e) = [c, t, e]"
| "children (EMultiIf bs d) = concat (map (\<lambda>(c, v). [c, v]) bs) @ [d]"
| "children (EIfNull v a) = [v, a]"
| "children (ENullIf v s) = [v, s]"
| "children (EAnd l r) = [l, r]"
| "children (EOr l r) = [l, r]"
| "children (EInterpolation es) = es"
| "children (EObject es) = map snd es"
| "children (EArray es) = es"
| "children (ESwitch ins tab d) = ins @ map snd tab @ [d]"
| "children (ETypeAssert e c y) = [e]"
| "children (EBlock ss r) = map snd ss @ [r]"
| "children _ = []"

lemma size_fst_snd [termination_simp]:
  "(a, b) \<in> set xs \<Longrightarrow> size b < Suc (size_list (size_prod f size) xs)"
  "(a, b) \<in> set xs \<Longrightarrow> size a < Suc (size_list (size_prod size g) xs)"
  by (induction xs) auto

lemma children_size: "c \<in> set (children e) \<Longrightarrow> size c < size e"
proof (cases e)
  case (EMultiIf bs d)
  moreover have "(a, b) \<in> set bs \<Longrightarrow> size a < Suc (size_list (size_prod size size) bs)"
    "(a, b) \<in> set bs \<Longrightarrow> size b < Suc (size_list (size_prod size size) bs)" for a b
    by (auto intro: size_fst_snd)
  ultimately show "c \<in> set (children e) \<Longrightarrow> ?thesis" by fastforce
next
  case (ESwitch ins tab d)
  then show "c \<in> set (children e) \<Longrightarrow> ?thesis"
    by (auto simp: less_Suc_eq_le dest!: size_in_list size_fst_snd(1) [of _ _ _ "size_list size"])
qed (auto simp: less_Suc_eq_le dest!: size_in_list size_fst_snd(1) [of _ _ _ "\<lambda>_. 0"])

text \<open>
  \<open>for_each_recursive\<close> with a callback that breaks on a hit: whether some node of the tree
  satisfies \<open>p\<close>.
\<close>

function scan :: "('x opt_expr \<Rightarrow> bool) \<Rightarrow> 'x opt_expr \<Rightarrow> bool" where
  "scan p e \<longleftrightarrow> p e \<or> list_ex (scan p) (children e)"
  by pat_completeness auto
termination
  by (relation "measure (\<lambda>(p, e). size e)") (auto simp: children_size)

declare scan.simps [simp del]

definition is_pure :: "('x, 'k, 'w) registry \<Rightarrow> 'x opt_expr \<Rightarrow> bool" where
  "is_pure reg e \<longleftrightarrow>
     \<not> scan (\<lambda>n. case n of
               ECall f _ \<Rightarrow> (case get_by_ref reg f of Some fn \<Rightarrow> \<not> fn_is_pure fn | None \<Rightarrow> True)
             | _ \<Rightarrow> False) e"

definition can_fail :: "('x, 'k, 'w) registry \<Rightarrow> 'x opt_expr \<Rightarrow> bool" where
  "can_fail reg e \<longleftrightarrow>
     scan (\<lambda>n. case n of
             ECall f _ \<Rightarrow> (case get_by_ref reg f of Some fn \<Rightarrow> fn_can_fail fn | None \<Rightarrow> True)
           | EInterpolation _ \<Rightarrow> True
           | ETypeAssert _ _ _ \<Rightarrow> True
           | _ \<Rightarrow> False) e"

definition contains_block :: "'x opt_expr \<Rightarrow> bool" where
  "contains_block e \<longleftrightarrow> scan (\<lambda>n. case n of EBlock _ _ \<Rightarrow> True | _ \<Rightarrow> False) e"

function node_count :: "'x opt_expr \<Rightarrow> nat" where
  "node_count e = 1 + sum_list (map node_count (children e))"
  by pat_completeness auto
termination
  by (relation "measure size") (auto simp: children_size)

declare node_count.simps [simp del]

text \<open>Structural equality: constants by \<open>PartialEq for Value\<close>, which is cross-numeric.\<close>

definition yield_eq :: "'x prim_ops \<Rightarrow> 'x assert_yield \<Rightarrow> 'x assert_yield \<Rightarrow> bool" where
  "yield_eq P a b =
     (case (a, b) of
        (YieldIdentity, YieldIdentity) \<Rightarrow> True
      | (YieldConst v, YieldConst w) \<Rightarrow> values_equal P v w
      | _ \<Rightarrow> False)"

function opt_eq :: "'x prim_ops \<Rightarrow> 'x opt_expr \<Rightarrow> 'x opt_expr \<Rightarrow> bool" where
  "opt_eq P a b =
     (case a of
        EConst v \<Rightarrow> (case b of EConst w \<Rightarrow> values_equal P v w | _ \<Rightarrow> False)
      | ERegister r \<Rightarrow> (case b of ERegister q \<Rightarrow> r = q | _ \<Rightarrow> False)
      | EField x \<Rightarrow> (case b of EField y \<Rightarrow> opt_eq P x y | _ \<Rightarrow> False)
      | ESourceField n \<Rightarrow> (case b of ESourceField m \<Rightarrow> n = m | _ \<Rightarrow> False)
      | EFields s \<Rightarrow> (case b of EFields t \<Rightarrow> s = t | _ \<Rightarrow> False)
      | ECall f xs \<Rightarrow> (case b of ECall g ys \<Rightarrow> f = g \<and> list_all2 (opt_eq P) xs ys | _ \<Rightarrow> False)
      | EIf c t e \<Rightarrow> (case b of EIf c' t' e' \<Rightarrow> opt_eq P c c' \<and> opt_eq P t t' \<and> opt_eq P e e' | _ \<Rightarrow> False)
      | EMultiIf xs d \<Rightarrow>
          (case b of
             EMultiIf ys d' \<Rightarrow>
               list_all2 (\<lambda>p q. opt_eq P (fst p) (fst q) \<and> opt_eq P (snd p) (snd q)) xs ys \<and> opt_eq P d d'
           | _ \<Rightarrow> False)
      | EIfNull x y \<Rightarrow> (case b of EIfNull x' y' \<Rightarrow> opt_eq P x x' \<and> opt_eq P y y' | _ \<Rightarrow> False)
      | ENullIf x y \<Rightarrow> (case b of ENullIf x' y' \<Rightarrow> opt_eq P x x' \<and> opt_eq P y y' | _ \<Rightarrow> False)
      | EAnd x y \<Rightarrow> (case b of EAnd x' y' \<Rightarrow> opt_eq P x x' \<and> opt_eq P y y' | _ \<Rightarrow> False)
      | EOr x y \<Rightarrow> (case b of EOr x' y' \<Rightarrow> opt_eq P x x' \<and> opt_eq P y y' | _ \<Rightarrow> False)
      | EInterpolation xs \<Rightarrow> (case b of EInterpolation ys \<Rightarrow> list_all2 (opt_eq P) xs ys | _ \<Rightarrow> False)
      | EObject xs \<Rightarrow>
          (case b of
             EObject ys \<Rightarrow> list_all2 (\<lambda>p q. fst p = fst q \<and> opt_eq P (snd p) (snd q)) xs ys
           | _ \<Rightarrow> False)
      | EArray xs \<Rightarrow> (case b of EArray ys \<Rightarrow> list_all2 (opt_eq P) xs ys | _ \<Rightarrow> False)
      | ESwitch xs t d \<Rightarrow>
          (case b of
             ESwitch ys t' d' \<Rightarrow>
               list_all2 (opt_eq P) xs ys \<and>
               list_all2 (\<lambda>p q. key_eq P (fst p) (fst q) \<and> opt_eq P (snd p) (snd q)) t t' \<and> opt_eq P d d'
           | _ \<Rightarrow> False)
      | ETypeAssert x c y \<Rightarrow>
          (case b of ETypeAssert x' c' y' \<Rightarrow> opt_eq P x x' \<and> c = c' \<and> yield_eq P y y' | _ \<Rightarrow> False)
      | EBlock xs r \<Rightarrow>
          (case b of
             EBlock ys r' \<Rightarrow>
               list_all2 (\<lambda>p q. fst p = fst q \<and> opt_eq P (snd p) (snd q)) xs ys \<and> opt_eq P r r'
           | _ \<Rightarrow> False))"
  by pat_completeness auto
termination
  by (relation "measure (\<lambda>(P, a, b). size a)") (simp, (simp only: in_measure prod.case, rule children_size, force)+)

declare opt_eq.simps [simp del]

section \<open>Evaluation\<close>

datatype eval_error =
    FieldNotBound
  | NestingTooDeep
  | ExpectedBool string
  | StringTooLarge nat
  | TypeAssertFailed value_class
  | FunctionFailed func_error
  | OutOfBounds

type_synonym ('x, 'w) eval_state = "(u16 \<Rightarrow> 'x val) \<times> 'w"

type_synonym ('x, 'w) outcome = "eval_error + 'x val \<times> ('x, 'w) eval_state"

record ('x, 'k, 'w) eval_env =
  env_prim :: "'x prim_ops"
  env_registry :: "('x, 'k, 'w) registry"
  env_context :: 'k
  env_field :: "string \<Rightarrow> eval_error + 'x val"
  env_fields :: "fields_selector \<Rightarrow> eval_error + 'x val"
  env_render :: "'x text_ops"
  env_columns :: bool

text \<open>\<open>TypeClass::accepts\<close> on the type of a value; \<open>None\<close> for null, which has no type.\<close>

definition value_accepted :: "value_class \<Rightarrow> 'x val \<Rightarrow> bool option" where
  "value_accepted c v =
     (if is_null v then None
      else Some (case c of
                   ClsString \<Rightarrow> (case v of VText _ \<Rightarrow> True | _ \<Rightarrow> False)
                 | ClsBool \<Rightarrow> (case v of VBool _ \<Rightarrow> True | _ \<Rightarrow> False)
                 | ClsBytes \<Rightarrow> (case v of VBytes _ \<Rightarrow> True | _ \<Rightarrow> False)))"

text \<open>What a boolean position sees.\<close>

datatype tri = TriTrue | TriFalse | TriNull | TriOther

definition tri_of :: "'x val \<Rightarrow> tri" where
  "tri_of v = (case v of VBool b \<Rightarrow> if b then TriTrue else TriFalse | VNull \<Rightarrow> TriNull | _ \<Rightarrow> TriOther)"

lemma tri_of_simps [simp]:
  "tri_of (VBool True) = TriTrue" "tri_of (VBool False) = TriFalse" "tri_of VNull = TriNull"
  by (simp_all add: tri_of_def)

lemma tri_of_iff:
  "tri_of v = TriTrue \<longleftrightarrow> v = VBool True" "tri_of v = TriFalse \<longleftrightarrow> v = VBool False"
  "tri_of v = TriNull \<longleftrightarrow> v = VNull"
  by (cases v; simp add: tri_of_def)+

definition MAX_EXPR_STRING_BYTES :: nat where
  "MAX_EXPR_STRING_BYTES = 1048576"

fun eval_args :: "('e \<Rightarrow> 's \<Rightarrow> 'err + 'v \<times> 's) \<Rightarrow> 'e list \<Rightarrow> 's \<Rightarrow> 'err + 'v list \<times> 's" where
  "eval_args f [] s = Inr ([], s)"
| "eval_args f (e # es) s =
     bind_res (f e s) (\<lambda>(v, s1). bind_res (eval_args f es s1) (\<lambda>(vs, s2). Inr (v # vs, s2)))"

definition eval_if :: "('e \<Rightarrow> 's \<Rightarrow> eval_error + 'x val \<times> 's) \<Rightarrow> 'e \<Rightarrow> 'e \<Rightarrow> 'e \<Rightarrow> 's \<Rightarrow> eval_error + 'x val \<times> 's" where
  "eval_if f c t e s =
     bind_res (f c s) (\<lambda>(v, s1).
       case tri_of v of
         TriTrue \<Rightarrow> f t s1
       | TriFalse \<Rightarrow> f e s1
       | TriNull \<Rightarrow> f e s1
       | TriOther \<Rightarrow> Inl (ExpectedBool ''if''))"

fun eval_multi_if ::
  "('e \<Rightarrow> 's \<Rightarrow> eval_error + 'x val \<times> 's) \<Rightarrow> ('e \<times> 'e) list \<Rightarrow> 'e \<Rightarrow> 's \<Rightarrow> eval_error + 'x val \<times> 's" where
  "eval_multi_if f [] d s = f d s"
| "eval_multi_if f ((c, t) # bs) d s =
     bind_res (f c s) (\<lambda>(v, s1).
       case tri_of v of
         TriTrue \<Rightarrow> f t s1
       | TriFalse \<Rightarrow> eval_multi_if f bs d s1
       | TriNull \<Rightarrow> eval_multi_if f bs d s1
       | TriOther \<Rightarrow> Inl (ExpectedBool ''multiIf''))"

definition combine_bool :: "string \<Rightarrow> 'x val \<Rightarrow> 's \<Rightarrow> eval_error + 'x val \<times> 's" where
  "combine_bool ctx v s = (case tri_of v of TriOther \<Rightarrow> Inl (ExpectedBool ctx) | _ \<Rightarrow> Inr (v, s))"

definition eval_and :: "('e \<Rightarrow> 's \<Rightarrow> eval_error + 'x val \<times> 's) \<Rightarrow> 'e \<Rightarrow> 'e \<Rightarrow> 's \<Rightarrow> eval_error + 'x val \<times> 's" where
  "eval_and f l r s =
     bind_res (f l s) (\<lambda>(v, s1).
       case tri_of v of
         TriFalse \<Rightarrow> Inr (VBool False, s1)
       | TriTrue \<Rightarrow> bind_res (f r s1) (\<lambda>(w, s2). combine_bool ''and'' w s2)
       | TriNull \<Rightarrow>
           bind_res (f r s1) (\<lambda>(w, s2).
             case tri_of w of
               TriFalse \<Rightarrow> Inr (VBool False, s2)
             | TriTrue \<Rightarrow> Inr (VNull, s2)
             | TriNull \<Rightarrow> Inr (VNull, s2)
             | TriOther \<Rightarrow> Inl (ExpectedBool ''and''))
       | TriOther \<Rightarrow> Inl (ExpectedBool ''and''))"

definition eval_or :: "('e \<Rightarrow> 's \<Rightarrow> eval_error + 'x val \<times> 's) \<Rightarrow> 'e \<Rightarrow> 'e \<Rightarrow> 's \<Rightarrow> eval_error + 'x val \<times> 's" where
  "eval_or f l r s =
     bind_res (f l s) (\<lambda>(v, s1).
       case tri_of v of
         TriTrue \<Rightarrow> Inr (VBool True, s1)
       | TriFalse \<Rightarrow> bind_res (f r s1) (\<lambda>(w, s2). combine_bool ''or'' w s2)
       | TriNull \<Rightarrow>
           bind_res (f r s1) (\<lambda>(w, s2).
             case tri_of w of
               TriTrue \<Rightarrow> Inr (VBool True, s2)
             | TriFalse \<Rightarrow> Inr (VNull, s2)
             | TriNull \<Rightarrow> Inr (VNull, s2)
             | TriOther \<Rightarrow> Inl (ExpectedBool ''or''))
       | TriOther \<Rightarrow> Inl (ExpectedBool ''or''))"

definition eval_if_null :: "('e \<Rightarrow> 's \<Rightarrow> eval_error + 'x val \<times> 's) \<Rightarrow> 'e \<Rightarrow> 'e \<Rightarrow> 's \<Rightarrow> eval_error + 'x val \<times> 's" where
  "eval_if_null f e a s = bind_res (f e s) (\<lambda>(v, s1). if is_null v then f a s1 else Inr (v, s1))"

definition eval_null_if ::
  "'x prim_ops \<Rightarrow> ('e \<Rightarrow> 's \<Rightarrow> eval_error + 'x val \<times> 's) \<Rightarrow> 'e \<Rightarrow> 'e \<Rightarrow> 's \<Rightarrow> eval_error + 'x val \<times> 's" where
  "eval_null_if P f e n s =
     bind_res (f e s) (\<lambda>(v, s1). bind_res (f n s1) (\<lambda>(w, s2). Inr (if values_equal P v w then VNull else v, s2)))"

fun eval_interpolation ::
  "'x text_ops \<Rightarrow> ('e \<Rightarrow> 's \<Rightarrow> eval_error + 'x val \<times> 's) \<Rightarrow> 'e list \<Rightarrow> string \<Rightarrow> 's \<Rightarrow> eval_error + 'x val \<times> 's" where
  "eval_interpolation render f [] acc s = Inr (VText acc, s)"
| "eval_interpolation render f (e # es) acc s =
     bind_res (f e s) (\<lambda>(v, s1).
       let acc' = acc @ (case v of VText t \<Rightarrow> t | _ \<Rightarrow> value_to_string render v)
       in if length acc' > MAX_EXPR_STRING_BYTES then Inl (StringTooLarge (length acc'))
          else eval_interpolation render f es acc' s1)"

definition switch_key :: "'x prim_ops \<Rightarrow> 'x val list \<Rightarrow> 'x key option" where
  "switch_key P vs = (case vs of [v] \<Rightarrow> key_from_value P v | _ \<Rightarrow> ok_option (key_composite P vs))"

text \<open>
  The entry a key selects in the \<open>AHashMap\<close> of a switch: the first one whose key is equal. The
  choice matters only where several entries are equal to the key, which the equality of
  keys, not being transitive on floats beside large integers, allows; the map of the code
  then answers with one of them, and which one is unspecified.
\<close>

definition switch_entry :: "'x prim_ops \<Rightarrow> ('x key \<times> 'e) list \<Rightarrow> 'x key option \<Rightarrow> 'e option" where
  "switch_entry P table key =
     (case key of None \<Rightarrow> None | Some k \<Rightarrow> map_option snd (find (\<lambda>p. key_eq P (fst p) k) table))"

definition eval_switch ::
  "'x prim_ops \<Rightarrow> ('e \<Rightarrow> 's \<Rightarrow> eval_error + 'x val \<times> 's) \<Rightarrow> 'e list \<Rightarrow> ('x key \<times> 'e) list \<Rightarrow> 'e \<Rightarrow> 's \<Rightarrow>
   eval_error + 'x val \<times> 's" where
  "eval_switch P f ins table d s =
     bind_res (eval_args f ins s) (\<lambda>(vs, s1).
       case switch_entry P table (switch_key P vs) of Some e \<Rightarrow> f e s1 | None \<Rightarrow> f d s1)"

definition eval_type_assert ::
  "('e \<Rightarrow> 's \<Rightarrow> eval_error + 'x val \<times> 's) \<Rightarrow> 'e \<Rightarrow> value_class \<Rightarrow> 'x assert_yield \<Rightarrow> 's \<Rightarrow> eval_error + 'x val \<times> 's" where
  "eval_type_assert f e c y s =
     bind_res (f e s) (\<lambda>(v, s1).
       case value_accepted c v of
         None \<Rightarrow> Inr (VNull, s1)
       | Some False \<Rightarrow> Inl (TypeAssertFailed c)
       | Some True \<Rightarrow> Inr (case y of YieldIdentity \<Rightarrow> v | YieldConst w \<Rightarrow> w, s1))"

fun eval_block ::
  "('e \<Rightarrow> ('x, 'w) eval_state \<Rightarrow> ('x, 'w) outcome) \<Rightarrow> (u16 \<times> 'e) list \<Rightarrow> 'e \<Rightarrow> ('x, 'w) eval_state \<Rightarrow> ('x, 'w) outcome" where
  "eval_block f [] r s = f r s"
| "eval_block f ((x, e) # ss) r s =
     bind_res (f e s) (\<lambda>(v, s1). eval_block f ss r ((fst s1)(x := v), snd s1))"

definition call_function ::
  "('x, 'k, 'w) eval_env \<Rightarrow> func_ref \<Rightarrow> 'x val list \<Rightarrow> ('x, 'w) eval_state \<Rightarrow> ('x, 'w) outcome" where
  "call_function E g vs s =
     (case get_by_ref (env_registry E) g of
        None \<Rightarrow> Inl OutOfBounds
      | Some fn \<Rightarrow>
          (case fn_evaluate fn vs (env_context E) (snd s) of
             (Inl err, w) \<Rightarrow> Inl (FunctionFailed err)
           | (Inr v, w) \<Rightarrow> Inr (v, (fst s, w))))"

text \<open>The column that \<open>field(e)\<close> reads: \<open>e\<close> is a constant name or another column.\<close>

definition static_column :: "'x opt_expr \<Rightarrow> string option" where
  "static_column e =
     (case e of EConst (VText n) \<Rightarrow> Some n | ESourceField n \<Rightarrow> Some n | _ \<Rightarrow> None)"

text \<open>Congruence of the combinators: they call their argument on the children only.\<close>

lemma eval_args_cong [fundef_cong]:
  assumes "es = es'" "s = s'" "\<And>e t. e \<in> set es' \<Longrightarrow> f e t = g e t"
  shows "eval_args f es s = eval_args g es' s'"
proof -
  have "\<forall>e \<in> set es'. f e = g e \<Longrightarrow> eval_args f es' t = eval_args g es' t" for t
    by (induction es' arbitrary: t) simp_all
  with assms show ?thesis by blast
qed

lemma eval_multi_if_cong [fundef_cong]:
  assumes "bs = bs'" "d = d'" "s = s'" "\<And>c v t. (c, v) \<in> set bs' \<Longrightarrow> f c t = g c t"
    and "\<And>c v t. (c, v) \<in> set bs' \<Longrightarrow> f v t = g v t" "\<And>t. f d' t = g d' t"
  shows "eval_multi_if f bs d s = eval_multi_if g bs' d' s'"
proof -
  have "\<forall>(c, v) \<in> set bs'. f c = g c \<and> f v = g v \<Longrightarrow> f d' = g d' \<Longrightarrow> eval_multi_if f bs' d' t = eval_multi_if g bs' d' t" for t
  proof (induction bs' arbitrary: t)
    case (Cons b bs)
    obtain c v where b: "b = (c, v)" by fastforce
    have IH: "eval_multi_if f bs d' = eval_multi_if g bs d'" using Cons by auto
    have fg: "f c = g c" "f v = g v" using Cons.prems b by auto
    show ?case unfolding b eval_multi_if.simps IH fg by (rule refl)
  qed simp
  with assms show ?thesis by blast
qed

lemma eval_interpolation_cong [fundef_cong]:
  assumes "es = es'" "acc = acc'" "s = s'" "\<And>e t. e \<in> set es' \<Longrightarrow> f e t = g e t"
  shows "eval_interpolation r f es acc s = eval_interpolation r g es' acc' s'"
proof -
  have "\<forall>e \<in> set es'. f e = g e \<Longrightarrow> eval_interpolation r f es' a t = eval_interpolation r g es' a t" for a t
  proof (induction es' arbitrary: a t)
    case (Cons e es)
    have IH: "eval_interpolation r f es = eval_interpolation r g es" using Cons by auto
    have "f e = g e" using Cons.prems by auto
    then show ?case unfolding eval_interpolation.simps IH by simp
  qed simp
  with assms show ?thesis by blast
qed

lemma eval_block_cong [fundef_cong]:
  assumes "ss = ss'" "r = r'" "s = s'" "\<And>x e t. (x, e) \<in> set ss' \<Longrightarrow> f e t = g e t" "\<And>t. f r' t = g r' t"
  shows "eval_block f ss r s = eval_block g ss' r' s'"
proof -
  have "\<forall>(x, e) \<in> set ss'. f e = g e \<Longrightarrow> f r' = g r' \<Longrightarrow> eval_block f ss' r' t = eval_block g ss' r' t" for t
    by (induction ss' arbitrary: t) auto
  with assms show ?thesis by blast
qed

lemma eval_binary_cong [fundef_cong]:
  "l = l' \<Longrightarrow> r = r' \<Longrightarrow> s = s' \<Longrightarrow> (\<And>t. f l' t = g l' t) \<Longrightarrow> (\<And>t. f r' t = g r' t) \<Longrightarrow> eval_and f l r s = eval_and g l' r' s'"
  "l = l' \<Longrightarrow> r = r' \<Longrightarrow> s = s' \<Longrightarrow> (\<And>t. f l' t = g l' t) \<Longrightarrow> (\<And>t. f r' t = g r' t) \<Longrightarrow> eval_or f l r s = eval_or g l' r' s'"
  "l = l' \<Longrightarrow> r = r' \<Longrightarrow> s = s' \<Longrightarrow> (\<And>t. f l' t = g l' t) \<Longrightarrow> (\<And>t. f r' t = g r' t) \<Longrightarrow>
   eval_if_null f l r s = eval_if_null g l' r' s'"
  "l = l' \<Longrightarrow> r = r' \<Longrightarrow> s = s' \<Longrightarrow> (\<And>t. f l' t = g l' t) \<Longrightarrow> (\<And>t. f r' t = g r' t) \<Longrightarrow>
   eval_null_if P f l r s = eval_null_if P g l' r' s'"
proof -
  assume eqs: "l = l'" "r = r'" "s = s'" and fg: "\<And>t. f l' t = g l' t" "\<And>t. f r' t = g r' t"
  have *: "f l' = g l'" "f r' = g r'" using fg by (simp_all add: fun_eq_iff)
  show "eval_and f l r s = eval_and g l' r' s'" "eval_or f l r s = eval_or g l' r' s'"
    "eval_if_null f l r s = eval_if_null g l' r' s'" "eval_null_if P f l r s = eval_null_if P g l' r' s'"
    unfolding eval_and_def eval_or_def eval_if_null_def eval_null_if_def eqs * by (rule refl)+
qed

lemma eval_if_cong [fundef_cong]:
  assumes "c = c'" "a = a'" "b = b'" "s = s'" "\<And>t. f c' t = g c' t" "\<And>t. f a' t = g a' t" "\<And>t. f b' t = g b' t"
  shows "eval_if f c a b s = eval_if g c' a' b' s'"
proof -
  have *: "f c' = g c'" "f a' = g a'" "f b' = g b'" using assms(5-7) by (simp_all add: fun_eq_iff)
  show ?thesis unfolding eval_if_def assms(1-4) * by (rule refl)
qed

lemma eval_type_assert_cong [fundef_cong]:
  "e = e' \<Longrightarrow> c = c' \<Longrightarrow> y = y' \<Longrightarrow> s = s' \<Longrightarrow> (\<And>t. f e' t = g e' t) \<Longrightarrow> eval_type_assert f e c y s = eval_type_assert g e' c' y' s'"
  by (simp add: eval_type_assert_def)

lemma switch_entry_in: "switch_entry P table key = Some e \<Longrightarrow> \<exists>k. (k, e) \<in> set table"
  by (auto simp: switch_entry_def find_Some_iff in_set_conv_nth split: option.splits) (metis prod.collapse)

lemma eval_switch_cong [fundef_cong]:
  assumes "ins = ins'" "table = table'" "d = d'" "s = s'" "\<And>e t. e \<in> set ins' \<Longrightarrow> f e t = g e t"
    and "\<And>k e t. (k, e) \<in> set table' \<Longrightarrow> f e t = g e t" "\<And>t. f d' t = g d' t"
  shows "eval_switch P f ins table d s = eval_switch P g ins' table' d' s'"
proof -
  have "eval_args f ins s = eval_args g ins s" using assms by (auto intro: eval_args_cong)
  moreover have "switch_entry P table k = Some e \<Longrightarrow> f e t = g e t" for k e t
    using switch_entry_in assms(2,6) by metis
  ultimately show ?thesis using assms(1-4,7) by (auto simp: eval_switch_def intro!: arg_cong2 [of _ _ _ _ bind_res] split: option.split)
qed

function eval :: "('x, 'k, 'w) eval_env \<Rightarrow> 'x opt_expr \<Rightarrow> ('x, 'w) eval_state \<Rightarrow> ('x, 'w) outcome" where
  "eval E (EConst v) s = Inr (v, s)"
| "eval E (ERegister r) s = Inr (fst s r, s)"
| "eval E (EField e) s =
     (case static_column e of
        Some n \<Rightarrow> if env_columns E then bind_res (env_field E n) (\<lambda>v. Inr (v, s)) else Inl FieldNotBound
      | None \<Rightarrow> Inl FieldNotBound)"
| "eval E (ESourceField n) s = bind_res (env_field E n) (\<lambda>v. Inr (v, s))"
| "eval E (EFields sel) s = bind_res (env_fields E sel) (\<lambda>v. Inr (v, s))"
| "eval E (ECall g args) s = bind_res (eval_args (eval E) args s) (\<lambda>(vs, s1). call_function E g vs s1)"
| "eval E (EIf c t e) s = eval_if (eval E) c t e s"
| "eval E (EMultiIf bs d) s = eval_multi_if (eval E) bs d s"
| "eval E (EIfNull e a) s = eval_if_null (eval E) e a s"
| "eval E (ENullIf e n) s = eval_null_if (env_prim E) (eval E) e n s"
| "eval E (EAnd l r) s = eval_and (eval E) l r s"
| "eval E (EOr l r) s = eval_or (eval E) l r s"
| "eval E (EInterpolation es) s = eval_interpolation (env_render E) (eval E) es [] s"
| "eval E (EObject es) s =
     bind_res (eval_args (eval E) (map snd es) s) (\<lambda>(vs, s1). Inr (VObject (zip (map fst es) vs), s1))"
| "eval E (EArray es) s = bind_res (eval_args (eval E) es s) (\<lambda>(vs, s1). Inr (VArray vs, s1))"
| "eval E (ESwitch ins table d) s = eval_switch (env_prim E) (eval E) ins table d s"
| "eval E (ETypeAssert e c y) s = eval_type_assert (eval E) e c y s"
| "eval E (EBlock ss r) s = eval_block (eval E) ss r s"
  by pat_completeness auto
termination
  by (relation "measure (\<lambda>(E, e, s). size e)") (simp, (simp only: in_measure prod.case, rule children_size, force)+)

end
