(* ===== verification/OptRefine.thy ===== *)
theory OptRefine
  imports OptExpr
begin

text \<open>
  What it means for a rewrite to preserve meaning, and that this is a congruence: a tree
  keeps its meaning when its children keep theirs. Rewriting keeps values, effects and the
  order of effects; it keeps failure, but not which error is reported (the documentation of
  the rules allows \<open>not\<close>'s error to become \<open>&&\<close>'s, for instance). A tree that means
  \<open>FieldNotBound\<close> has a field that is not resolved to a column yet and may become anything.
\<close>

definition below :: "eval_error + 'a \<Rightarrow> eval_error + 'a \<Rightarrow> bool" where
  "below a b \<longleftrightarrow>
     (case a of
        Inr x \<Rightarrow> b = Inr x
      | Inl e \<Rightarrow> e = FieldNotBound \<or> (\<exists>e'. b = Inl e' \<and> e' \<noteq> FieldNotBound))"

lemma below_refl [simp, intro]: "below a a"
  by (cases a) (auto simp: below_def)

lemma below_trans: "below a b \<Longrightarrow> below b c \<Longrightarrow> below a c"
  by (cases a; cases b) (auto simp: below_def)

lemma below_errors [simp]: "e' \<noteq> FieldNotBound \<Longrightarrow> below (Inl e) (Inl e')"
  by (auto simp: below_def)

lemma below_unbound [simp]: "below (Inl FieldNotBound) b"
  by (simp add: below_def)

lemma below_bind: "below a b \<Longrightarrow> (\<And>x. below (f x) (g x)) \<Longrightarrow> below (bind_res a f) (bind_res b g)"
  by (cases a; cases b) (auto simp: below_def)

lemma below_bind_eq: "(\<And>x. below (f x) (g x)) \<Longrightarrow> below (bind_res a f) (bind_res a g)"
  by (rule below_bind) simp

definition refines :: "('x, 'k, 'w) eval_env \<Rightarrow> 'x opt_expr \<Rightarrow> 'x opt_expr \<Rightarrow> bool" where
  "refines E e e' \<longleftrightarrow>
     (\<forall>s. below (eval E e s) (eval E e' s)) \<and>
     (\<forall>n. static_column e = Some n \<longrightarrow> static_column e' = Some n)"

lemma refines_refl [simp, intro]: "refines E e e"
  by (simp add: refines_def)

lemma refines_trans: "refines E a b \<Longrightarrow> refines E b c \<Longrightarrow> refines E a c"
  unfolding refines_def using below_trans by blast

lemma refinesD: "refines E e e' \<Longrightarrow> below (eval E e s) (eval E e' s)"
  unfolding refines_def by blast

text \<open>Most rewrites are of nodes that are not columns, and agree in every state.\<close>

lemma refinesI: "(\<And>s. below (eval E e s) (eval E e' s)) \<Longrightarrow> static_column e = None \<Longrightarrow> refines E e e'"
  by (simp add: refines_def)

lemma refines_eqI: "(\<And>s. eval E e s = eval E e' s) \<Longrightarrow> static_column e = None \<Longrightarrow> refines E e e'"
  by (rule refinesI) simp_all

section \<open>Monotonicity of the combinators\<close>

lemma below_case_tri:
  "below a a' \<Longrightarrow> below b b' \<Longrightarrow> below c c' \<Longrightarrow> below d d' \<Longrightarrow>
   below (case t of TriTrue \<Rightarrow> a | TriFalse \<Rightarrow> b | TriNull \<Rightarrow> c | TriOther \<Rightarrow> d)
     (case t of TriTrue \<Rightarrow> a' | TriFalse \<Rightarrow> b' | TriNull \<Rightarrow> c' | TriOther \<Rightarrow> d')"
  by (cases t) simp_all

lemma below_if: "below a a' \<Longrightarrow> below b b' \<Longrightarrow> below (if c then a else b) (if c then a' else b')"
  by simp

lemma below_prod: "(\<And>x y. below (f x y) (g x y)) \<Longrightarrow> below (case p of (x, y) \<Rightarrow> f x y) (case p of (x, y) \<Rightarrow> g x y)"
  by (cases p) simp

named_theorems mono_intros \<open>monotonicity of evaluation\<close>

lemmas [mono_intros] = below_refl below_bind below_case_tri below_if below_prod refinesD

lemma eval_args_mono [mono_intros]:
  "list_all2 (refines E) es es' \<Longrightarrow> below (eval_args (eval E) es s) (eval_args (eval E) es' s)"
  by (induction es es' arbitrary: s rule: list_all2_induct) (auto intro!: mono_intros)

lemma eval_if_mono [mono_intros]:
  "refines E c c' \<Longrightarrow> refines E t t' \<Longrightarrow> refines E e e' \<Longrightarrow>
   below (eval_if (eval E) c t e s) (eval_if (eval E) c' t' e' s)"
  unfolding eval_if_def by (intro mono_intros) auto

lemma eval_multi_if_mono [mono_intros]:
  "list_all2 (\<lambda>p q. refines E (fst p) (fst q) \<and> refines E (snd p) (snd q)) bs bs' \<Longrightarrow> refines E d d' \<Longrightarrow>
   below (eval_multi_if (eval E) bs d s) (eval_multi_if (eval E) bs' d' s)"
proof (induction bs bs' arbitrary: s rule: list_all2_induct)
  case (Cons p ps q qs)
  obtain c v c' v' where "p = (c, v)" "q = (c', v')" by fastforce
  with Cons show ?case by (auto intro!: mono_intros)
qed (auto intro!: mono_intros)

lemma eval_binary_mono [mono_intros]:
  "refines E l l' \<Longrightarrow> refines E r r' \<Longrightarrow> below (eval_and (eval E) l r s) (eval_and (eval E) l' r' s)"
  "refines E l l' \<Longrightarrow> refines E r r' \<Longrightarrow> below (eval_or (eval E) l r s) (eval_or (eval E) l' r' s)"
  "refines E l l' \<Longrightarrow> refines E r r' \<Longrightarrow> below (eval_if_null (eval E) l r s) (eval_if_null (eval E) l' r' s)"
  "refines E l l' \<Longrightarrow> refines E r r' \<Longrightarrow> below (eval_null_if P (eval E) l r s) (eval_null_if P (eval E) l' r' s)"
  unfolding eval_and_def eval_or_def eval_if_null_def eval_null_if_def by (intro mono_intros; simp)+

lemma eval_interpolation_mono [mono_intros]:
  "list_all2 (refines E) es es' \<Longrightarrow>
   below (eval_interpolation r (eval E) es acc s) (eval_interpolation r (eval E) es' acc s)"
proof (induction es es' arbitrary: acc s rule: list_all2_induct)
  case (Cons e es e' es')
  then show ?case unfolding eval_interpolation.simps Let_def by (intro mono_intros) auto
qed simp

lemma eval_type_assert_mono [mono_intros]:
  "refines E e e' \<Longrightarrow> below (eval_type_assert (eval E) e c y s) (eval_type_assert (eval E) e' c y s)"
  unfolding eval_type_assert_def by (intro mono_intros) auto

lemma eval_block_mono [mono_intros]:
  "list_all2 (\<lambda>p q. fst p = fst q \<and> refines E (snd p) (snd q)) ss ss' \<Longrightarrow> refines E r r' \<Longrightarrow>
   below (eval_block (eval E) ss r s) (eval_block (eval E) ss' r' s)"
proof (induction ss ss' arbitrary: s rule: list_all2_induct)
  case (Cons p ps q qs)
  obtain x e y e' where "p = (x, e)" "q = (y, e')" by fastforce
  with Cons show ?case by (auto intro!: mono_intros)
qed (auto intro!: mono_intros)

lemma switch_entry_mono:
  assumes "list_all2 (\<lambda>p q. fst p = fst q \<and> refines E (snd p) (snd q)) table table'"
  shows "rel_option (refines E) (switch_entry P table k) (switch_entry P table' k)"
proof (cases k)
  case (Some key)
  show ?thesis
    using assms unfolding switch_entry_def Some
    by (induction table table' rule: list_all2_induct) auto
qed (simp add: switch_entry_def)

lemma eval_switch_mono [mono_intros]:
  assumes "list_all2 (refines E) ins ins'"
    and "list_all2 (\<lambda>p q. fst p = fst q \<and> refines E (snd p) (snd q)) table table'" "refines E d d'"
  shows "below (eval_switch P (eval E) ins table d s) (eval_switch P (eval E) ins' table' d' s)"
proof -
  have "below (case switch_entry P table k of Some e \<Rightarrow> eval E e t | None \<Rightarrow> eval E d t)
      (case switch_entry P table' k of Some e \<Rightarrow> eval E e t | None \<Rightarrow> eval E d' t)" for k t
    using switch_entry_mono [OF assms(2), of P k] assms(3)
    by (cases "switch_entry P table k"; cases "switch_entry P table' k") (auto intro: refinesD)
  then show ?thesis unfolding eval_switch_def using assms(1) by (intro mono_intros) auto
qed

section \<open>Rebuilding a node\<close>

text \<open>
  \<open>map_children\<close> of the rewrite driver: the children in the order of \<open>for_each_child\<close> go
  through the callback and return to their slots.
\<close>

fun pair_up :: "'a list \<Rightarrow> ('a \<times> 'a) list" where
  "pair_up (x # y # zs) = (x, y) # pair_up zs"
| "pair_up zs = []"

fun rebuild :: "'x opt_expr \<Rightarrow> 'x opt_expr list \<Rightarrow> 'x opt_expr" where
  "rebuild (EField e) cs = EField (hd cs)"
| "rebuild (ECall f args) cs = ECall f cs"
| "rebuild (EIf c t e) cs = EIf (cs ! 0) (cs ! 1) (cs ! 2)"
| "rebuild (EMultiIf bs d) cs = EMultiIf (pair_up (butlast cs)) (last cs)"
| "rebuild (EIfNull v a) cs = EIfNull (cs ! 0) (cs ! 1)"
| "rebuild (ENullIf v s) cs = ENullIf (cs ! 0) (cs ! 1)"
| "rebuild (EAnd l r) cs = EAnd (cs ! 0) (cs ! 1)"
| "rebuild (EOr l r) cs = EOr (cs ! 0) (cs ! 1)"
| "rebuild (EInterpolation es) cs = EInterpolation cs"
| "rebuild (EObject es) cs = EObject (zip (map fst es) cs)"
| "rebuild (EArray es) cs = EArray cs"
| "rebuild (ESwitch ins tab d) cs =
     ESwitch (take (length ins) cs) (zip (map fst tab) (take (length tab) (drop (length ins) cs))) (last cs)"
| "rebuild (ETypeAssert e c y) cs = ETypeAssert (hd cs) c y"
| "rebuild (EBlock ss r) cs = EBlock (zip (map fst ss) (take (length ss) cs)) (last cs)"
| "rebuild e cs = e"

definition map_children :: "('x opt_expr \<Rightarrow> 'x opt_expr option) \<Rightarrow> 'x opt_expr \<Rightarrow> 'x opt_expr option" where
  "map_children recurse e = map_option (rebuild e) (those (map recurse (children e)))"

lemma those_Some_iff: "those (map f xs) = Some ys \<longleftrightarrow> list_all2 (\<lambda>x y. f x = Some y) xs ys"
  by (induction xs arbitrary: ys) (auto simp: list_all2_Cons1 split: option.split)

lemma list_all2_snoc1: "list_all2 R (xs @ [x]) ys \<longleftrightarrow> (\<exists>zs y. ys = zs @ [y] \<and> list_all2 R xs zs \<and> R x y)"
proof
  assume "list_all2 R (xs @ [x]) ys"
  then obtain us vs where "ys = us @ vs" "list_all2 R xs us" "list_all2 R [x] vs"
    by (auto simp: list_all2_append1)
  then show "\<exists>zs y. ys = zs @ [y] \<and> list_all2 R xs zs \<and> R x y" by (auto simp: list_all2_Cons1)
qed (auto intro: list_all2_appendI)

lemma pair_up_rel:
  "list_all2 R (concat (map (\<lambda>(c, v). [c, v]) bs)) zs \<Longrightarrow>
   list_all2 (\<lambda>p q. R (fst p) (fst q) \<and> R (snd p) (snd q)) bs (pair_up zs)"
  by (induction bs arbitrary: zs) (auto simp: list_all2_Cons1)

lemma zip_fst_rel:
  "list_all2 R (map snd es) cs \<Longrightarrow> list_all2 (\<lambda>p q. fst p = fst q \<and> R (snd p) (snd q)) es (zip (map fst es) cs)"
  by (induction es arbitrary: cs) (auto simp: list_all2_Cons1)

lemma refines_rebuild:
  assumes "list_all2 (refines E) (children e) cs"
  shows "refines E e (rebuild e cs)"
proof (cases e)
  case (EField a)
  with assms obtain b where b: "cs = [b]" "refines E a b" by (auto simp: list_all2_Cons1)
  show ?thesis
  proof (cases "static_column a")
    case None
    then show ?thesis using b EField by (auto intro!: refinesI simp: below_def static_column_def)
  next
    case (Some n)
    then have "static_column b = Some n" using b by (simp add: refines_def)
    then show ?thesis using b EField Some by (auto intro!: refines_eqI simp: static_column_def)
  qed
next
  case (ECall f args)
  then show ?thesis using assms by (simp add: refinesI static_column_def below_bind_eq below_bind eval_args_mono)
next
  case (EMultiIf bs d)
  then obtain zs d' where cs: "cs = zs @ [d']"
    and "list_all2 (refines E) (concat (map (\<lambda>(c, v). [c, v]) bs)) zs" and d: "refines E d d'"
    using assms by (auto simp: list_all2_snoc1)
  from this(2) have "list_all2 (\<lambda>p q. refines E (fst p) (fst q) \<and> refines E (snd p) (snd q)) bs (pair_up zs)"
    by (rule pair_up_rel)
  then show ?thesis using EMultiIf cs d by (simp add: refinesI static_column_def eval_multi_if_mono)
next
  case (EObject es)
  then have "below (eval_args (eval E) (map snd es) s) (eval_args (eval E) cs s)" "length cs = length es" for s
    using assms by (auto intro!: eval_args_mono dest: list_all2_lengthD)
  then show ?thesis using EObject by (simp add: refinesI static_column_def below_bind)
next
  case (ESwitch ins tab d)
  then obtain us ts d' where cs: "cs = us @ ts @ [d']" and r: "list_all2 (refines E) ins us"
    "list_all2 (refines E) (map snd tab) ts" "refines E d d'"
    using assms ESwitch list_all2_append1 [of "refines E" ins "map snd tab @ [d]" cs]
    by (auto simp: list_all2_snoc1)
  moreover have "length us = length ins" "length ts = length tab" using r by (auto dest: list_all2_lengthD)
  ultimately show ?thesis
    using ESwitch zip_fst_rel [OF r(2)] by (simp add: refinesI static_column_def eval_switch_mono)
next
  case (EBlock ss r)
  then obtain ts r' where cs: "cs = ts @ [r']" and rel: "list_all2 (refines E) (map snd ss) ts" "refines E r r'"
    using assms by (auto simp: list_all2_snoc1)
  moreover have "length ts = length ss" using rel by (auto dest: list_all2_lengthD)
  ultimately show ?thesis
    using EBlock zip_fst_rel [OF rel(1)] by (simp add: refinesI static_column_def eval_block_mono)
qed (use assms in \<open>auto simp: list_all2_Cons1 static_column_def eval_if_mono eval_binary_mono
  eval_interpolation_mono eval_args_mono eval_type_assert_mono below_bind intro!: refinesI\<close>)

lemma map_children_refines:
  assumes "map_children rec e = Some e'" "\<And>c c'. c \<in> set (children e) \<Longrightarrow> rec c = Some c' \<Longrightarrow> refines E c c'"
  shows "refines E e e'"
proof -
  obtain cs where cs: "list_all2 (\<lambda>x y. rec x = Some y) (children e) cs" "e' = rebuild e cs"
    using assms(1) by (auto simp: map_children_def those_Some_iff)
  then have "list_all2 (refines E) (children e) cs"
    using assms(2) by (auto simp: list_all2_conv_all_nth)
  then show ?thesis using cs(2) refines_rebuild by blast
qed

end
