(* ===== verification/OptRules.thy ===== *)
theory OptRules
  imports OptRefine
begin

text \<open>
  Rewrite rules of the optimizer (\<open>crates/expr/optimize/src/rules\<close>), one definition per rule
  and helper, and that each preserves the meaning of the node it rewrites: resolving
  \<open>field\<close>, constant folding, flattening of conditionals, pruning of dead branches, De Morgan
  factoring, merging of type assertions, and the collapse of small \<open>multiIf\<close>s. The switch
  rules are in their own theory.
\<close>

datatype 'x rewrite = Changed "'x opt_expr" | Same "'x opt_expr"

record ('x, 'k, 'w) rule_cx =
  cx_prim :: "'x prim_ops"
  cx_registry :: "('x, 'k, 'w) registry"
  cx_context :: 'k
  cx_world :: 'w
  cx_render :: "'x text_ops"

section \<open>The rules\<close>

definition field_collapse :: "'x opt_expr \<Rightarrow> 'x rewrite" where
  "field_collapse node =
     (case node of
        EField inner \<Rightarrow>
          (case inner of
             EConst (VText name) \<Rightarrow> Changed (ESourceField name)
           | ESourceField name \<Rightarrow> Changed (ESourceField name)
           | _ \<Rightarrow> Same node)
      | _ \<Rightarrow> Same node)"

definition const_fold :: "('x, 'k, 'w) rule_cx \<Rightarrow> 'x opt_expr \<Rightarrow> 'x rewrite" where
  "const_fold cx node =
     (case node of
        ECall func args \<Rightarrow>
          (case those (map as_const args) of
             None \<Rightarrow> Same node
           | Some values \<Rightarrow>
               (case get_by_ref (cx_registry cx) func of
                  None \<Rightarrow> Same node
                | Some fn \<Rightarrow>
                    if \<not> fn_purity fn (replicate (length args) True) then Same node
                    else case fst (fn_evaluate fn values (cx_context cx) (cx_world cx)) of
                           Inr v \<Rightarrow> Changed (EConst v)
                         | Inl _ \<Rightarrow> Same node))
      | _ \<Rightarrow> Same node)"

fun render_all :: "'x text_ops \<Rightarrow> 'x val list \<Rightarrow> string \<Rightarrow> string option" where
  "render_all render [] acc = Some acc"
| "render_all render (v # vs) acc =
     (let acc' = acc @ value_to_string render v
      in if length acc' > MAX_EXPR_STRING_BYTES then None else render_all render vs acc')"

definition interpolation_fold :: "('x, 'k, 'w) rule_cx \<Rightarrow> 'x opt_expr \<Rightarrow> 'x rewrite" where
  "interpolation_fold cx node =
     (case node of
        EInterpolation segments \<Rightarrow>
          (case those (map as_const segments) of
             None \<Rightarrow> Same node
           | Some values \<Rightarrow>
               (case render_all (cx_render cx) values [] of
                  None \<Rightarrow> Same node
                | Some rendered \<Rightarrow> Changed (EConst (VText rendered))))
      | _ \<Rightarrow> Same node)"

definition object_fold :: "'x opt_expr \<Rightarrow> 'x rewrite" where
  "object_fold node =
     (case node of
        EObject entries \<Rightarrow>
          (case those (map (\<lambda>p. as_const (snd p)) entries) of
             None \<Rightarrow> Same node
           | Some values \<Rightarrow> Changed (EConst (VObject (zip (map fst entries) values))))
      | _ \<Rightarrow> Same node)"

definition array_fold :: "'x opt_expr \<Rightarrow> 'x rewrite" where
  "array_fold node =
     (case node of
        EArray elements \<Rightarrow>
          (case those (map as_const elements) of None \<Rightarrow> Same node | Some values \<Rightarrow> Changed (EConst (VArray values)))
      | _ \<Rightarrow> Same node)"

definition flatten_if :: "'x opt_expr \<Rightarrow> 'x opt_expr \<Rightarrow> 'x opt_expr \<Rightarrow> 'x rewrite" where
  "flatten_if condition then_branch else_branch =
     (case else_branch of
        EIf else_condition else_then else_else \<Rightarrow>
          Changed (EMultiIf [(condition, then_branch), (else_condition, else_then)] else_else)
      | EMultiIf branches dflt \<Rightarrow> Changed (EMultiIf ((condition, then_branch) # branches) dflt)
      | _ \<Rightarrow> Same (EIf condition then_branch else_branch))"

definition absorb_default :: "('x opt_expr \<times> 'x opt_expr) list \<Rightarrow> 'x opt_expr \<Rightarrow> 'x rewrite" where
  "absorb_default branches dflt =
     (case dflt of
        EIf condition then_branch else_branch \<Rightarrow>
          Changed (EMultiIf (branches @ [(condition, then_branch)]) else_branch)
      | EMultiIf inner_branches inner_dflt \<Rightarrow> Changed (EMultiIf (branches @ inner_branches) inner_dflt)
      | _ \<Rightarrow> Same (EMultiIf branches dflt))"

definition flatten_conditionals :: "'x opt_expr \<Rightarrow> 'x rewrite" where
  "flatten_conditionals node =
     (case node of
        EIf c t e \<Rightarrow> flatten_if c t e
      | EMultiIf bs d \<Rightarrow> absorb_default bs d
      | _ \<Rightarrow> Same node)"

definition const_tri :: "'x opt_expr \<Rightarrow> tri option" where
  "const_tri e = map_option tri_of (as_const e)"

definition prune_if :: "'x opt_expr \<Rightarrow> 'x opt_expr \<Rightarrow> 'x opt_expr \<Rightarrow> 'x rewrite" where
  "prune_if condition then_branch else_branch =
     (case const_tri condition of
        Some TriTrue \<Rightarrow> Changed then_branch
      | Some TriFalse \<Rightarrow> Changed else_branch
      | Some TriNull \<Rightarrow> Changed else_branch
      | _ \<Rightarrow> Same (EIf condition then_branch else_branch))"

text \<open>The scan of \<open>prune_multi_if\<close>: the branches kept, the default it found, whether it changed
  anything.\<close>

fun prune_branches ::
  "('x opt_expr \<times> 'x opt_expr) list \<Rightarrow> ('x opt_expr \<times> 'x opt_expr) list \<times> 'x opt_expr option \<times> bool" where
  "prune_branches [] = ([], None, False)"
| "prune_branches ((condition, v) # branches) =
     (case const_tri condition of
        Some TriTrue \<Rightarrow> ([], Some v, True)
      | Some TriFalse \<Rightarrow> (case prune_branches branches of (kept, d, _) \<Rightarrow> (kept, d, True))
      | Some TriNull \<Rightarrow> (case prune_branches branches of (kept, d, _) \<Rightarrow> (kept, d, True))
      | _ \<Rightarrow> (case prune_branches branches of (kept, d, changed) \<Rightarrow> ((condition, v) # kept, d, changed)))"

definition prune_multi_if :: "('x opt_expr \<times> 'x opt_expr) list \<Rightarrow> 'x opt_expr \<Rightarrow> 'x rewrite" where
  "prune_multi_if branches dflt =
     (case prune_branches branches of
        (kept, new_default, changed) \<Rightarrow>
          let d = (case new_default of Some v \<Rightarrow> v | None \<Rightarrow> dflt)
          in if kept = [] then Changed d
             else if changed then Changed (EMultiIf kept d)
             else Same (EMultiIf kept d))"

definition prune_if_null :: "'x opt_expr \<Rightarrow> 'x opt_expr \<Rightarrow> 'x rewrite" where
  "prune_if_null v alternative =
     (if as_const alternative = Some VNull then Changed v
      else case as_const v of
             Some constant \<Rightarrow> if is_null constant then Changed alternative else Changed v
           | None \<Rightarrow> Same (EIfNull v alternative))"

definition prune_null_if :: "'x prim_ops \<Rightarrow> 'x opt_expr \<Rightarrow> 'x opt_expr \<Rightarrow> 'x rewrite" where
  "prune_null_if P v sentinel =
     (case (as_const v, as_const sentinel) of
        (Some left, Some right) \<Rightarrow> if values_equal P left right then Changed (EConst VNull) else Changed v
      | _ \<Rightarrow> Same (ENullIf v sentinel))"

definition prune_switch ::
  "'x prim_ops \<Rightarrow> 'x opt_expr list \<Rightarrow> ('x key \<times> 'x opt_expr) list \<Rightarrow> 'x opt_expr \<Rightarrow> 'x rewrite" where
  "prune_switch P inputs table dflt =
     (case those (map as_const inputs) of
        None \<Rightarrow> Same (ESwitch inputs table dflt)
      | Some values \<Rightarrow>
          (case switch_entry P table (switch_key P values) of
             Some v \<Rightarrow> Changed v
           | None \<Rightarrow> Changed dflt))"

definition bool_assert :: "'x opt_expr \<Rightarrow> 'x rewrite" where
  "bool_assert right =
     (case const_tri right of
        Some TriOther \<Rightarrow> Changed (ETypeAssert right ClsBool YieldIdentity)
      | Some _ \<Rightarrow> Changed right
      | None \<Rightarrow> Changed (ETypeAssert right ClsBool YieldIdentity))"

definition prune_and :: "'x opt_expr \<Rightarrow> 'x opt_expr \<Rightarrow> 'x rewrite" where
  "prune_and left right =
     (case const_tri left of
        Some TriFalse \<Rightarrow> Changed (EConst (VBool False))
      | Some TriTrue \<Rightarrow> bool_assert right
      | Some TriNull \<Rightarrow>
          (case const_tri right of
             Some TriFalse \<Rightarrow> Changed (EConst (VBool False))
           | Some TriTrue \<Rightarrow> Changed (EConst VNull)
           | Some TriNull \<Rightarrow> Changed (EConst VNull)
           | _ \<Rightarrow> Same (EAnd left right))
      | _ \<Rightarrow> Same (EAnd left right))"

definition prune_or :: "'x opt_expr \<Rightarrow> 'x opt_expr \<Rightarrow> 'x rewrite" where
  "prune_or left right =
     (case const_tri left of
        Some TriTrue \<Rightarrow> Changed (EConst (VBool True))
      | Some TriFalse \<Rightarrow> bool_assert right
      | Some TriNull \<Rightarrow>
          (case const_tri right of
             Some TriTrue \<Rightarrow> Changed (EConst (VBool True))
           | Some TriFalse \<Rightarrow> Changed (EConst VNull)
           | Some TriNull \<Rightarrow> Changed (EConst VNull)
           | _ \<Rightarrow> Same (EOr left right))
      | _ \<Rightarrow> Same (EOr left right))"

definition branch_prune :: "('x, 'k, 'w) rule_cx \<Rightarrow> 'x opt_expr \<Rightarrow> 'x rewrite" where
  "branch_prune cx node =
     (case node of
        EIf c t e \<Rightarrow> prune_if c t e
      | EMultiIf bs d \<Rightarrow> prune_multi_if bs d
      | EIfNull v a \<Rightarrow> prune_if_null v a
      | ENullIf v n \<Rightarrow> prune_null_if (cx_prim cx) v n
      | EAnd l r \<Rightarrow> prune_and l r
      | EOr l r \<Rightarrow> prune_or l r
      | ESwitch ins tab d \<Rightarrow> prune_switch (cx_prim cx) ins tab d
      | _ \<Rightarrow> Same node)"

definition peel_not :: "func_ref \<Rightarrow> 'x opt_expr \<Rightarrow> 'x opt_expr + 'x opt_expr" where
  "peel_not f e =
     (case e of
        ECall func args \<Rightarrow> (case args of [operand] \<Rightarrow> if func = f then Inr operand else Inl e | _ \<Rightarrow> Inl e)
      | _ \<Rightarrow> Inl e)"

definition wrap_not :: "func_ref \<Rightarrow> 'x opt_expr \<Rightarrow> 'x opt_expr" where
  "wrap_not f operand = ECall f [operand]"

definition restore_not :: "func_ref \<Rightarrow> 'x opt_expr + 'x opt_expr \<Rightarrow> 'x opt_expr" where
  "restore_not f peeled = (case peeled of Inr operand \<Rightarrow> wrap_not f operand | Inl original \<Rightarrow> original)"

definition de_morgan :: "func_ref option \<Rightarrow> 'x opt_expr \<Rightarrow> 'x rewrite" where
  "de_morgan not_ref node =
     (case not_ref of
        None \<Rightarrow> Same node
      | Some f \<Rightarrow>
          (case node of
             EAnd left right \<Rightarrow>
               (case (peel_not f left, peel_not f right) of
                  (Inr a, Inr b) \<Rightarrow> Changed (wrap_not f (EOr a b))
                | (l, r) \<Rightarrow> Same (EAnd (restore_not f l) (restore_not f r)))
           | EOr left right \<Rightarrow>
               (case (peel_not f left, peel_not f right) of
                  (Inr a, Inr b) \<Rightarrow> Changed (wrap_not f (EAnd a b))
                | (l, r) \<Rightarrow> Same (EOr (restore_not f l) (restore_not f r)))
           | _ \<Rightarrow> Same node))"

definition type_assert_collapse :: "'x opt_expr \<Rightarrow> 'x rewrite" where
  "type_assert_collapse node =
     (case node of
        ETypeAssert inner expect on_present \<Rightarrow>
          (case inner of
             ETypeAssert operand inner_expect inner_yield \<Rightarrow>
               if inner_yield = YieldIdentity \<and> inner_expect = expect
               then Changed (ETypeAssert operand expect on_present)
               else Same node
           | _ \<Rightarrow> Same node)
      | _ \<Rightarrow> Same node)"

definition MAX_COLLAPSE_BRANCHES :: nat where
  "MAX_COLLAPSE_BRANCHES = 2"

definition fold_into_ifs :: "('x opt_expr \<times> 'x opt_expr) list \<Rightarrow> 'x opt_expr \<Rightarrow> 'x opt_expr" where
  "fold_into_ifs branches dflt = foldl (\<lambda>els (c, v). EIf c v els) dflt (rev branches)"

definition multi_if_collapse :: "'x opt_expr \<Rightarrow> 'x rewrite" where
  "multi_if_collapse node =
     (case node of
        EMultiIf branches dflt \<Rightarrow>
          if length branches > MAX_COLLAPSE_BRANCHES then Same node
          else Changed (fold_into_ifs branches dflt)
      | _ \<Rightarrow> Same node)"

section \<open>The builtins the rules name\<close>

definition not_evaluate :: "'x val list \<Rightarrow> func_error + 'x val" where
  "not_evaluate args =
     (case args of
        [a] \<Rightarrow>
          (case tri_of a of
             TriNull \<Rightarrow> Inr VNull
           | TriTrue \<Rightarrow> Inr (VBool False)
           | TriFalse \<Rightarrow> Inr (VBool True)
           | TriOther \<Rightarrow> Inl (TypeMismatch ''not''))
      | _ \<Rightarrow> Inl (TypeMismatch ''not''))"

definition not_window :: "'w \<Rightarrow> ('x, 'w) window_prog" where
  "not_window w = WRead 0 (\<lambda>a. WReturn (not_evaluate [a]) w)"

definition not_func :: "('x, 'k, 'w) expr_func" where
  "not_func =
     \<lparr> fn_name = ''not'', fn_min_args = 1, fn_max_args = Some 1, fn_is_pure = True, fn_purity = (\<lambda>_. True),
       fn_can_fail = True, fn_evaluate = (\<lambda>args k w. (not_evaluate args, w)),
       fn_window = (\<lambda>n k w. not_window w) \<rparr>"

definition equals_evaluate :: "'x prim_ops \<Rightarrow> 'x val list \<Rightarrow> func_error + 'x val" where
  "equals_evaluate P args =
     (case args of
        [a, b] \<Rightarrow>
          Inr (VBool (case (is_null a, is_null b) of
                        (True, True) \<Rightarrow> True
                      | (False, False) \<Rightarrow> values_equal P a b
                      | _ \<Rightarrow> False))
      | _ \<Rightarrow> Inl (TypeMismatch ''equals''))"

definition equals_window :: "'x prim_ops \<Rightarrow> 'w \<Rightarrow> ('x, 'w) window_prog" where
  "equals_window P w = WRead 0 (\<lambda>a. WRead 1 (\<lambda>b. WReturn (equals_evaluate P [a, b]) w))"

definition equals_func :: "'x prim_ops \<Rightarrow> ('x, 'k, 'w) expr_func" where
  "equals_func P =
     \<lparr> fn_name = ''equals'', fn_min_args = 2, fn_max_args = Some 2, fn_is_pure = True, fn_purity = (\<lambda>_. True),
       fn_can_fail = False, fn_evaluate = (\<lambda>args k w. (equals_evaluate P args, w)),
       fn_window = (\<lambda>n k w. equals_window P w) \<rparr>"

section \<open>Soundness\<close>

definition rule_sound :: "('x, 'k, 'w) eval_env \<Rightarrow> ('x opt_expr \<Rightarrow> 'x rewrite) \<Rightarrow> bool" where
  "rule_sound E rule \<longleftrightarrow>
     (\<forall>e e'. (rule e = Changed e' \<longrightarrow> refines E e e') \<and> (rule e = Same e' \<longrightarrow> e' = e))"

lemma rule_soundI:
  "(\<And>e e'. rule e = Changed e' \<Longrightarrow> refines E e e') \<Longrightarrow> (\<And>e e'. rule e = Same e' \<Longrightarrow> e' = e) \<Longrightarrow> rule_sound E rule"
  by (simp add: rule_sound_def)

text \<open>
  What the rules rely on: the compile-time context sees the registry, the equality and the
  rendering of the run; a function that declares itself foldable on constants returns
  what it will return at run time and leaves the world alone; a pure function returns one
  value during an evaluation.
\<close>

locale rule_env =
  fixes E :: "('x, 'k, 'w) eval_env" and cx :: "('x, 'k, 'w) rule_cx"
  assumes same_prim: "cx_prim cx = env_prim E"
    and same_registry: "cx_registry cx = env_registry E"
    and same_render: "cx_render cx = env_render E"
    and foldable: "get_by_ref (env_registry E) f = Some fn \<Longrightarrow> fn_purity fn (replicate (length vs) True) \<Longrightarrow>
      fn_evaluate fn vs (env_context E) w = (fst (fn_evaluate fn vs (cx_context cx) (cx_world cx)), w)"
    and pure: "get_by_ref (env_registry E) f = Some fn \<Longrightarrow> fn_is_pure fn \<Longrightarrow>
      fn_evaluate fn vs (env_context E) w = (fst (fn_evaluate fn vs (env_context E) w'), w)"

lemma those_as_const: "those (map as_const args) = Some vs \<longleftrightarrow> args = map EConst vs"
  by (induction args arbitrary: vs) (auto simp: those_Some_iff split: option.split)

lemma eval_args_const [simp]: "eval_args (eval E) (map EConst vs) s = Inr (vs, s)"
  by (induction vs) simp_all

lemma const_tri_Some:
  "const_tri e = Some t \<longleftrightarrow> (\<exists>v. e = EConst v \<and> tri_of v = t)"
  by (cases e) (auto simp: const_tri_def as_const_def)

lemma field_collapse_sound: "rule_sound E field_collapse"
proof (rule rule_soundI)
  fix e e' :: "'a opt_expr"
  show "field_collapse e = Changed e' \<Longrightarrow> refines E e e'"
    by (auto simp: field_collapse_def static_column_def intro!: refinesI split: opt_expr.splits val.splits)
  show "field_collapse e = Same e' \<Longrightarrow> e' = e"
    by (auto simp: field_collapse_def split: opt_expr.splits val.splits)
qed

text \<open>Splitting a rule on the node it looks at, and the shape of its result.\<close>

lemmas node_splits = opt_expr.splits option.splits if_splits

lemma array_fold_sound: "rule_sound E array_fold"
  by (rule rule_soundI)
    (auto simp: array_fold_def those_as_const static_column_def intro!: refines_eqI split: node_splits)

lemma object_fold_sound: "rule_sound E object_fold"
proof (rule rule_soundI)
  fix e e' :: "'a opt_expr"
  have *: "those (map (\<lambda>p. as_const (snd p)) es) = Some vs \<Longrightarrow> map snd es = map EConst vs"
    for es :: "(string \<times> 'a opt_expr) list" and vs
    using those_as_const [of "map snd es" vs] by (simp add: comp_def)
  show "object_fold e = Changed e' \<Longrightarrow> refines E e e'"
    by (auto simp: object_fold_def static_column_def dest!: * intro!: refines_eqI split: node_splits)
  show "object_fold e = Same e' \<Longrightarrow> e' = e"
    by (auto simp: object_fold_def split: node_splits)
qed

lemma render_all_eval:
  "render_all r vs acc = Some t \<Longrightarrow> eval_interpolation r (eval E) (map EConst vs) acc s = Inr (VText t, s)"
proof (induction vs arbitrary: acc)
  case (Cons v vs)
  have "(case v of VText t \<Rightarrow> t | _ \<Rightarrow> value_to_string r v) = value_to_string r v"
    by (cases v) (simp_all add: value_to_string_def)
  with Cons show ?case by (simp add: Let_def split: if_splits)
qed simp

text \<open>\<open>if\<close> is a \<open>multiIf\<close> of one branch, up to the error's context, and a \<open>multiIf\<close> in the
  default position continues the outer one.\<close>

lemma if_as_multi_if: "refines E (EIf c t e) (EMultiIf [(c, t)] e)" "refines E (EMultiIf [(c, t)] e) (EIf c t e)"
  by (auto simp: eval_if_def static_column_def intro!: refinesI below_bind_eq split: tri.split)

lemma multi_if_append: "eval_multi_if (eval E) (bs @ cs) d s = eval_multi_if (eval E) bs (EMultiIf cs d) s"
proof (induction bs arbitrary: s)
  case (Cons b bs)
  have IH: "eval_multi_if (eval E) (bs @ cs) d = eval_multi_if (eval E) bs (EMultiIf cs d)" using Cons by auto
  obtain c v where b: "b = (c, v)" by fastforce
  show ?case unfolding b append_Cons eval_multi_if.simps IH by (rule refl)
qed simp

lemma multi_if_default_refines: "refines E d d' \<Longrightarrow> refines E (EMultiIf bs d) (EMultiIf bs d')"
  by (auto simp: static_column_def list_all2_same intro!: refinesI eval_multi_if_mono)

lemma multi_if_flatten: "refines E (EMultiIf bs (EMultiIf cs d)) (EMultiIf (bs @ cs) d)"
  "refines E (EMultiIf (bs @ cs) d) (EMultiIf bs (EMultiIf cs d))"
  by (auto simp: static_column_def multi_if_append intro!: refines_eqI)

lemma absorb_if: "refines E (EMultiIf bs (EIf c t e)) (EMultiIf (bs @ [(c, t)]) e)"
  by (rule refines_trans [OF multi_if_default_refines [OF if_as_multi_if(1)] multi_if_flatten(1)])

lemma flatten_conditionals_sound: "rule_sound E flatten_conditionals"
proof (rule rule_soundI)
  fix e e' :: "'a opt_expr"
  have if_if: "refines E (EIf c t (EIf c' t' d)) (EMultiIf [(c, t), (c', t')] d)" for c t c' t' d :: "'a opt_expr"
    using refines_trans [OF if_as_multi_if(1) absorb_if] by simp
  have if_multi: "refines E (EIf c t (EMultiIf bs d)) (EMultiIf ((c, t) # bs) d)" for c t d :: "'a opt_expr" and bs
    using refines_trans [OF if_as_multi_if(1) multi_if_flatten(1)] by simp
  show "flatten_conditionals e = Changed e' \<Longrightarrow> refines E e e'"
    by (auto simp: flatten_conditionals_def flatten_if_def absorb_default_def if_if if_multi absorb_if
      multi_if_flatten split: opt_expr.splits)
  show "flatten_conditionals e = Same e' \<Longrightarrow> e' = e"
    by (auto simp: flatten_conditionals_def flatten_if_def absorb_default_def split: opt_expr.splits)
qed

lemma fold_into_ifs_Cons: "fold_into_ifs ((c, v) # bs) d = EIf c v (fold_into_ifs bs d)"
  by (simp add: fold_into_ifs_def)

lemma fold_into_ifs_refines: "refines E (EMultiIf bs d) (fold_into_ifs bs d)"
proof (induction bs)
  case Nil
  show ?case by (auto simp: fold_into_ifs_def static_column_def intro!: refines_eqI)
next
  case (Cons b bs)
  obtain c v where b: "b = (c, v)" by fastforce
  have "refines E (EMultiIf (b # bs) d) (EMultiIf [(c, v)] (EMultiIf bs d))"
    using multi_if_flatten(2) [of E "[b]" bs d] b by simp
  moreover have "refines E (EMultiIf [(c, v)] (EMultiIf bs d)) (EMultiIf [(c, v)] (fold_into_ifs bs d))"
    by (rule multi_if_default_refines [OF Cons])
  ultimately show ?case
    unfolding b fold_into_ifs_Cons using if_as_multi_if(2) refines_trans by blast
qed

lemma multi_if_collapse_sound: "rule_sound E multi_if_collapse"
  by (rule rule_soundI) (auto simp: multi_if_collapse_def fold_into_ifs_refines split: node_splits)

lemma type_assert_collapse_sound: "rule_sound E type_assert_collapse"
proof (rule rule_soundI)
  fix e e' :: "'a opt_expr"
  have "refines E (ETypeAssert (ETypeAssert x c YieldIdentity) c y) (ETypeAssert x c y)" for x :: "'a opt_expr" and c y
    by (auto simp: static_column_def eval_type_assert_def bind_res_def value_accepted_def intro!: refines_eqI
      split: sum.split option.split bool.split)
  then show "type_assert_collapse e = Changed e' \<Longrightarrow> refines E e e'"
    by (auto simp: type_assert_collapse_def split: node_splits)
  show "type_assert_collapse e = Same e' \<Longrightarrow> e' = e"
    by (auto simp: type_assert_collapse_def split: node_splits)
qed

text \<open>Dead branches.\<close>

lemma prune_branches_eval:
  "prune_branches bs = (kept, nd, ch) \<Longrightarrow>
   eval_multi_if (eval E) bs d = eval_multi_if (eval E) kept (case nd of Some v \<Rightarrow> v | None \<Rightarrow> d)"
proof (induction bs arbitrary: kept nd ch)
  case (Cons b bs)
  obtain c v where b: "b = (c, v)" by fastforce
  obtain k n h where p: "prune_branches bs = (k, n, h)" by (cases "prune_branches bs") auto
  note IH = Cons.IH [OF p]
  show ?case
  proof (cases "const_tri c")
    case None
    then have "kept = (c, v) # k" "nd = n" using Cons.prems b p by auto
    then show ?thesis unfolding b by (intro ext) (simp only: eval_multi_if.simps IH)
  next
    case (Some t)
    then obtain w where c: "c = EConst w" "tri_of w = t" by (auto simp: const_tri_Some)
    show ?thesis
      using Cons.prems Some c p b IH by (cases t) (auto simp: fun_eq_iff)
  qed
qed simp

lemma prune_branches_same: "prune_branches bs = (kept, nd, False) \<Longrightarrow> kept = bs \<and> nd = None"
  by (induction bs arbitrary: kept nd rule: prune_branches.induct) (auto split: option.splits tri.splits prod.splits)

lemma prune_multi_if_refines:
  "prune_multi_if bs d = Changed e' \<Longrightarrow> refines E (EMultiIf bs d) e'"
  "prune_multi_if bs d = Same e' \<Longrightarrow> e' = EMultiIf bs d"
proof -
  obtain kept nd ch where p: "prune_branches bs = (kept, nd, ch)" by (cases "prune_branches bs") auto
  show "prune_multi_if bs d = Changed e' \<Longrightarrow> refines E (EMultiIf bs d) e'"
    using p prune_branches_eval [OF p, of E d]
    by (auto simp: prune_multi_if_def Let_def static_column_def intro!: refines_eqI split: if_splits)
  show "prune_multi_if bs d = Same e' \<Longrightarrow> e' = EMultiIf bs d"
    using p prune_branches_same [of bs kept nd] by (cases ch) (auto simp: prune_multi_if_def Let_def split: if_splits)
qed

lemma bool_assert_and:
  "bool_assert r = Changed e' \<Longrightarrow> below (bind_res (eval E r s) (\<lambda>(w, s2). combine_bool ctx w s2)) (eval E e' s)"
  "bool_assert r \<noteq> Same e'"
proof -
  have a: "below (combine_bool ctx w s2)
     (case value_accepted ClsBool w of
        None \<Rightarrow> Inr (VNull, s2) | Some False \<Rightarrow> Inl (TypeAssertFailed ClsBool) | Some True \<Rightarrow> Inr (case YieldIdentity of YieldIdentity \<Rightarrow> w | YieldConst u \<Rightarrow> u, s2))" for w s2
    by (cases w) (auto simp: combine_bool_def tri_of_def value_accepted_def)
  have "below (bind_res (eval E r s) (\<lambda>(w, s2). combine_bool ctx w s2)) (eval E (ETypeAssert r ClsBool YieldIdentity) s)"
    using a by (auto simp: eval_type_assert_def intro!: below_bind_eq)
  moreover have "tri_of w = TriTrue \<or> tri_of w = TriFalse \<or> tri_of w = TriNull \<Longrightarrow> combine_bool ctx w s = eval E (EConst w) s" for w
    by (auto simp: combine_bool_def)
  ultimately show "bool_assert r = Changed e' \<Longrightarrow> below (bind_res (eval E r s) (\<lambda>(w, s2). combine_bool ctx w s2)) (eval E e' s)"
    by (auto simp: bool_assert_def const_tri_Some split: option.splits tri.splits)
qed (auto simp: bool_assert_def split: option.splits tri.splits)

lemma prune_and_or_refines:
  "prune_and l r = Changed e' \<Longrightarrow> refines E (EAnd l r) e'" "prune_and l r = Same e' \<Longrightarrow> e' = EAnd l r"
  "prune_or l r = Changed e' \<Longrightarrow> refines E (EOr l r) e'" "prune_or l r = Same e' \<Longrightarrow> e' = EOr l r"
  unfolding prune_and_def prune_or_def
  by (auto simp: const_tri_Some static_column_def eval_and_def eval_or_def bool_assert_and bool_assert_and(1) [where r = "EConst v" for v, simplified]
    intro!: refinesI
    split: option.splits tri.splits)

lemma branch_prune_sound:
  assumes "cx_prim cx = env_prim E"
  shows "rule_sound E (branch_prune cx)"
proof (rule rule_soundI)
  fix e e' :: "'a opt_expr"
  have sw: "refines E (ESwitch ins tab d) v"
    if "prune_switch (env_prim E) ins tab d = Changed v" for ins tab d v
    using that by (auto simp: prune_switch_def those_as_const static_column_def eval_switch_def
      intro!: refines_eqI split: option.splits)
  show "branch_prune cx e = Changed e' \<Longrightarrow> refines E e e'"
    by (auto simp: branch_prune_def assms sw prune_multi_if_refines prune_and_or_refines prune_if_def prune_if_null_def
      prune_null_if_def const_tri_Some static_column_def eval_if_def eval_if_null_def eval_null_if_def bind_res_def
      intro!: refines_eqI split: opt_expr.splits option.splits tri.splits if_splits sum.split)
  show "branch_prune cx e = Same e' \<Longrightarrow> e' = e"
    by (auto simp: branch_prune_def prune_multi_if_refines prune_and_or_refines prune_if_def prune_if_null_def
      prune_null_if_def prune_switch_def split: opt_expr.splits option.splits tri.splits if_splits)
qed

text \<open>De Morgan, with the builtin \<open>not\<close>.\<close>

lemma eval_not:
  assumes "get_by_ref (env_registry E) f = Some not_func"
  shows "eval E (ECall f [e]) s =
     bind_res (eval E e s) (\<lambda>(v, s1).
       case tri_of v of
         TriTrue \<Rightarrow> Inr (VBool False, s1)
       | TriFalse \<Rightarrow> Inr (VBool True, s1)
       | TriNull \<Rightarrow> Inr (VNull, s1)
       | TriOther \<Rightarrow> Inl (FunctionFailed (TypeMismatch ''not'')))"
  using assms
  by (auto simp: call_function_def not_func_def not_evaluate_def bind_res_def split: sum.split tri.split)

lemma de_morgan_and:
  assumes "get_by_ref (env_registry E) f = Some not_func"
  shows "refines E (EAnd (ECall f [a]) (ECall f [b])) (ECall f [EOr a b])"
proof (rule refinesI)
  fix s
  have "below (eval_and (eval E) (ECall f [a]) (ECall f [b]) s) (bind_res (eval_or (eval E) a b s) (\<lambda>(v, s1).
       case tri_of v of
         TriTrue \<Rightarrow> Inr (VBool False, s1)
       | TriFalse \<Rightarrow> Inr (VBool True, s1)
       | TriNull \<Rightarrow> Inr (VNull, s1)
       | TriOther \<Rightarrow> Inl (FunctionFailed (TypeMismatch ''not''))))"
    unfolding eval_and_def eval_or_def eval_not [OF assms]
    by (auto simp: bind_res_def combine_bool_def split: sum.split tri.split)
  then show "below (eval E (EAnd (ECall f [a]) (ECall f [b])) s) (eval E (ECall f [EOr a b]) s)"
    unfolding eval_not [OF assms] by simp
qed (simp add: static_column_def)

lemma de_morgan_or:
  assumes "get_by_ref (env_registry E) f = Some not_func"
  shows "refines E (EOr (ECall f [a]) (ECall f [b])) (ECall f [EAnd a b])"
proof (rule refinesI)
  fix s
  have "below (eval_or (eval E) (ECall f [a]) (ECall f [b]) s) (bind_res (eval_and (eval E) a b s) (\<lambda>(v, s1).
       case tri_of v of
         TriTrue \<Rightarrow> Inr (VBool False, s1)
       | TriFalse \<Rightarrow> Inr (VBool True, s1)
       | TriNull \<Rightarrow> Inr (VNull, s1)
       | TriOther \<Rightarrow> Inl (FunctionFailed (TypeMismatch ''not''))))"
    unfolding eval_and_def eval_or_def eval_not [OF assms]
    by (auto simp: bind_res_def combine_bool_def split: sum.split tri.split)
  then show "below (eval E (EOr (ECall f [a]) (ECall f [b])) s) (eval E (ECall f [EAnd a b]) s)"
    unfolding eval_not [OF assms] by simp
qed (simp add: static_column_def)

lemma peel_not_cases: "peel_not f e = Inr a \<longleftrightarrow> e = ECall f [a]" "peel_not f e = Inl e' \<Longrightarrow> e' = e"
  by (auto simp: peel_not_def split: opt_expr.splits list.splits if_splits)

lemma restore_peel [simp]: "restore_not f (peel_not f e) = e"
proof (cases "peel_not f e")
  case (Inr a)
  then show ?thesis using peel_not_cases(1) [of f e a] by (simp add: restore_not_def wrap_not_def)
qed (simp add: restore_not_def peel_not_cases(2))

lemma de_morgan_sound:
  assumes "\<And>f. not_ref = Some f \<Longrightarrow> get_by_ref (env_registry E) f = Some not_func"
  shows "rule_sound E (de_morgan not_ref)"
proof (rule rule_soundI)
  fix e e' :: "'a opt_expr"
  show "de_morgan not_ref e = Changed e' \<Longrightarrow> refines E e e'"
    using de_morgan_and de_morgan_or assms
    by (auto simp: de_morgan_def peel_not_cases wrap_not_def split: option.splits opt_expr.splits sum.splits)
  have id: "restore_not f (Inl l) = l" "restore_not f (Inr l) = ECall f [l]" for f and l :: "'a opt_expr"
    by (simp_all add: restore_not_def wrap_not_def)
  show "de_morgan not_ref e = Same e' \<Longrightarrow> e' = e"
    by (auto simp: de_morgan_def peel_not_cases id split: option.splits opt_expr.splits sum.splits dest: peel_not_cases(2))
qed

text \<open>Constant folding, under the contract of the registry.\<close>

context rule_env
begin

lemma const_fold_sound: "rule_sound E (const_fold cx)"
proof (rule rule_soundI)
  fix e e' :: "'x opt_expr"
  show "refines E e e'" if fold: "const_fold cx e = Changed e'"
  proof -
    obtain f vs fn v where e: "e = ECall f (map EConst vs)" and fn: "get_by_ref (env_registry E) f = Some fn"
      and p: "fn_purity fn (replicate (length vs) True)" and e': "e' = EConst v"
      and v: "fst (fn_evaluate fn vs (cx_context cx) (cx_world cx)) = Inr v"
      using fold
      by (auto simp: const_fold_def same_registry those_as_const split: opt_expr.splits option.splits if_splits sum.splits)
    show ?thesis
      unfolding e e' using foldable [OF fn p] fn v
      by (auto simp: static_column_def call_function_def intro!: refines_eqI)
  qed
  show "const_fold cx e = Same e' \<Longrightarrow> e' = e"
    by (auto simp: const_fold_def split: opt_expr.splits option.splits if_splits sum.splits)
qed

lemma interpolation_fold_sound: "rule_sound E (interpolation_fold cx)"
  by (rule rule_soundI)
    (auto simp: interpolation_fold_def same_render those_as_const static_column_def render_all_eval
      intro!: refines_eqI split: node_splits)

end

end
