(* ===== verification/OptDriver.thy ===== *)
theory OptDriver
  imports OptRules
begin

text \<open>
  The rewrite driver (\<open>rules/rewrite_driver.rs\<close>): a bottom-up walk that brings every node
  to a local fixpoint of the rule set, and the sweep of the finalize rules. The walk re-optimizes
  the children of every rewritten node, so its recursion is not structural: \<open>optimize_expr\<close>
  takes fuel, is \<open>None\<close> when the fuel does not suffice, and is shown to return for every tree
  once the fuel exceeds the tree's \<open>weight\<close>. The weight counts a branch value once per
  node of its condition, because lowering to a switch copies the value into one table entry
  per key; the number of nodes, which the code names as the measure, may grow.
\<close>

section \<open>The driver\<close>

definition MAX_LOCAL_ITERS :: nat where
  "MAX_LOCAL_ITERS = 32"

type_synonym 'x rule = "'x opt_expr \<Rightarrow> 'x rewrite"

text \<open>One pass over the rules, and whether one of them fired.\<close>

fun rule_sweep ::
  "('x opt_expr \<Rightarrow> 'x opt_expr option) \<Rightarrow> 'x rule list \<Rightarrow> 'x opt_expr \<Rightarrow> bool \<Rightarrow> ('x opt_expr \<times> bool) option" where
  "rule_sweep recurse [] e changed = Some (e, changed)"
| "rule_sweep recurse (rule # rules) e changed =
     (case rule e of
        Changed rewritten \<Rightarrow>
          (case map_children recurse rewritten of
             None \<Rightarrow> None
           | Some e' \<Rightarrow> rule_sweep recurse rules e' True)
      | Same unchanged \<Rightarrow> rule_sweep recurse rules unchanged changed)"

fun local_fixpoint ::
  "('x opt_expr \<Rightarrow> 'x opt_expr option) \<Rightarrow> 'x rule list \<Rightarrow> nat \<Rightarrow> 'x opt_expr \<Rightarrow> 'x opt_expr option" where
  "local_fixpoint recurse rules 0 e = Some e"
| "local_fixpoint recurse rules (Suc n) e =
     (case rule_sweep recurse rules e False of
        None \<Rightarrow> None
      | Some (e', changed) \<Rightarrow> if changed then local_fixpoint recurse rules n e' else Some e')"

fun optimize_expr :: "nat \<Rightarrow> 'x rule list \<Rightarrow> 'x opt_expr \<Rightarrow> 'x opt_expr option" where
  "optimize_expr 0 rules e = None"
| "optimize_expr (Suc fuel) rules e =
     (case map_children (optimize_expr fuel rules) e of
        None \<Rightarrow> None
      | Some e' \<Rightarrow> local_fixpoint (optimize_expr fuel rules) rules MAX_LOCAL_ITERS e')"

definition rewritten_node :: "'x rewrite \<Rightarrow> 'x opt_expr" where
  "rewritten_node r = (case r of Changed e \<Rightarrow> e | Same e \<Rightarrow> e)"

function finalize_expr :: "'x rule list \<Rightarrow> 'x opt_expr \<Rightarrow> 'x opt_expr" where
  "finalize_expr rules e =
     foldl (\<lambda>e rule. rewritten_node (rule e)) (rebuild e (map (finalize_expr rules) (children e))) rules"
  by pat_completeness auto
termination
  by (relation "measure (\<lambda>(rules, e). size e)") (auto simp: children_size)

declare finalize_expr.simps [simp del]

record 'x opt_program =
  prog_statements :: "(u16 \<times> 'x opt_expr) list"
  prog_result :: "'x opt_expr"
  prog_register_count :: u16

definition rewrite_program :: "('x opt_expr \<Rightarrow> 'x opt_expr option) \<Rightarrow> 'x opt_program \<Rightarrow> 'x opt_program option" where
  "rewrite_program rewrite p =
     (case those (map (\<lambda>(r, e). map_option (Pair r) (rewrite e)) (prog_statements p)) of
        None \<Rightarrow> None
      | Some statements \<Rightarrow>
          (case rewrite (prog_result p) of
             None \<Rightarrow> None
           | Some result \<Rightarrow> Some (p\<lparr>prog_statements := statements, prog_result := result\<rparr>)))"

text \<open>What a program computes: its statements into their registers, then the result.\<close>

definition run_program :: "('x, 'k, 'w) eval_env \<Rightarrow> 'x opt_program \<Rightarrow> 'w \<Rightarrow> eval_error + 'x val \<times> 'w" where
  "run_program E p w =
     bind_res (eval E (EBlock (prog_statements p) (prog_result p)) (\<lambda>_. VNull, w)) (\<lambda>(v, s). Inr (v, snd s))"

section \<open>The driver preserves meaning\<close>

lemma rule_sweep_refines:
  assumes "\<forall>rule \<in> set rules. rule_sound E rule" "\<And>e e'. recurse e = Some e' \<Longrightarrow> refines E e e'"
    and "rule_sweep recurse rules e b = Some (e', b')"
  shows "refines E e e'"
  using assms(1,3)
proof (induction rules arbitrary: e b)
  case (Cons rule rules)
  show ?case
  proof (cases "rule e")
    case (Changed r)
    then obtain e1 where e1: "map_children recurse r = Some e1" "rule_sweep recurse rules e1 True = Some (e', b')"
      using Cons.prems by (auto split: option.splits)
    have "refines E e r" using Changed Cons.prems(1) by (auto simp: rule_sound_def)
    moreover have "refines E r e1" using map_children_refines [OF e1(1)] assms(2) by blast
    moreover have "refines E e1 e'" using Cons.IH e1(2) Cons.prems(1) by auto
    ultimately show ?thesis using refines_trans by blast
  next
    case (Same u)
    then have "u = e" using Cons.prems(1) by (auto simp: rule_sound_def)
    with Same Cons show ?thesis by auto
  qed
qed simp

lemma local_fixpoint_refines:
  assumes "\<forall>rule \<in> set rules. rule_sound E rule" "\<And>e e'. recurse e = Some e' \<Longrightarrow> refines E e e'"
    and "local_fixpoint recurse rules n e = Some e'"
  shows "refines E e e'"
  using assms(3)
proof (induction n arbitrary: e)
  case (Suc n)
  then obtain e1 b where "rule_sweep recurse rules e False = Some (e1, b)"
    and e1: "(if b then local_fixpoint recurse rules n e1 else Some e1) = Some e'"
    by (auto split: option.splits)
  then have "refines E e e1" using rule_sweep_refines assms(1,2) by blast
  moreover have "refines E e1 e'" using e1 Suc.IH by (auto split: if_splits)
  ultimately show ?case using refines_trans by blast
qed simp

lemma optimize_expr_refines:
  assumes "\<forall>rule \<in> set rules. rule_sound E rule"
  shows "optimize_expr fuel rules e = Some e' \<Longrightarrow> refines E e e'"
proof (induction fuel arbitrary: e e')
  case (Suc fuel)
  then obtain e1 where e1: "map_children (optimize_expr fuel rules) e = Some e1"
    "local_fixpoint (optimize_expr fuel rules) rules MAX_LOCAL_ITERS e1 = Some e'"
    by (auto split: option.splits)
  have "refines E e e1" using map_children_refines [OF e1(1)] Suc.IH by blast
  moreover have "refines E e1 e'" using local_fixpoint_refines [OF assms Suc.IH e1(2)] .
  ultimately show ?case using refines_trans by blast
qed simp

lemma apply_once_refines:
  "\<forall>rule \<in> set rules. rule_sound E rule \<Longrightarrow> refines E a (foldl (\<lambda>e rule. rewritten_node (rule e)) a rules)"
proof (induction rules arbitrary: a)
  case (Cons rule rules)
  have "refines E a (rewritten_node (rule a))"
    using Cons.prems by (cases "rule a") (auto simp: rule_sound_def rewritten_node_def)
  then show ?case using Cons refines_trans by fastforce
qed simp

lemma finalize_expr_refines:
  "\<forall>rule \<in> set rules. rule_sound E rule \<Longrightarrow> refines E e (finalize_expr rules e)"
proof (induction rules e rule: finalize_expr.induct)
  case (1 rules e)
  have "list_all2 (refines E) (children e) (map (finalize_expr rules) (children e))"
    using 1 by (auto simp: list_all2_map2 intro!: list_all2_all_nthI)
  then have "refines E e (rebuild e (map (finalize_expr rules) (children e)))" by (rule refines_rebuild)
  then show ?case
    using apply_once_refines [OF "1.prems"] refines_trans by (subst finalize_expr.simps) blast
qed

lemma rewrite_program_refines:
  assumes "\<And>e e'. rewrite e = Some e' \<Longrightarrow> refines E e e'" "rewrite_program rewrite p = Some p'"
  shows "refines E (EBlock (prog_statements p) (prog_result p)) (EBlock (prog_statements p') (prog_result p'))"
proof -
  let ?R = "\<lambda>p q. fst p = fst q \<and> refines E (snd p) (snd q)"
  obtain ss r where ss: "list_all2 (\<lambda>x y. (\<lambda>(r, e). map_option (Pair r) (rewrite e)) x = Some y) (prog_statements p) ss"
    and r: "rewrite (prog_result p) = Some r" and p': "p' = p\<lparr>prog_statements := ss, prog_result := r\<rparr>"
    using assms(2) by (auto simp: rewrite_program_def those_Some_iff split: option.splits)
  have "list_all2 ?R (prog_statements p) ss"
    using ss by (rule list_all2_mono) (auto intro: assms(1))
  then show ?thesis
    using p' assms(1) [OF r] by (auto simp: static_column_def intro!: refinesI eval_block_mono)
qed

lemma run_program_below:
  "refines E (EBlock (prog_statements p) (prog_result p)) (EBlock (prog_statements p') (prog_result p')) \<Longrightarrow>
   below (run_program E p w) (run_program E p' w)"
  unfolding run_program_def by (intro below_bind refinesD) auto

section \<open>The driver returns\<close>

definition branch_weight :: "nat \<times> nat \<Rightarrow> nat" where
  "branch_weight p = fst p + fst p * snd p"

text \<open>The weight of a node from the weights of its children.\<close>

definition node_weight :: "'x opt_expr \<Rightarrow> nat list \<Rightarrow> nat" where
  "node_weight e ws =
     (case e of
        EIf _ _ _ \<Rightarrow> 1 + branch_weight (ws ! 0, ws ! 1) + ws ! 2
      | EMultiIf _ _ \<Rightarrow> 1 + sum_list (map branch_weight (pair_up (butlast ws))) + last ws
      | _ \<Rightarrow> 1 + sum_list ws)"

function weight :: "'x opt_expr \<Rightarrow> nat" where
  "weight e = node_weight e (map weight (children e))"
  by pat_completeness auto
termination
  by (relation "measure size") (auto simp: children_size)

declare weight.simps [simp del]

lemma pair_up_concat [simp]: "pair_up (concat (map (\<lambda>(c, v). [c, v]) bs)) = bs"
  by (induction bs) auto

lemma pair_up_map: "pair_up (map f xs) = map (map_prod f f) (pair_up xs)"
  by (induction xs rule: pair_up.induct) auto

lemma weight_simps [simp]:
  "weight (EConst k) = 1" "weight (ERegister reg) = 1" "weight (ESourceField n) = 1" "weight (EFields sel) = 1"
  "weight (EField e) = 1 + weight e"
  "weight (ECall f args) = 1 + sum_list (map weight args)"
  "weight (EIf c t e) = 1 + weight c + weight c * weight t + weight e"
  "weight (EMultiIf bs d) = 1 + sum_list (map (\<lambda>(c, v). weight c + weight c * weight v) bs) + weight d"
  "weight (EIfNull a b) = 1 + weight a + weight b" "weight (ENullIf a b) = 1 + weight a + weight b"
  "weight (EAnd a b) = 1 + weight a + weight b" "weight (EOr a b) = 1 + weight a + weight b"
  "weight (EInterpolation es) = 1 + sum_list (map weight es)"
  "weight (EObject ps) = 1 + sum_list (map (\<lambda>p. weight (snd p)) ps)"
  "weight (EArray es) = 1 + sum_list (map weight es)"
  "weight (ESwitch ins tab d) = 1 + sum_list (map weight ins) + sum_list (map (\<lambda>p. weight (snd p)) tab) + weight d"
  "weight (ETypeAssert e cls y) = 1 + weight e"
  "weight (EBlock ss r) = 1 + sum_list (map (\<lambda>p. weight (snd p)) ss) + weight r"
proof -
  have "pair_up (map weight (concat (map (\<lambda>(c, v). [c, v]) bs))) = map (map_prod weight weight) bs"
    unfolding pair_up_map by simp
  then show "weight (EMultiIf bs d) = 1 + sum_list (map (\<lambda>(c, v). weight c + weight c * weight v) bs) + weight d"
    by (subst weight.simps)
      (simp only: node_weight_def children.simps opt_expr.case map_append list.map butlast_snoc last_snoc map_map comp_def
        branch_weight_def case_prod_beta' fst_map_prod snd_map_prod)
qed (subst weight.simps, simp add: node_weight_def branch_weight_def comp_def)+

lemma weight_pos: "0 < weight e"
  by (cases e) simp_all

lemma sum_list_le: "x \<in> set xs \<Longrightarrow> f x \<le> sum_list (map f xs)" for f :: "'a \<Rightarrow> nat"
  by (rule member_le_sum_list) simp_all

lemma branch_weight_le:
  "(c, v) \<in> set bs \<Longrightarrow> weight c + weight c * weight v \<le> sum_list (map (\<lambda>(c, v). weight c + weight c * weight v) bs)"
  using sum_list_le [of "(c, v)" bs "\<lambda>(c, v). weight c + weight c * weight v"] by simp

lemma weight_mult: "weight v \<le> weight c * weight v" "weight c \<le> weight c * weight v"
  using weight_pos [of c] weight_pos [of v] by simp_all

lemma weight_branch [simp]: "weight v \<le> weight c + weight c * weight v + n" "weight v \<le> Suc (weight c + weight c * weight v + n)"
  using weight_mult(1) [of v c] by linarith+

lemma weight_child: "c \<in> set (children e) \<Longrightarrow> weight c < weight e"
proof (cases e)
  case (EIf a t b)
  have "weight a < weight e" "weight t < weight e" "weight b < weight e"
    using weight_mult(1) [of t a] unfolding EIf weight_simps by linarith+
  then show "c \<in> set (children e) \<Longrightarrow> ?thesis" using EIf by auto
next
  case (EMultiIf bs d)
  have "(a, v) \<in> set bs \<Longrightarrow> weight a < weight e \<and> weight v < weight e" for a v
  proof -
    assume "(a, v) \<in> set bs"
    then show ?thesis
      using branch_weight_le [of a v bs] weight_mult(1) [of v a] unfolding EMultiIf weight_simps by linarith
  qed
  then show "c \<in> set (children e) \<Longrightarrow> ?thesis" using EMultiIf by auto
next
  case (EObject ps)
  then show "c \<in> set (children e) \<Longrightarrow> ?thesis" using sum_list_le [of _ ps "\<lambda>p. weight (snd p)"] by (auto simp: less_Suc_eq_le)
next
  case (ESwitch ins tab d)
  then show "c \<in> set (children e) \<Longrightarrow> ?thesis"
    using sum_list_le [of _ tab "\<lambda>p. weight (snd p)"] sum_list_le [of c ins weight] by (auto simp: less_Suc_eq_le trans_le_add1 trans_le_add2)
next
  case (EBlock ss r)
  then show "c \<in> set (children e) \<Longrightarrow> ?thesis" using sum_list_le [of _ ss "\<lambda>p. weight (snd p)"] by (auto simp: less_Suc_eq_le trans_le_add1)
qed (use sum_list_le [of c _ weight] in \<open>auto simp: less_Suc_eq_le\<close>)

lemma children_rebuild: "length cs = length (children e) \<Longrightarrow> children (rebuild e cs) = cs"
proof (cases e)
  case (EMultiIf bs d)
  have pairs: "concat (map (\<lambda>(c, v). [c, v]) (pair_up zs)) = zs" if "even (length zs)" for zs :: "'a opt_expr list"
    using that by (induction zs rule: pair_up.induct) auto
  have "length (concat (map (\<lambda>(c, v). [c, v]) bs)) = 2 * length bs" by (induction bs) auto
  with EMultiIf show "length cs = length (children e) \<Longrightarrow> ?thesis"
    by (cases cs rule: rev_cases) (auto simp: pairs)
next
  case (ESwitch ins tab d)
  then show "length cs = length (children e) \<Longrightarrow> ?thesis"
    by (cases cs rule: rev_cases) (auto simp: take_append append_take_drop_id)
next
  case (EBlock ss r)
  then show "length cs = length (children e) \<Longrightarrow> ?thesis" by (cases cs rule: rev_cases) auto
qed (auto simp: length_Suc_conv numeral_3_eq_3 numeral_2_eq_2)

lemma node_weight_rebuild [simp]: "node_weight (rebuild e cs) ws = node_weight e ws"
  by (cases e) (simp_all add: node_weight_def)

lemma pair_up_rel2: "list_all2 R xs ys \<Longrightarrow> list_all2 (\<lambda>p q. R (fst p) (fst q) \<and> R (snd p) (snd q)) (pair_up xs) (pair_up ys)"
  by (induction xs arbitrary: ys rule: pair_up.induct) (auto simp: list_all2_Cons1)

lemma sum_list_rel_mono: "list_all2 (\<le>) xs ys \<Longrightarrow> sum_list xs \<le> sum_list ys" for xs :: "nat list"
  by (induction xs ys rule: list_all2_induct) auto

lemma node_weight_mono:
  assumes "list_all2 (\<le>) ws ws'" "length ws = length (children e)"
  shows "node_weight e ws \<le> node_weight e ws'"
proof (cases e)
  case (EMultiIf bs d)
  then obtain us w where ws: "ws = us @ [w]" using assms(2) by (cases ws rule: rev_cases) auto
  then obtain us' w' where ws': "ws' = us' @ [w']" "list_all2 (\<le>) us us'" "w \<le> w'"
    using assms(1) by (auto simp: list_all2_snoc1)
  have "list_all2 (\<le>) (map branch_weight (pair_up us)) (map branch_weight (pair_up us'))"
    using pair_up_rel2 [OF ws'(2)]
    by (auto simp: list_all2_map1 list_all2_map2 branch_weight_def elim!: list_all2_mono intro!: add_mono mult_le_mono)
  then have "sum_list (map branch_weight (pair_up us)) \<le> sum_list (map branch_weight (pair_up us'))"
    by (rule sum_list_rel_mono)
  then show ?thesis using EMultiIf ws ws' by (simp add: node_weight_def)
next
  case (EIf c t b)
  then obtain x y z where ws: "ws = [x, y, z]" using assms(2) by (auto simp: length_Suc_conv numeral_3_eq_3)
  then obtain x' y' z' where ws': "ws' = [x', y', z']" "x \<le> x'" "y \<le> y'" "z \<le> z'"
    using assms(1) by (auto simp: list_all2_Cons1)
  then show ?thesis using EIf ws by (auto simp: node_weight_def branch_weight_def intro!: add_mono mult_le_mono)
qed (use sum_list_rel_mono [OF assms(1)] in \<open>simp_all add: node_weight_def\<close>)

lemma weight_rebuild:
  assumes "list_all2 (\<lambda>c c'. weight c' \<le> weight c) (children e) cs"
  shows "weight (rebuild e cs) \<le> weight e"
proof -
  have len: "length cs = length (children e)" using assms by (auto dest: list_all2_lengthD)
  have "list_all2 (\<le>) (map weight cs) (map weight (children e))"
    using assms by (auto simp: list_all2_conv_all_nth)
  then have "node_weight e (map weight cs) \<le> node_weight e (map weight (children e))"
    by (rule node_weight_mono) (simp add: len)
  then show ?thesis
    by (simp add: weight.simps [of e] weight.simps [of "rebuild e cs"] children_rebuild [OF len])
qed

text \<open>A rule that never makes the tree heavier; all the rules of the code are such.\<close>

definition rule_light :: "'x rule \<Rightarrow> bool" where
  "rule_light rule \<longleftrightarrow> (\<forall>e e'. (rule e = Changed e' \<longrightarrow> weight e' \<le> weight e) \<and> (rule e = Same e' \<longrightarrow> e' = e))"

definition lightens :: "('x opt_expr \<Rightarrow> 'x opt_expr option) \<Rightarrow> 'x opt_expr \<Rightarrow> bool" where
  "lightens recurse e \<longleftrightarrow> (\<exists>e'. recurse e = Some e' \<and> weight e' \<le> weight e)"

lemma map_children_lightens:
  assumes "\<And>c. weight c \<le> n \<Longrightarrow> lightens recurse c" "weight e \<le> Suc n"
  shows "lightens (map_children recurse) e"
proof -
  have "\<exists>cs. list_all2 (\<lambda>c c'. recurse c = Some c' \<and> weight c' \<le> weight c) es cs"
    if "set es \<subseteq> set (children e)" for es
    using that
  proof (induction es)
    case (Cons a es)
    then have "weight a \<le> n" using weight_child [of a e] assms(2) by simp
    then obtain a' where "recurse a = Some a'" "weight a' \<le> weight a" using assms(1) by (auto simp: lightens_def)
    with Cons show ?case by (auto simp: list_all2_Cons1)
  qed (auto intro: exI [of _ "[]"])
  from this [OF order_refl] obtain cs
    where cs: "list_all2 (\<lambda>c c'. recurse c = Some c' \<and> weight c' \<le> weight c) (children e) cs" by blast
  then have "those (map recurse (children e)) = Some cs" "weight (rebuild e cs) \<le> weight e"
    by (auto simp: those_Some_iff elim: list_all2_mono intro!: weight_rebuild)
  then show ?thesis by (simp add: lightens_def map_children_def)
qed

lemma rule_sweep_lightens:
  assumes "\<And>c. weight c \<le> n \<Longrightarrow> lightens recurse c" "\<forall>rule \<in> set rules. rule_light rule"
  shows "weight e \<le> Suc n \<Longrightarrow> \<exists>e' b'. rule_sweep recurse rules e b = Some (e', b') \<and> weight e' \<le> weight e"
  using assms(2)
proof (induction rules arbitrary: e b)
  case (Cons rule rules)
  show ?case
  proof (cases "rule e")
    case (Changed r)
    then have r: "weight r \<le> weight e" using Cons.prems by (auto simp: rule_light_def)
    then obtain e1 where e1: "map_children recurse r = Some e1" "weight e1 \<le> weight r"
      using map_children_lightens [of n recurse r, OF assms(1)] Cons.prems(1) by (auto simp: lightens_def)
    then obtain e' b' where "rule_sweep recurse rules e1 True = Some (e', b')" "weight e' \<le> weight e1"
      using Cons.IH [of e1 True] Cons.prems r by auto
    with Changed e1 r show ?thesis by auto
  next
    case (Same u)
    then have "u = e" using Cons.prems by (auto simp: rule_light_def)
    with Same Cons show ?thesis by auto
  qed
qed simp

lemma local_fixpoint_lightens:
  assumes "\<And>c. weight c \<le> n \<Longrightarrow> lightens recurse c" "\<forall>rule \<in> set rules. rule_light rule"
  shows "weight e \<le> Suc n \<Longrightarrow> lightens (local_fixpoint recurse rules k) e"
proof (induction k arbitrary: e)
  case (Suc k)
  obtain e' b' where s: "rule_sweep recurse rules e False = Some (e', b')" "weight e' \<le> weight e"
    using rule_sweep_lightens [of n recurse rules e False, OF assms] Suc.prems by auto
  moreover have "lightens (local_fixpoint recurse rules k) e'" using Suc s by simp
  ultimately show ?case by (auto simp: lightens_def)
qed (simp add: lightens_def)

lemma optimize_expr_lightens:
  "\<forall>rule \<in> set rules. rule_light rule \<Longrightarrow> weight e \<le> fuel \<Longrightarrow> lightens (optimize_expr fuel rules) e"
proof (induction fuel arbitrary: e)
  case 0
  then show ?case using weight_pos [of e] by simp
next
  case (Suc fuel)
  then have rec: "weight c \<le> fuel \<Longrightarrow> lightens (optimize_expr fuel rules) c" for c by blast
  obtain e1 where e1: "map_children (optimize_expr fuel rules) e = Some e1" "weight e1 \<le> weight e"
    using map_children_lightens [OF rec Suc.prems(2)] by (auto simp: lightens_def)
  then have "lightens (local_fixpoint (optimize_expr fuel rules) rules MAX_LOCAL_ITERS) e1"
    using local_fixpoint_lightens [OF rec Suc.prems(1)] Suc.prems(2) by simp
  with e1 show ?case by (auto simp: lightens_def)
qed

section \<open>The rules are light\<close>

lemma rule_lightI:
  "(\<And>e e'. rule e = Changed e' \<Longrightarrow> weight e' \<le> weight e) \<Longrightarrow> (\<And>e e'. rule e = Same e' \<Longrightarrow> e' = e) \<Longrightarrow> rule_light rule"
  by (simp add: rule_light_def)

lemma sound_same: "rule_sound E rule \<Longrightarrow> rule e = Same e' \<Longrightarrow> e' = e"
  by (simp add: rule_sound_def)

lemma weight_ge_1: "Suc 0 \<le> weight e"
  using weight_pos [of e] by linarith

lemma field_collapse_light: "rule_light field_collapse"
  by (rule rule_lightI [OF _ sound_same [OF field_collapse_sound]])
    (auto simp: field_collapse_def split: opt_expr.splits val.splits)

lemma const_fold_light: "rule_light (const_fold cx)"
  by (rule rule_lightI) (auto simp: const_fold_def split: node_splits sum.splits)

lemma interpolation_fold_light: "rule_light (interpolation_fold cx)"
  by (rule rule_lightI) (auto simp: interpolation_fold_def split: node_splits)

lemma object_fold_light: "rule_light object_fold"
  by (rule rule_lightI) (auto simp: object_fold_def split: node_splits)

lemma array_fold_light: "rule_light array_fold"
  by (rule rule_lightI) (auto simp: array_fold_def split: node_splits)

lemma flatten_conditionals_light: "rule_light flatten_conditionals"
  by (rule rule_lightI [OF _ sound_same [OF flatten_conditionals_sound]])
    (auto simp: flatten_conditionals_def flatten_if_def absorb_default_def split: opt_expr.splits)

lemma prune_branches_weight:
  "prune_branches bs = (kept, nd, ch) \<Longrightarrow>
   sum_list (map (\<lambda>(c, v). weight c + weight c * weight v) kept) + (case nd of Some v \<Rightarrow> weight v | None \<Rightarrow> 0)
     \<le> sum_list (map (\<lambda>(c, v). weight c + weight c * weight v) bs)"
proof (induction bs arbitrary: kept nd ch)
  case (Cons b bs)
  obtain c v where b: "b = (c, v)" by fastforce
  obtain k n h where p: "prune_branches bs = (k, n, h)" by (cases "prune_branches bs") auto
  note IH = Cons.IH [OF p]
  consider "const_tri c = None" | t where "const_tri c = Some t" by (cases "const_tri c") auto
  then show ?case
  proof cases
    case 1
    then show ?thesis using Cons.prems b p IH by auto
  next
    case 2
    then show ?thesis using Cons.prems b p IH by (cases t) auto
  qed
qed simp

lemma branch_prune_light: "rule_light (branch_prune cx)"
proof (rule rule_lightI)
  fix e e' :: "'a opt_expr"
  have same: "branch_prune cx e = Same e' \<Longrightarrow> e' = e"
    by (auto simp: branch_prune_def prune_multi_if_refines prune_and_or_refines prune_if_def prune_if_null_def
      prune_null_if_def prune_switch_def split: opt_expr.splits option.splits tri.splits if_splits)
  then show "branch_prune cx e = Same e' \<Longrightarrow> e' = e" .
  have m: "weight e' \<le> weight (EMultiIf bs d)" if pm: "prune_multi_if bs d = Changed e'" for bs d
  proof -
    obtain kept nd ch where p: "prune_branches bs = (kept, nd, ch)" by (cases "prune_branches bs") auto
    show ?thesis
      using pm p prune_branches_weight [OF p] by (auto simp: prune_multi_if_def Let_def split: if_splits option.splits)
  qed
  have i: "weight e' \<le> weight (EIf c t f)" if "prune_if c t f = Changed e'" for c t f
  proof -
    have "e' = t \<or> e' = f" using that by (auto simp: prune_if_def split: option.splits tri.splits)
    then show ?thesis by auto
  qed
  have w: "weight e' \<le> weight (ESwitch ins tab d)" if "prune_switch P ins tab d = Changed e'" for P ins tab d
  proof -
    have "e' = d \<or> (\<exists>k. (k, e') \<in> set tab)"
      using that by (auto simp: prune_switch_def split: option.splits dest: switch_entry_in)
    then show ?thesis using sum_list_le [of _ tab "\<lambda>p. weight (snd p)"] by fastforce
  qed
  show "branch_prune cx e = Changed e' \<Longrightarrow> weight e' \<le> weight e"
    using m i w
    by (cases e)
      (auto simp: branch_prune_def prune_if_null_def prune_null_if_def prune_and_def prune_or_def bool_assert_def weight_ge_1
        trans_le_add1 trans_le_add2 le_SucI split: option.splits tri.splits if_splits)
qed

lemma de_morgan_light: "rule_light (de_morgan not_ref)"
proof (rule rule_lightI)
  fix e e' :: "'a opt_expr"
  show "de_morgan not_ref e = Changed e' \<Longrightarrow> weight e' \<le> weight e"
    by (auto simp: de_morgan_def peel_not_cases wrap_not_def split: option.splits opt_expr.splits sum.splits)
  have id: "restore_not f (Inl l) = l" "restore_not f (Inr l) = ECall f [l]" for f and l :: "'a opt_expr"
    by (simp_all add: restore_not_def wrap_not_def)
  show "de_morgan not_ref e = Same e' \<Longrightarrow> e' = e"
    by (auto simp: de_morgan_def peel_not_cases id split: option.splits opt_expr.splits sum.splits dest: peel_not_cases(2))
qed

lemma type_assert_collapse_light: "rule_light type_assert_collapse"
  by (rule rule_lightI [OF _ sound_same [OF type_assert_collapse_sound]])
    (auto simp: type_assert_collapse_def split: node_splits)

end
