(* ===== verification/OptSwitch.thy ===== *)
theory OptSwitch
  imports OptDriver
begin

text \<open>
  Switch lowering: a long \<open>multiIf\<close> of equality tests, or a long \<open>||\<close> of them, becomes a
  constant-key dispatch table (\<open>rules/switch_build.rs\<close>, \<open>switch_lower.rs\<close>, \<open>or_membership.rs\<close>,
  \<open>switch_collapse.rs\<close>). The rules are right when structurally equal key expressions are
  the same expression and only the first key expression of a composite key can fail; both
  conditions matter, and both are missing in the code.
\<close>

section \<open>Reading a condition as clauses\<close>

type_synonym 'x clause = "('x opt_expr \<times> 'x val) list"

fun parse_clause :: "func_ref \<Rightarrow> 'x opt_expr \<Rightarrow> 'x clause option" where
  "parse_clause equals (EAnd left right) =
     (case parse_clause equals left of
        None \<Rightarrow> None
      | Some a \<Rightarrow> (case parse_clause equals right of None \<Rightarrow> None | Some b \<Rightarrow> Some (a @ b)))"
| "parse_clause equals (ECall func [a, b]) =
     (if func = equals then
        (case (as_const a, as_const b) of
           (Some c, None) \<Rightarrow> if is_switchable_const c then Some [(b, c)] else None
         | (None, Some c) \<Rightarrow> if is_switchable_const c then Some [(a, c)] else None
         | _ \<Rightarrow> None)
      else None)"
| "parse_clause equals _ = None"

fun parse_condition :: "func_ref \<Rightarrow> 'x opt_expr \<Rightarrow> 'x clause list option" where
  "parse_condition equals (EOr left right) =
     (case parse_condition equals left of
        None \<Rightarrow> None
      | Some a \<Rightarrow> (case parse_condition equals right of None \<Rightarrow> None | Some b \<Rightarrow> Some (a @ b)))"
| "parse_condition equals other =
     (case parse_clause equals other of None \<Rightarrow> None | Some clause \<Rightarrow> Some [clause])"

text \<open>The key of a clause, and the key expressions it establishes or has to match.\<close>

definition clause_to_key ::
  "'x prim_ops \<Rightarrow> 'x clause \<Rightarrow> 'x opt_expr list option \<Rightarrow> ('x key \<times> 'x opt_expr list) option" where
  "clause_to_key P clause key_exprs =
     (if clause = [] \<or> length clause > 2 then None
      else case key_exprs of
        None \<Rightarrow>
          (let exprs = map fst clause
           in if length exprs = 2 \<and> opt_eq P (exprs ! 0) (exprs ! 1) then None
              else map_option (\<lambda>k. (k, exprs)) (switch_key P (map snd clause)))
      | Some exprs \<Rightarrow>
          if length clause \<noteq> length exprs then None
          else case those (map (\<lambda>expr. map_option snd (find (\<lambda>p. opt_eq P (fst p) expr) clause)) exprs) of
                 None \<Rightarrow> None
               | Some constants \<Rightarrow> map_option (\<lambda>k. (k, exprs)) (switch_key P constants))"

text \<open>Adding the entries of one branch; a key that is already in the table keeps its first entry.\<close>

fun lower_clauses ::
  "'x prim_ops \<Rightarrow> 'x opt_expr \<Rightarrow> 'x clause list \<Rightarrow> 'x opt_expr list option \<times> ('x key \<times> 'x opt_expr) list \<Rightarrow>
   ('x opt_expr list option \<times> ('x key \<times> 'x opt_expr) list) option" where
  "lower_clauses P v [] st = Some st"
| "lower_clauses P v (clause # clauses) (key_exprs, table) =
     (case clause_to_key P clause key_exprs of
        None \<Rightarrow> None
      | Some (key, exprs) \<Rightarrow>
          lower_clauses P v clauses
            (Some exprs, if list_ex (\<lambda>p. key_eq P (fst p) key) table then table else table @ [(key, v)]))"

fun lower_branches ::
  "'x prim_ops \<Rightarrow> func_ref \<Rightarrow> ('x opt_expr \<times> 'x opt_expr) list \<Rightarrow>
   'x opt_expr list option \<times> ('x key \<times> 'x opt_expr) list \<Rightarrow>
   ('x opt_expr list option \<times> ('x key \<times> 'x opt_expr) list) option" where
  "lower_branches P equals [] st = Some st"
| "lower_branches P equals ((condition, v) # branches) st =
     (if contains_block v then None
      else case parse_condition equals condition of
        None \<Rightarrow> None
      | Some clauses \<Rightarrow>
          if clauses = [] then None
          else case lower_clauses P v clauses st of
                 None \<Rightarrow> None
               | Some st' \<Rightarrow> lower_branches P equals branches st')"

definition try_lower ::
  "('x, 'k, 'w) rule_cx \<Rightarrow> func_ref \<Rightarrow> ('x opt_expr \<times> 'x opt_expr) list \<Rightarrow>
   ('x opt_expr list \<times> ('x key \<times> 'x opt_expr) list) option" where
  "try_lower cx equals branches =
     (case lower_branches (cx_prim cx) equals branches (None, []) of
        None \<Rightarrow> None
      | Some (None, table) \<Rightarrow> None
      | Some (Some key_exprs, table) \<Rightarrow>
          if table = [] then None
          else if \<not> list_all (is_pure (cx_registry cx)) key_exprs then None
          else if list_ex contains_block key_exprs then None
          else Some (key_exprs, table))"

definition MIN_SWITCH_BRANCHES :: nat where
  "MIN_SWITCH_BRANCHES = 6"

definition switch_lower :: "('x, 'k, 'w) rule_cx \<Rightarrow> func_ref option \<Rightarrow> 'x opt_expr \<Rightarrow> 'x rewrite" where
  "switch_lower cx equals_ref node =
     (case node of
        EMultiIf branches dflt \<Rightarrow>
          (case equals_ref of
             None \<Rightarrow> Same node
           | Some equals \<Rightarrow>
               if length branches < MIN_SWITCH_BRANCHES then Same node
               else case try_lower cx equals branches of
                      Some (inputs, table) \<Rightarrow> Changed (ESwitch inputs table dflt)
                    | None \<Rightarrow> Same node)
      | _ \<Rightarrow> Same node)"

definition MIN_MEMBERSHIP_ENTRIES :: nat where
  "MIN_MEMBERSHIP_ENTRIES = 6"

definition or_membership :: "('x, 'k, 'w) rule_cx \<Rightarrow> func_ref option \<Rightarrow> 'x opt_expr \<Rightarrow> 'x rewrite" where
  "or_membership cx equals_ref node =
     (case node of
        EOr _ _ \<Rightarrow>
          (case equals_ref of
             None \<Rightarrow> Same node
           | Some equals \<Rightarrow>
               (case parse_condition equals node of
                  None \<Rightarrow> Same node
                | Some clauses \<Rightarrow>
                    if length clauses < MIN_MEMBERSHIP_ENTRIES then Same node
                    else case lower_clauses (cx_prim cx) (EConst (VBool True)) clauses (None, []) of
                           None \<Rightarrow> Same node
                         | Some (None, table) \<Rightarrow> Same node
                         | Some (Some key_exprs, table) \<Rightarrow>
                             if length table < MIN_MEMBERSHIP_ENTRIES then Same node
                             else if \<not> list_all (is_pure (cx_registry cx)) key_exprs then Same node
                             else Changed (ESwitch key_exprs table (EConst (VBool False)))))
      | _ \<Rightarrow> Same node)"

fun merge_entries ::
  "'x prim_ops \<Rightarrow> ('x key \<times> 'x opt_expr) list \<Rightarrow> ('x key \<times> 'x opt_expr) list \<Rightarrow> ('x key \<times> 'x opt_expr) list" where
  "merge_entries P merged [] = merged"
| "merge_entries P merged ((key, v) # rest) =
     merge_entries P (if list_ex (\<lambda>p. key_eq P (fst p) key) merged then merged else merged @ [(key, v)]) rest"

definition switch_collapse :: "('x, 'k, 'w) rule_cx \<Rightarrow> 'x opt_expr \<Rightarrow> 'x rewrite" where
  "switch_collapse cx node =
     (case node of
        ESwitch inputs table dflt \<Rightarrow>
          (case dflt of
             ESwitch inner_inputs inner_table inner_default \<Rightarrow>
               if list_all2 (opt_eq (cx_prim cx)) inner_inputs inputs \<and> list_all (is_pure (cx_registry cx)) inputs
               then Changed (ESwitch inputs (merge_entries (cx_prim cx) table inner_table) inner_default)
               else Same node
           | _ \<Rightarrow> Same node)
      | _ \<Rightarrow> Same node)"

section \<open>Pure expressions leave the state alone\<close>

definition keeps_state :: "('x, 'k, 'w) eval_env \<Rightarrow> 'x opt_expr \<Rightarrow> bool" where
  "keeps_state E e \<longleftrightarrow> (\<forall>s v s'. eval E e s = Inr (v, s') \<longrightarrow> s' = s)"

lemma keeps_stateD: "keeps_state E e \<Longrightarrow> eval E e s = Inr (v, s') \<Longrightarrow> s' = s"
  unfolding keeps_state_def by blast

lemma keeps_stateI: "(\<And>s v s'. eval E e s = Inr (v, s') \<Longrightarrow> s' = s) \<Longrightarrow> keeps_state E e"
  unfolding keeps_state_def by blast

lemma tri_absurd: "t \<noteq> TriTrue \<Longrightarrow> t \<noteq> TriFalse \<Longrightarrow> t \<noteq> TriNull \<Longrightarrow> t \<noteq> TriOther \<Longrightarrow> R"
  by (cases t) simp_all

lemma bind_keeps:
  "keeps_state E e \<Longrightarrow> bind_res (eval E e s) f = Inr r \<longleftrightarrow> (\<exists>u. eval E e s = Inr (u, s) \<and> f (u, s) = Inr r)"
  by (cases "eval E e s") (auto dest: keeps_stateD)

lemma eval_args_keeps:
  "\<forall>e \<in> set es. keeps_state E e \<Longrightarrow> eval_args (eval E) es s = Inr (vs, s') \<Longrightarrow> s' = s"
proof (induction es arbitrary: s vs)
  case (Cons e es)
  then show ?case by (auto simp: bind_res_Inr_iff dest!: keeps_stateD)
qed simp

lemma eval_multi_if_keeps:
  "\<forall>(c, v) \<in> set bs. keeps_state E c \<and> keeps_state E v \<Longrightarrow> keeps_state E d \<Longrightarrow>
   eval_multi_if (eval E) bs d s = Inr (v, s') \<Longrightarrow> s' = s"
proof (induction bs arbitrary: s)
  case (Cons b bs)
  obtain c u where b: "b = (c, u)" by fastforce
  then have c: "keeps_state E c" and u: "keeps_state E u" using Cons.prems by auto
  obtain t s1 where t: "eval E c s = Inr (t, s1)" using Cons.prems(3) b by (auto simp: bind_res_Inr_iff)
  with c have "s1 = s" by (auto dest: keeps_stateD)
  then show ?case
    using Cons b t u by (cases "tri_of t") (auto dest: keeps_stateD)
qed (auto dest: keeps_stateD)

lemma eval_interpolation_keeps:
  "\<forall>e \<in> set es. keeps_state E e \<Longrightarrow> eval_interpolation r (eval E) es acc s = Inr (v, s') \<Longrightarrow> s' = s"
proof (induction es arbitrary: s acc)
  case (Cons e es)
  then show ?case by (auto simp: bind_res_Inr_iff Let_def dest!: keeps_stateD split: if_splits)
qed simp

context rule_env
begin

lemma call_keeps:
  assumes "get_by_ref (env_registry E) f = Some fn" "fn_is_pure fn" "call_function E f vs s = Inr (v, s')"
  shows "s' = s"
proof -
  have "snd (fn_evaluate fn vs (env_context E) (snd s)) = snd s"
    using pure [OF assms(1,2), of vs "snd s" "snd s"] by (metis snd_conv)
  then show ?thesis using assms(1,3) by (auto simp: call_function_def split: prod.splits sum.splits)
qed

lemma pure_keeps_state:
  "is_pure (env_registry E) e \<Longrightarrow> \<not> contains_block e \<Longrightarrow> keeps_state E e"
proof (induction "size e" arbitrary: e rule: less_induct)
  case less
  have ch: "\<forall>c \<in> set (children e). keeps_state E c"
    using less children_size [of _ e]
    by (auto simp: is_pure_def contains_block_def scan.simps [of _ e] list_ex_iff)
  show ?case
  proof (cases e)
    case (ECall f args)
    obtain fn where fn: "get_by_ref (env_registry E) f = Some fn" "fn_is_pure fn"
      using less.prems(1) unfolding ECall
      by (auto simp: is_pure_def scan.simps [of _ "ECall f args"] split: option.splits)
    show ?thesis
    proof (rule keeps_stateI)
      fix s v s'
      assume "eval E e s = Inr (v, s')"
      then obtain vs s1 where a: "eval_args (eval E) args s = Inr (vs, s1)" "call_function E f vs s1 = Inr (v, s')"
        by (auto simp: ECall bind_res_Inr_iff)
      then have "s1 = s" using ch ECall eval_args_keeps by fastforce
      then show "s' = s" using call_keeps [OF fn a(2)] by simp
    qed
  next
    case (EMultiIf bs d)
    then have "\<forall>(c, v) \<in> set bs. keeps_state E c \<and> keeps_state E v" "keeps_state E d" using ch by auto
    then show ?thesis using EMultiIf eval_multi_if_keeps unfolding keeps_state_def [of E e] by fastforce
  next
    case (EBlock ss r)
    then show ?thesis
      using less.prems(2) by (simp add: contains_block_def scan.simps [of _ "EBlock ss r"])
  next
    case (EInterpolation es)
    then show ?thesis using ch eval_interpolation_keeps unfolding keeps_state_def [of E e] by fastforce
  next
    case (EObject es)
    then have "\<forall>e \<in> set (map snd es). keeps_state E e" using ch by simp
    note k = eval_args_keeps [OF this]
    show ?thesis
      unfolding EObject by (intro keeps_stateI) (auto simp: bind_res_Inr_iff dest: k)
  next
    case (ESwitch ins tab d)
    then have ins: "\<forall>e \<in> set ins. keeps_state E e" and d: "keeps_state E d"
      and tab: "\<And>k v. (k, v) \<in> set tab \<Longrightarrow> keeps_state E v"
      using ch by force+
    show ?thesis
    proof (rule keeps_stateI)
      fix s v s'
      assume "eval E e s = Inr (v, s')"
      then obtain vs s1 where a: "eval_args (eval E) ins s = Inr (vs, s1)"
        and r: "(case switch_entry (env_prim E) tab (switch_key (env_prim E) vs) of Some x \<Rightarrow> eval E x s1 | None \<Rightarrow> eval E d s1) =
          Inr (v, s')"
        by (auto simp: ESwitch eval_switch_def bind_res_Inr_iff)
      have "s1 = s" using a ins eval_args_keeps by fastforce
      moreover have "s' = s1"
      proof (cases "switch_entry (env_prim E) tab (switch_key (env_prim E) vs)")
        case (Some x)
        from switch_entry_in [OF Some] obtain k where "(k, x) \<in> set tab" by blast
        then show ?thesis using r Some keeps_stateD [OF tab] by simp
      qed (use r d in \<open>auto dest: keeps_stateD\<close>)
      ultimately show "s' = s" by simp
    qed
  qed (rule keeps_stateI, insert ch, (auto simp: eval_if_def eval_and_def eval_or_def eval_if_null_def eval_null_if_def
    combine_bool_def eval_type_assert_def bind_keeps bind_res_Inr_iff dest: keeps_stateD eval_args_keeps
    elim: tri_absurd split: option.splits tri.splits if_splits bool.splits) [1])+
qed

end

section \<open>What a clause tests\<close>

text \<open>
  In a state where each key expression has a value, a condition of clauses is a total
  boolean: some clause whose tests all hold.
\<close>

definition valued :: "('x, 'k, 'w) eval_env \<Rightarrow> ('x, 'w) eval_state \<Rightarrow> ('x opt_expr \<Rightarrow> 'x val) \<Rightarrow> 'x opt_expr \<Rightarrow> bool" where
  "valued E s val e \<longleftrightarrow> eval E e s = Inr (val e, s)"

definition clause_holds :: "'x prim_ops \<Rightarrow> ('x opt_expr \<Rightarrow> 'x val) \<Rightarrow> 'x clause \<Rightarrow> bool" where
  "clause_holds P val clause \<longleftrightarrow> (\<forall>(e, c) \<in> set clause. values_equal P (val e) c)"

definition clause_exprs :: "'x clause list \<Rightarrow> 'x opt_expr set" where
  "clause_exprs clauses = (\<Union>clause \<in> set clauses. fst ` set clause)"

locale switch_env = rule_env E cx + prim_laws "env_prim E"
  for E :: "('x, 'k, 'w) eval_env" and cx :: "('x, 'k, 'w) rule_cx" +
  fixes equals :: func_ref
  assumes equals_ref: "get_by_ref (env_registry E) equals = Some (equals_func (env_prim E))"
begin

abbreviation "PE \<equiv> env_prim E"

lemma switchable_not_null: "is_switchable_const c \<Longrightarrow> c \<noteq> VNull"
  by (auto simp: is_switchable_const_def)

lemma null_not_equal: "is_switchable_const c \<Longrightarrow> \<not> values_equal PE VNull c"
  using switchable_not_null by (auto simp: values_equal_def)

lemma equals_call:
  "call_function E equals [a, b] s = Inr (VBool (if is_null a \<and> is_null b then True else if is_null a \<or> is_null b then False
     else values_equal PE a b), s)"
  by (simp add: call_function_def equals_ref equals_func_def equals_evaluate_def)

lemma equals_test:
  assumes "is_switchable_const c"
  shows "call_function E equals [v, c] s = Inr (VBool (values_equal PE v c), s)"
    "call_function E equals [c, v] s = Inr (VBool (values_equal PE v c), s)"
proof -
  have s: "values_equal PE c v = values_equal PE v c"
    using values_equal_swap [OF switchable_not_structural [OF assms], of v] by simp
  show "call_function E equals [v, c] s = Inr (VBool (values_equal PE v c), s)"
    "call_function E equals [c, v] s = Inr (VBool (values_equal PE v c), s)"
    using switchable_not_null [OF assms] null_not_equal [OF assms] s by (auto simp: equals_call)
qed

lemma parse_clause_call:
  assumes "parse_clause equals (ECall f args) = Some clause"
  obtains a c where "f = equals" "is_switchable_const c" "clause = [(a, c)]" "args = [a, EConst c]"
    | a c where "f = equals" "is_switchable_const c" "clause = [(a, c)]" "args = [EConst c, a]"
proof -
  obtain x y where args: "args = [x, y]" using assms
    by (cases "(equals, ECall f args)" rule: parse_clause.cases) auto
  show thesis using assms args that by (auto split: option.splits if_splits)
qed

lemma clause_switchable: "parse_clause equals e = Some clause \<Longrightarrow> (x, c) \<in> set clause \<Longrightarrow> is_switchable_const c"
proof (induction e arbitrary: clause)
  case (ECall f args)
  then show ?case by (auto elim!: parse_clause_call)
qed (auto split: option.splits)

lemma parse_clause_eval:
  "parse_clause equals e = Some clause \<Longrightarrow> \<forall>x \<in> fst ` set clause. valued E s val x \<Longrightarrow>
   eval E e s = Inr (VBool (clause_holds PE val clause), s)"
proof (induction e arbitrary: clause)
  case (EAnd l r)
  then obtain a b where ab: "parse_clause equals l = Some a" "parse_clause equals r = Some b" "clause = a @ b"
    by (auto split: option.splits)
  have "eval E l s = Inr (VBool (clause_holds PE val a), s)" "eval E r s = Inr (VBool (clause_holds PE val b), s)"
    using EAnd ab by (auto simp: image_Un)
  moreover have "clause_holds PE val clause = (clause_holds PE val a \<and> clause_holds PE val b)"
    using ab by (auto simp: clause_holds_def)
  ultimately show ?case
    by (cases "clause_holds PE val a"; cases "clause_holds PE val b") (simp_all add: eval_and_def combine_bool_def)
next
  case (ECall f args)
  then show ?case
    by (auto elim!: parse_clause_call simp: valued_def clause_holds_def equals_test)
qed simp_all

lemma parse_condition_not_or:
  "\<not> (\<exists>l r. e = EOr l r) \<Longrightarrow> parse_condition equals e = map_option (\<lambda>c. [c]) (parse_clause equals e)"
  by (cases e) (auto split: option.split)

lemma parse_condition_eval:
  "parse_condition equals e = Some clauses \<Longrightarrow> \<forall>x \<in> clause_exprs clauses. valued E s val x \<Longrightarrow>
   eval E e s = Inr (VBool (\<exists>clause \<in> set clauses. clause_holds PE val clause), s)"
proof (induction "size e" arbitrary: e clauses rule: less_induct)
  case less
  show ?case
  proof (cases "\<exists>l r. e = EOr l r")
    case True
    then obtain l r a b where e: "e = EOr l r" and ab: "parse_condition equals l = Some a"
      "parse_condition equals r = Some b" "clauses = a @ b"
      using less.prems(1) by (auto split: option.splits)
    let ?h = "\<lambda>cs. \<exists>clause \<in> set cs. clause_holds PE val clause"
    have "eval E l s = Inr (VBool (?h a), s)" "eval E r s = Inr (VBool (?h b), s)"
      using less.hyps [of l a] less.hyps [of r b] less.prems(2) ab e by (auto simp: clause_exprs_def)
    moreover have "?h clauses = (?h a \<or> ?h b)" using ab by auto
    ultimately show ?thesis
      using e by (cases "?h a"; cases "?h b") (simp_all add: eval_or_def combine_bool_def)
  next
    case False
    then obtain z where "clauses = [z]" "parse_clause equals e = Some z"
      using less.prems(1) parse_condition_not_or [OF False] by auto
    then show ?thesis using parse_clause_eval [of e z] less.prems(2) by (simp add: clause_exprs_def)
  qed
qed

end

section \<open>Clauses and keys\<close>

definition key_exprs_ok :: "'x prim_ops \<Rightarrow> 'x opt_expr list \<Rightarrow> bool" where
  "key_exprs_ok P exprs \<longleftrightarrow>
     (exprs \<noteq> [] \<and> length exprs \<le> 2 \<and> (length exprs = 2 \<longrightarrow> \<not> opt_eq P (exprs ! 0) (exprs ! 1)))"

text \<open>Structurally equal clause operands are the same expression.\<close>

definition exact_exprs :: "'x prim_ops \<Rightarrow> 'x opt_expr set \<Rightarrow> bool" where
  "exact_exprs P X \<longleftrightarrow> (\<forall>x \<in> X. \<forall>y \<in> X. opt_eq P x y \<longrightarrow> x = y)"

lemma find_append: "find Q (xs @ ys) = (case find Q xs of Some x \<Rightarrow> Some x | None \<Rightarrow> find Q ys)"
  by (induction xs) auto

lemma find_found: "find Q xs = Some x \<Longrightarrow> x \<in> set xs \<and> Q x"
  by (induction xs) (auto split: if_splits)

lemma clause_to_key_spec:
  assumes "clause_to_key P clause ke = Some (key, exprs)" "exact_exprs P X"
    and "fst ` set clause \<subseteq> X" "\<forall>es. ke = Some es \<longrightarrow> key_exprs_ok P es \<and> set es \<subseteq> X"
  obtains cvals where "length cvals = length exprs" "set clause = set (zip exprs cvals)" "switch_key P cvals = Some key"
    "key_exprs_ok P exprs" "set exprs \<subseteq> X" "ke = None \<or> ke = Some exprs"
    "ke = None \<longrightarrow> exprs = map fst clause"
proof (cases ke)
  case None
  have e: "exprs = map fst clause" "switch_key P (map snd clause) = Some key" "key_exprs_ok P (map fst clause)"
    using assms(1) None by (auto simp: clause_to_key_def Let_def key_exprs_ok_def split: if_splits)
  have "zip (map fst clause) (map snd clause) = clause" by (rule zip_map_fst_snd)
  then show ?thesis using that [of "map snd clause"] e None assms(3) by auto
next
  case (Some es)
  then obtain cvals where len: "length clause = length es" and c: "switch_key P cvals = Some key" "exprs = es"
    and f: "list_all2 (\<lambda>e c. map_option snd (find (\<lambda>p. opt_eq P (fst p) e) clause) = Some c) es cvals"
    using assms(1) by (auto simp: clause_to_key_def those_Some_iff split: if_splits option.splits)
  have ok: "key_exprs_ok P es" "set es \<subseteq> X" using assms(4) Some by auto
  have found: "(e, c) \<in> set clause \<and> opt_eq P e e"
    if m: "map_option snd (find (\<lambda>p. opt_eq P (fst p) e) clause) = Some c" and e: "e \<in> set es" for e c
  proof -
    from m obtain p where p: "find (\<lambda>p. opt_eq P (fst p) e) clause = Some p" "snd p = c" by auto
    then obtain x where x: "(x, c) \<in> set clause" "opt_eq P x e" by (cases p) (auto dest: find_found)
    then have "x \<in> X" "e \<in> X" using assms(3) ok(2) e by force+
    then have "x = e" using assms(2) x(2) unfolding exact_exprs_def by blast
    then show ?thesis using x by simp
  qed
  have "set clause = set (zip es cvals)"
  proof (cases "length es = 1")
    case True
    then obtain e c where "es = [e]" "cvals = [c]" using f by (auto simp: length_Suc_conv list_all2_Cons1)
    then show ?thesis using found [of e c] f len by (auto simp: length_Suc_conv)
  next
    case False
    moreover have "0 < length es" "length es \<le> 2" using ok(1) by (simp_all add: key_exprs_ok_def)
    ultimately have "length es = 2" by linarith
    then obtain e1 e2 c1 c2 where es: "es = [e1, e2]" "cvals = [c1, c2]"
      using f by (auto simp: length_Suc_conv numeral_2_eq_2 list_all2_Cons1)
    have m: "(e1, c1) \<in> set clause" "opt_eq P e1 e1" "(e2, c2) \<in> set clause" using found [of e1 c1] found [of e2 c2] f es by auto
    have "e1 \<noteq> e2" using m(2) ok(1) es by (auto simp: key_exprs_ok_def)
    then show ?thesis using m len es by (auto simp: length_Suc_conv numeral_2_eq_2)
  qed
  then show ?thesis
    using that [of cvals] c ok Some f by (auto dest: list_all2_lengthD)
qed

lemma switch_key_mapM: "vs \<noteq> [] \<Longrightarrow> switch_key P vs = ok_option (mapM_res (canonicalise P) vs)"
  by (cases vs rule: remdups_adj.cases)
    (auto simp: switch_key_def key_from_value_def key_single_def key_composite_def ok_option_def bind_res_def split: sum.split)

context switch_env
begin

lemma key_matches:
  assumes "length cvals = length vs" "\<forall>c \<in> set cvals. is_switchable_const c"
    and "mapM_res (canonicalise PE) cvals = Inr key"
  shows "(\<forall>(v, c) \<in> set (zip vs cvals). values_equal PE v c) \<longleftrightarrow>
    (\<exists>k. mapM_res (canonicalise PE) vs = Inr k \<and> key_eq PE key k)"
  using assms
proof (induction cvals vs arbitrary: key rule: list_induct2)
  case Nil
  then show ?case by (simp add: key_eq_def)
next
  case (Cons c cvals v vs)
  obtain d where d: "canonicalise PE c = Inr d" "is_switchable_const d"
    using switchable_canonicalise [of c] Cons.prems(1) by auto
  then obtain key' where key': "mapM_res (canonicalise PE) cvals = Inr key'" "key = d # key'"
    using Cons.prems(2) by (auto simp: bind_res_Inr_iff)
  have IH: "(\<forall>(v, c) \<in> set (zip vs cvals). values_equal PE v c) \<longleftrightarrow>
    (\<exists>k. mapM_res (canonicalise PE) vs = Inr k \<and> key_eq PE key' k)"
    using Cons.IH key' Cons.prems(1) by simp
  have m: "values_equal PE v c \<longleftrightarrow> (\<exists>w. canonicalise PE v = Inr w \<and> eq_element PE d w)"
    using switchable_match [OF _ d] Cons.prems(1) values_equal_swap [OF switchable_not_structural [OF d(2)]]
    by (auto simp: eq_element_switchable d split: sum.splits)
  show ?case
    unfolding key'(2) using IH m by (auto simp: bind_res_Inr_iff key_eq_def)
qed

end

section \<open>The table\<close>

text \<open>Keys made of constants: equal ones match the same values, so dropping a repeated key is harmless.\<close>

definition const_elem :: "'x val \<Rightarrow> bool" where
  "const_elem d \<longleftrightarrow> is_switchable_const d \<and> canonical_elem d"

definition clause_ok :: "'x clause \<Rightarrow> bool" where
  "clause_ok clause \<longleftrightarrow> (\<forall>(e, c) \<in> set clause. is_switchable_const c \<and> in_width c)"

lemma mapM_const_elem:
  "mapM_res (canonicalise P) cs = Inr k \<Longrightarrow> \<forall>c \<in> set cs. is_switchable_const c \<and> in_width c \<Longrightarrow> list_all const_elem k"
proof (induction cs arbitrary: k)
  case (Cons c cs)
  then obtain d ks where "canonicalise P c = Inr d" "mapM_res (canonicalise P) cs = Inr ks" "k = d # ks"
    by (auto simp: bind_res_Inr_iff)
  moreover have "is_switchable_const d"
    using Cons.prems(2) calculation(1) by (cases c) (auto simp: canonicalise_def is_switchable_const_def split: if_splits)
  ultimately show ?case using Cons canonicalise_canonical by (auto simp: const_elem_def)
qed simp

context prim_laws
begin

lemma const_elem_compare:
  assumes "const_elem a" "const_elem b" "eq_element P a b"
  shows "compare_values P a w = compare_values P b w"
proof -
  have ns: "\<not> structural a" "\<not> structural b" "widen P a = a" "widen P b = b"
    using assms by (simp_all add: const_elem_def canonical_elem_scalar canonical_elem_widen)
  have "compare_scalar P a b = Some Equal"
    using assms(3) eq_element_switchable(1) [of b a] assms(2) ns
    by (simp add: const_elem_def values_equal_def compare_values_scalar)
  then have "compare_scalar P a y = compare_scalar P b y" for y
    using assms(1,2) compare_scalar_bigint
    by (cases a; simp only: const_elem_def is_switchable_const_def canonical_elem_def val.case simp_thms;
        cases b; simp only: const_elem_def is_switchable_const_def canonical_elem_def compare_scalar_def val.case simp_thms option.simps)
      (auto simp: cmp_some_def cmp_atD(1) [OF cmp_string_at(1)] bigint_as_int split: val.splits)
  then show ?thesis using ns by (simp add: compare_values_scalar)
qed

lemma const_key_match:
  "key_eq P a b \<Longrightarrow> key_eq P b k \<Longrightarrow> list_all const_elem a \<Longrightarrow> list_all const_elem b \<Longrightarrow> key_eq P a k"
proof (induction a arbitrary: b k)
  case Nil
  then show ?case by (auto simp: key_eq_def)
next
  case (Cons x a)
  then obtain y b' z k' where b: "b = y # b'" "k = z # k'" by (cases b; cases k) (auto simp: key_eq_def)
  have "eq_element P x z"
    using const_elem_compare [of x y z] Cons.prems b eq_element_switchable(2) [of x z] eq_element_switchable(2) [of y z]
    by (auto simp: key_eq_def const_elem_def values_equal_def)
  moreover have "key_eq P a k'" using Cons.IH [of b' k'] Cons.prems b by (auto simp: key_eq_def)
  ultimately show ?case using b by (auto simp: key_eq_def)
qed

lemma find_dedup:
  assumes "list_ex (\<lambda>p. key_eq P (fst p) key) table" "list_all const_elem key" "\<forall>p \<in> set table. list_all const_elem (fst p)"
  shows "find (\<lambda>p. key_eq P (fst p) k) (table @ [(key, v)]) = find (\<lambda>p. key_eq P (fst p) k) table"
proof (cases "key_eq P key k")
  case True
  then obtain p where "p \<in> set table" "key_eq P (fst p) k"
    using assms const_key_match by (auto simp: list_ex_iff)
  then have "find (\<lambda>p. key_eq P (fst p) k) table \<noteq> None" unfolding find_None_iff by blast
  then show ?thesis by (auto simp: find_append)
next
  case False
  then show ?thesis by (simp add: find_append split: option.split)
qed

end

definition table_ok :: "('x key \<times> 'e) list \<Rightarrow> bool" where
  "table_ok table \<longleftrightarrow> (\<forall>p \<in> set table. list_all const_elem (fst p))"

lemma lower_clauses_exprs:
  "lower_clauses P v clauses (ke, table) = Some (ke', table') \<Longrightarrow> ke = Some es \<Longrightarrow> ke' = Some es"
proof (induction clauses arbitrary: ke table)
  case (Cons clause clauses)
  then show ?case by (auto simp: clause_to_key_def split: option.splits if_splits prod.splits)
qed simp

lemma lower_branches_exprs:
  "lower_branches P equals bs (ke, table) = Some (ke', table') \<Longrightarrow> ke = Some es \<Longrightarrow> ke' = Some es"
proof (induction bs arbitrary: ke table)
  case (Cons b bs)
  obtain c v where b: "b = (c, v)" by fastforce
  from Cons.prems b show ?case
    by (auto split: if_splits option.splits dest: lower_clauses_exprs Cons.IH)
qed simp

context switch_env
begin

lemma clause_entry:
  assumes "clause_to_key PE clause ke = Some (key, exprs)" "exact_exprs PE X" "fst ` set clause \<subseteq> X" "clause_ok clause"
    and "\<forall>es. ke = Some es \<longrightarrow> key_exprs_ok PE es \<and> set es \<subseteq> X"
  shows "key_exprs_ok PE exprs" "set exprs \<subseteq> X" "list_all const_elem key" "ke = None \<or> ke = Some exprs"
    "fst ` set clause \<subseteq> set exprs"
    "clause_holds PE val clause \<longleftrightarrow> (\<exists>k. switch_key PE (map val exprs) = Some k \<and> key_eq PE key k)"
proof -
  obtain cvals where c: "length cvals = length exprs" "set clause = set (zip exprs cvals)" "switch_key PE cvals = Some key"
    and ok: "key_exprs_ok PE exprs" "set exprs \<subseteq> X" "ke = None \<or> ke = Some exprs"
    and "ke = None \<longrightarrow> exprs = map fst clause"
    by (rule clause_to_key_spec [OF assms(1,2,3,5)])
  show "key_exprs_ok PE exprs" "set exprs \<subseteq> X" "ke = None \<or> ke = Some exprs" using ok by auto
  show "fst ` set clause \<subseteq> set exprs" unfolding c(2) by (auto dest: set_zip_leftD)
  have ne: "exprs \<noteq> []" "cvals \<noteq> []" using ok(1) c(1) by (auto simp: key_exprs_ok_def)
  have m: "mapM_res (canonicalise PE) cvals = Inr key"
    using c(3) ne by (auto simp: switch_key_mapM ok_option_def split: sum.splits)
  have cs: "\<forall>k \<in> set cvals. is_switchable_const k \<and> in_width k"
  proof
    fix k
    assume "k \<in> set cvals"
    then obtain e where "(e, k) \<in> set (zip exprs cvals)" using c(1) by (metis in_set_impl_in_set_zip2)
    then show "is_switchable_const k \<and> in_width k" using assms(4) c(2) by (auto simp: clause_ok_def)
  qed
  show "list_all const_elem key" using mapM_const_elem [OF m cs] .
  have "clause_holds PE val clause \<longleftrightarrow> (\<forall>(v, c) \<in> set (zip (map val exprs) cvals). values_equal PE v c)"
    unfolding clause_holds_def c(2) by (auto simp: zip_map1)
  also have "\<dots> \<longleftrightarrow> (\<exists>k. mapM_res (canonicalise PE) (map val exprs) = Inr k \<and> key_eq PE key k)"
    using key_matches [of cvals "map val exprs" key] c(1) cs m by simp
  also have "\<dots> \<longleftrightarrow> (\<exists>k. switch_key PE (map val exprs) = Some k \<and> key_eq PE key k)"
    using ne by (auto simp: switch_key_mapM ok_option_def split: sum.split)
  finally show "clause_holds PE val clause \<longleftrightarrow> (\<exists>k. switch_key PE (map val exprs) = Some k \<and> key_eq PE key k)" .
qed

lemma lower_clauses_lookup:
  assumes "lower_clauses PE v clauses (ke, table) = Some (Some exprs, table')" "exact_exprs PE X"
    and "clause_exprs clauses \<subseteq> X" "\<forall>clause \<in> set clauses. clause_ok clause" "table_ok table"
    and "\<forall>es. ke = Some es \<longrightarrow> key_exprs_ok PE es \<and> set es \<subseteq> X"
  shows "table_ok table' \<and> (clauses \<noteq> [] \<or> ke = Some exprs \<longrightarrow> key_exprs_ok PE exprs \<and> set exprs \<subseteq> X) \<and>
    clause_exprs clauses \<subseteq> set exprs \<and>
    switch_entry PE table' (switch_key PE (map val exprs)) =
     (case switch_entry PE table (switch_key PE (map val exprs)) of
        Some e \<Rightarrow> Some e
      | None \<Rightarrow> if \<exists>clause \<in> set clauses. clause_holds PE val clause then Some v else None)"
  using assms(1,3-)
proof (induction clauses arbitrary: ke table)
  case Nil
  then show ?case by (auto simp: clause_exprs_def split: option.split)
next
  case (Cons clause clauses)
  obtain key es where k: "clause_to_key PE clause ke = Some (key, es)"
    using Cons.prems(1) by (auto split: option.splits)
  define tab1 where "tab1 = (if list_ex (\<lambda>p. key_eq PE (fst p) key) table then table else table @ [(key, v)])"
  have rest: "lower_clauses PE v clauses (Some es, tab1) = Some (Some exprs, table')"
    using Cons.prems(1) k by (simp add: tab1_def)
  then have es: "exprs = es" using lower_clauses_exprs by blast
  have sub: "fst ` set clause \<subseteq> X" "clause_ok clause" using Cons.prems by (auto simp: clause_exprs_def)
  note ce = clause_entry [OF k assms(2) sub Cons.prems(5)]
  have tab1: "table_ok tab1" using Cons.prems(4) ce(3) by (auto simp: tab1_def table_ok_def)
  have IH: "table_ok table' \<and> (clauses \<noteq> [] \<or> Some es = Some exprs \<longrightarrow> key_exprs_ok PE exprs \<and> set exprs \<subseteq> X) \<and>
    clause_exprs clauses \<subseteq> set exprs \<and>
    switch_entry PE table' (switch_key PE (map val exprs)) =
     (case switch_entry PE tab1 (switch_key PE (map val exprs)) of
        Some e \<Rightarrow> Some e
      | None \<Rightarrow> if \<exists>clause \<in> set clauses. clause_holds PE val clause then Some v else None)"
    using Cons.prems(2,3) tab1 ce(1,2) by (intro Cons.IH [OF rest]) (auto simp: clause_exprs_def)
  have "switch_entry PE tab1 (switch_key PE (map val exprs)) =
     (case switch_entry PE table (switch_key PE (map val exprs)) of
        Some e \<Rightarrow> Some e
      | None \<Rightarrow> if clause_holds PE val clause then Some v else None)"
  proof (cases "switch_key PE (map val exprs)")
    case (Some k)
    have "find (\<lambda>p. key_eq PE (fst p) k) tab1 = find (\<lambda>p. key_eq PE (fst p) k) (table @ [(key, v)])"
      unfolding tab1_def using find_dedup [OF _ ce(3), of table k v] Cons.prems(4) by (auto simp: table_ok_def)
    then show ?thesis using ce(6) [of val] Some es by (auto simp: switch_entry_def find_append split: option.split)
  next
    case None
    then show ?thesis using ce(6) [of val] es by (simp add: switch_entry_def)
  qed
  moreover have "clause_exprs (clause # clauses) \<subseteq> set exprs" using IH ce(5) es by (auto simp: clause_exprs_def)
  ultimately show ?case using IH es by (auto split: option.splits)
qed

end

section \<open>Lowering preserves meaning\<close>

definition branch_clauses :: "func_ref \<Rightarrow> ('x opt_expr \<times> 'x opt_expr) list \<Rightarrow> 'x clause list" where
  "branch_clauses equals bs =
     concat (map (\<lambda>(c, _). case parse_condition equals c of None \<Rightarrow> [] | Some clauses \<Rightarrow> clauses) bs)"

definition constants_in_width :: "'x clause list \<Rightarrow> bool" where
  "constants_in_width clauses \<longleftrightarrow> (\<forall>clause \<in> set clauses. \<forall>(x, c) \<in> set clause. in_width c)"

lemma clause_exprs_append [simp]: "clause_exprs (as @ bs) = clause_exprs as \<union> clause_exprs bs"
  by (auto simp: clause_exprs_def)

lemma constants_in_width_append [simp]:
  "constants_in_width (as @ bs) \<longleftrightarrow> constants_in_width as \<and> constants_in_width bs"
  by (auto simp: constants_in_width_def)

context switch_env
begin

lemma condition_switchable:
  "parse_condition equals e = Some clauses \<Longrightarrow> clause \<in> set clauses \<Longrightarrow> (x, c) \<in> set clause \<Longrightarrow> is_switchable_const c"
proof (induction "size e" arbitrary: e clauses rule: less_induct)
  case less
  show ?case
  proof (cases "\<exists>l r. e = EOr l r")
    case True
    then obtain l r a b where "e = EOr l r" "parse_condition equals l = Some a"
      "parse_condition equals r = Some b" "clauses = a @ b"
      using less.prems(1) by (auto split: option.splits)
    then show ?thesis using less.hyps [of l a] less.hyps [of r b] less.prems by auto
  next
    case False
    then show ?thesis using less.prems parse_condition_not_or [OF False] clause_switchable by auto
  qed
qed

lemma condition_ok:
  "parse_condition equals e = Some clauses \<Longrightarrow> constants_in_width clauses \<Longrightarrow> \<forall>clause \<in> set clauses. clause_ok clause"
  using condition_switchable by (fastforce simp: clause_ok_def constants_in_width_def)

lemma lower_branches_eval:
  assumes "lower_branches PE equals bs (ke, table) = Some (Some exprs, table')" "exact_exprs PE X"
    and "clause_exprs (branch_clauses equals bs) \<subseteq> X" "constants_in_width (branch_clauses equals bs)"
    and "table_ok table" "\<forall>es. ke = Some es \<longrightarrow> key_exprs_ok PE es \<and> set es \<subseteq> X"
    and "\<forall>e \<in> set exprs. valued E s val e"
  defines "K \<equiv> switch_key PE (map val exprs)"
  shows "(\<forall>e. switch_entry PE table K = Some e \<longrightarrow> switch_entry PE table' K = Some e) \<and>
    (switch_entry PE table K = None \<longrightarrow>
     eval_multi_if (eval E) bs d s = (case switch_entry PE table' K of Some e \<Rightarrow> eval E e s | None \<Rightarrow> eval E d s))"
  using assms(1,3-6)
proof (induction bs arbitrary: ke table)
  case (Cons b bs)
  obtain c v where b: "b = (c, v)" by fastforce
  from Cons.prems(1) b obtain clauses ke1 tab1 where p: "parse_condition equals c = Some clauses" "clauses \<noteq> []"
    and l: "lower_clauses PE v clauses (ke, table) = Some (ke1, tab1)"
    and rest: "lower_branches PE equals bs (ke1, tab1) = Some (Some exprs, table')"
    by (auto split: if_splits option.splits)
  obtain es where es: "ke1 = Some es"
    using l p(2) by (cases clauses; cases ke1) (auto split: option.splits dest: lower_clauses_exprs)
  then have eq: "es = exprs" using rest lower_branches_exprs by blast
  have cl: "clause_exprs clauses \<subseteq> X" "constants_in_width clauses"
    "clause_exprs (branch_clauses equals bs) \<subseteq> X" "constants_in_width (branch_clauses equals bs)"
    using Cons.prems(2,3) p b by (auto simp: branch_clauses_def)
  note lk = lower_clauses_lookup [OF l [unfolded es eq] assms(2) cl(1) condition_ok [OF p(1) cl(2)] Cons.prems(4,5)]
  have ok1: "table_ok tab1" "key_exprs_ok PE exprs" "set exprs \<subseteq> X" "clause_exprs clauses \<subseteq> set exprs"
    using lk [of val] p(2) by auto
  note IH = Cons.IH [OF rest cl(3,4) ok1(1)]
  have cond: "eval E c s = Inr (VBool (\<exists>clause \<in> set clauses. clause_holds PE val clause), s)"
    using parse_condition_eval [OF p(1)] ok1(4) assms(7) by blast
  have step: "switch_entry PE tab1 K = (case switch_entry PE table K of Some e \<Rightarrow> Some e
      | None \<Rightarrow> if \<exists>clause \<in> set clauses. clause_holds PE val clause then Some v else None)"
    using lk [of val] by (simp add: K_def)
  show ?case
    using IH es eq ok1 step cond b
    by (cases "\<exists>clause \<in> set clauses. clause_holds PE val clause") (auto split: option.splits)
qed simp

lemma lowered_agree:
  assumes "lower_branches PE equals bs (None, []) = Some (Some exprs, table)"
    and "exact_exprs PE (clause_exprs (branch_clauses equals bs))" "constants_in_width (branch_clauses equals bs)"
    and "\<forall>e \<in> set exprs. valued E s val e"
  shows "eval E (EMultiIf bs d) s = eval E (ESwitch exprs table d) s"
proof -
  have "eval_args (eval E) exprs s = Inr (map val exprs, s)"
    using assms(4) by (induction exprs) (auto simp: valued_def)
  moreover have "eval_multi_if (eval E) bs d s =
    (case switch_entry PE table (switch_key PE (map val exprs)) of Some e \<Rightarrow> eval E e s | None \<Rightarrow> eval E d s)"
    using lower_branches_eval [OF assms(1,2) order_refl assms(3) _ _ assms(4), of d]
    by (auto simp: table_ok_def switch_entry_def split: option.splits)
  ultimately show ?thesis by (simp add: eval_switch_def)
qed

end

text \<open>The first key expression is the first thing the original evaluates.\<close>

definition head_expr :: "'x clause list \<Rightarrow> 'x opt_expr" where
  "head_expr clauses = fst (hd (hd clauses))"

lemma parse_clause_nonempty: "parse_clause f e = Some clause \<Longrightarrow> clause \<noteq> []"
  by (induction f e arbitrary: clause rule: parse_clause.induct) (auto split: option.splits if_splits)

lemma parse_condition_nonempty: "parse_condition f e = Some clauses \<Longrightarrow> clauses \<noteq> []"
  by (induction f e arbitrary: clauses rule: parse_condition.induct) (auto split: option.splits)

lemma lower_branches_head:
  assumes "lower_branches P equals (b # bs) (None, []) = Some (Some exprs, table)"
  obtains clauses where "parse_condition equals (fst b) = Some clauses" "clauses \<noteq> []" "exprs = map fst (hd clauses)"
proof -
  obtain c v where b: "b = (c, v)" by fastforce
  from assms b obtain clauses st where p: "parse_condition equals c = Some clauses" "clauses \<noteq> []"
    and l: "lower_clauses P v clauses (None, []) = Some st" and rest: "lower_branches P equals bs st = Some (Some exprs, table)"
    by (auto split: if_splits option.splits)
  obtain clause cs where cs: "clauses = clause # cs" using p(2) by (cases clauses) auto
  then obtain key es tab where "clause_to_key P clause None = Some (key, es)"
    and l2: "lower_clauses P v cs (Some es, tab) = Some st"
    using l by (auto split: option.splits)
  then have "es = map fst clause" by (auto simp: clause_to_key_def Let_def split: if_splits)
  moreover have "exprs = es"
    using l2 rest by (cases st) (auto dest: lower_clauses_exprs lower_branches_exprs)
  ultimately show thesis using that p b cs by simp
qed

context switch_env
begin

lemma parse_clause_fails:
  "parse_clause equals e = Some clause \<Longrightarrow> eval E (fst (hd clause)) s = Inl err \<Longrightarrow> eval E e s = Inl err"
proof (induction e arbitrary: clause)
  case (EAnd l r)
  then obtain a b where ab: "parse_clause equals l = Some a" "clause = a @ b" by (auto split: option.splits)
  then have "eval E l s = Inl err" using EAnd parse_clause_nonempty [OF ab(1)] by auto
  then show ?case by (simp add: eval_and_def)
next
  case (ECall f args)
  then show ?case by (auto elim!: parse_clause_call)
qed simp_all

lemma parse_condition_fails:
  "parse_condition equals e = Some clauses \<Longrightarrow> eval E (head_expr clauses) s = Inl err \<Longrightarrow> eval E e s = Inl err"
proof (induction "size e" arbitrary: e clauses rule: less_induct)
  case less
  show ?case
  proof (cases "\<exists>l r. e = EOr l r")
    case True
    then obtain l r a b where e: "e = EOr l r" and ab: "parse_condition equals l = Some a" "clauses = a @ b"
      using less.prems(1) by (auto split: option.splits)
    then have "head_expr clauses = head_expr a" using parse_condition_nonempty [OF ab(1)] by (simp add: head_expr_def)
    then have "eval E l s = Inl err" using less.hyps [of l a] less.prems e ab by simp
    then show ?thesis using e by (simp add: eval_or_def)
  next
    case False
    then obtain z where "clauses = [z]" "parse_clause equals e = Some z"
      using less.prems(1) parse_condition_not_or [OF False] by auto
    then show ?thesis using parse_clause_fails [of e z s err] less.prems(2) by (simp add: head_expr_def)
  qed
qed

text \<open>When the first key expression has a value and the others cannot fail, all have one.\<close>

lemma keys_valued:
  assumes "\<forall>k \<in> set exprs. keeps_state E k" "eval E (hd exprs) s = Inr r" "exprs \<noteq> []"
    and "\<forall>k \<in> set (tl exprs). \<forall>s. \<exists>r. eval E k s = Inr r"
  shows "\<forall>k \<in> set exprs. valued E s (\<lambda>k. case eval E k s of Inr (v, _) \<Rightarrow> v | Inl _ \<Rightarrow> VNull) k"
proof
  fix k
  assume k: "k \<in> set exprs"
  obtain a es where "exprs = a # es" using assms(3) by (cases exprs) auto
  then consider "k = hd exprs" | "k \<in> set (tl exprs)" using k by auto
  then have "\<exists>r. eval E k s = Inr r"
  proof cases
    case 1
    then show ?thesis using assms(2) by blast
  next
    case 2
    then show ?thesis using assms(4) by blast
  qed
  then obtain v s' where "eval E k s = Inr (v, s')" by (metis surj_pair)
  moreover have "s' = s" using keeps_stateD calculation assms(1) k by blast
  ultimately show "valued E s (\<lambda>k. case eval E k s of Inr (v, _) \<Rightarrow> v | Inl _ \<Rightarrow> VNull) k" by (simp add: valued_def)
qed

lemma switch_lower_exact:
  assumes "switch_lower cx (Some equals) node = Changed e'"
    and "node = EMultiIf bs d"
    and "exact_exprs PE (clause_exprs (branch_clauses equals bs))" "constants_in_width (branch_clauses equals bs)"
    and "\<And>ins tab. e' = ESwitch ins tab d \<Longrightarrow> \<forall>k \<in> set (tl ins). \<forall>s. \<exists>r. eval E k s = Inr r"
  shows "eval E node s = eval E e' s"
proof -
  obtain ins tab where e': "e' = ESwitch ins tab d" and l: "lower_branches PE equals bs (None, []) = Some (Some ins, tab)"
    and pure: "list_all (is_pure (env_registry E)) ins" "\<not> list_ex contains_block ins" and len: "\<not> length bs < 6"
    using assms(1,2)
    by (auto simp: switch_lower_def try_lower_def same_prim same_registry MIN_SWITCH_BRANCHES_def
      split: option.splits if_splits)
  have keep: "\<forall>k \<in> set ins. keeps_state E k"
    using pure pure_keeps_state by (auto simp: list_all_iff list_ex_iff)
  obtain b bs' where bs: "bs = b # bs'" using len by (cases bs) simp_all
  obtain clauses where c: "parse_condition equals (fst b) = Some clauses" "clauses \<noteq> []" "ins = map fst (hd clauses)"
    by (rule lower_branches_head [OF l [unfolded bs]])
  have ne: "hd clauses \<noteq> []"
    using l bs c(1,2) by (cases clauses; cases b) (auto simp: clause_to_key_def split: if_splits option.splits)
  then have hd: "hd ins = head_expr clauses" "ins \<noteq> []" using c(3) by (auto simp: head_expr_def hd_map)
  show ?thesis
  proof (cases "eval E (hd ins) s")
    case (Inl err)
    then have "eval E (fst b) s = Inl err" using parse_condition_fails [OF c(1)] hd by simp
    then have "eval E node s = Inl err" using assms(2) bs by (cases b) simp
    moreover have "eval_args (eval E) ins s = Inl err" using Inl hd(2) by (cases ins) auto
    ultimately show ?thesis using e' by (simp add: eval_switch_def)
  next
    case (Inr r)
    have "\<forall>k \<in> set ins. valued E s (\<lambda>k. case eval E k s of Inr (v, _) \<Rightarrow> v | Inl _ \<Rightarrow> VNull) k"
      by (rule keys_valued [OF keep Inr hd(2) assms(5) [OF e']])
    then show ?thesis using lowered_agree [OF l assms(3,4)] assms(2) e' by simp
  qed
qed

text \<open>A condition of six or more tests becomes a membership test.\<close>

lemma lower_clauses_head:
  assumes "lower_clauses P v clauses (None, []) = Some (Some exprs, table)" "clauses \<noteq> []"
  shows "exprs = map fst (hd clauses)" "hd clauses \<noteq> []"
proof -
  obtain clause cs where cs: "clauses = clause # cs" using assms(2) by (cases clauses) auto
  then obtain key es tab where k: "clause_to_key P clause None = Some (key, es)"
    and l: "lower_clauses P v cs (Some es, tab) = Some (Some exprs, table)"
    using assms(1) by (auto split: option.splits)
  from k have "es = map fst clause \<and> clause \<noteq> []" by (auto simp: clause_to_key_def Let_def split: if_splits)
  moreover have "exprs = es" using lower_clauses_exprs [OF l] by simp
  ultimately show "exprs = map fst (hd clauses)" "hd clauses \<noteq> []" using cs by auto
qed

lemma or_membership_exact:
  assumes "or_membership cx (Some equals) node = Changed e'"
    and "parse_condition equals node = Some clauses"
    and "exact_exprs PE (clause_exprs clauses)" "constants_in_width clauses"
    and "\<And>ins tab d. e' = ESwitch ins tab d \<Longrightarrow>
      \<not> list_ex contains_block ins \<and> (\<forall>k \<in> set (tl ins). \<forall>s. \<exists>r. eval E k s = Inr r)"
  shows "eval E node s = eval E e' s"
proof -
  obtain ins tab where e': "e' = ESwitch ins tab (EConst (VBool False))"
    and l: "lower_clauses PE (EConst (VBool True)) clauses (None, []) = Some (Some ins, tab)"
    and pure: "list_all (is_pure (env_registry E)) ins" and len: "\<not> length clauses < 6"
    using assms(1,2)
    by (auto simp: or_membership_def same_prim same_registry MIN_MEMBERSHIP_ENTRIES_def
      split: opt_expr.splits option.splits if_splits)
  have ne: "clauses \<noteq> []" using len by auto
  note rest = assms(5) [OF e']
  have keep: "\<forall>k \<in> set ins. keeps_state E k"
    using pure rest pure_keeps_state by (auto simp: list_all_iff list_ex_iff)
  have hd: "hd ins = head_expr clauses" "ins \<noteq> []"
    using lower_clauses_head [OF l ne] by (auto simp: head_expr_def hd_map)
  show ?thesis
  proof (cases "eval E (hd ins) s")
    case (Inl err)
    then have "eval E node s = Inl err" using parse_condition_fails [OF assms(2)] hd by simp
    moreover have "eval_args (eval E) ins s = Inl err" using Inl hd(2) by (cases ins) auto
    ultimately show ?thesis using e' by (simp add: eval_switch_def)
  next
    case (Inr r)
    define val where "val k = (case eval E k s of Inr (v, _) \<Rightarrow> v | Inl _ \<Rightarrow> VNull)" for k
    have v: "\<forall>k \<in> set ins. valued E s val k"
      using keys_valued [OF keep Inr hd(2)] rest unfolding val_def by blast
    note lk = lower_clauses_lookup [OF l assms(3) order_refl condition_ok [OF assms(2,4)], of val]
    have entry: "switch_entry PE tab (switch_key PE (map val ins)) =
        (if \<exists>clause \<in> set clauses. clause_holds PE val clause then Some (EConst (VBool True)) else None)"
      and sub: "clause_exprs clauses \<subseteq> set ins"
      using lk by (simp_all add: table_ok_def switch_entry_def split: option.split)
    have "eval_args (eval E) ins s = Inr (map val ins, s)"
      using v by (induction ins) (auto simp: valued_def)
    then have "eval E e' s = Inr (VBool (\<exists>clause \<in> set clauses. clause_holds PE val clause), s)"
      using entry e' by (simp add: eval_switch_def)
    moreover have "eval E node s = Inr (VBool (\<exists>clause \<in> set clauses. clause_holds PE val clause), s)"
      using parse_condition_eval [OF assms(2)] v sub by blast
    ultimately show ?thesis by simp
  qed
qed

text \<open>Merging a nested switch on the same inputs: the outer table is consulted first.\<close>

lemma merge_entries_lookup:
  "table_ok merged \<Longrightarrow> table_ok rest \<Longrightarrow>
   switch_entry PE (merge_entries PE merged rest) k =
     (case switch_entry PE merged k of Some e \<Rightarrow> Some e | None \<Rightarrow> switch_entry PE rest k)"
proof (induction rest arbitrary: merged)
  case Nil
  then show ?case by (auto simp: switch_entry_def split: option.split)
next
  case (Cons p rest)
  obtain key v where p: "p = (key, v)" by fastforce
  define m where "m = (if list_ex (\<lambda>p. key_eq PE (fst p) key) merged then merged else merged @ [(key, v)])"
  have ok: "table_ok m" "table_ok rest" "list_all const_elem key" using Cons.prems p by (auto simp: m_def table_ok_def)
  have "switch_entry PE m k = switch_entry PE (merged @ [(key, v)]) k"
    using find_dedup [OF _ ok(3), of merged _ v] Cons.prems(1)
    by (auto simp: m_def switch_entry_def table_ok_def split: option.split)
  then have "switch_entry PE (merge_entries PE m rest) k =
      (case switch_entry PE (merged @ [(key, v)]) k of Some e \<Rightarrow> Some e | None \<Rightarrow> switch_entry PE rest k)"
    using Cons.IH [OF ok(1,2)] by simp
  then show ?case
    unfolding p by (auto simp: m_def switch_entry_def find_append split: option.splits)
qed

lemma switch_collapse_exact:
  assumes "switch_collapse cx node = Changed e'" "node = ESwitch inputs table (ESwitch inner_inputs inner_table inner_default)"
    and "inner_inputs = inputs" "\<not> list_ex contains_block inputs" "table_ok table" "table_ok inner_table"
  shows "eval E node s = eval E e' s"
proof -
  have e': "e' = ESwitch inputs (merge_entries PE table inner_table) inner_default"
    and pure: "list_all (is_pure (env_registry E)) inputs"
    using assms(1,2) by (auto simp: switch_collapse_def same_prim same_registry split: if_splits)
  have keep: "\<forall>k \<in> set inputs. keeps_state E k"
    using pure assms(4) pure_keeps_state by (auto simp: list_all_iff list_ex_iff)
  show ?thesis
  proof (cases "eval_args (eval E) inputs s")
    case (Inr r)
    then obtain vs where "eval_args (eval E) inputs s = Inr (vs, s)"
      using eval_args_keeps [OF keep] by (metis surj_pair)
    then show ?thesis
      unfolding assms(2,3) e' using merge_entries_lookup [OF assms(5,6)]
      by (auto simp: eval_switch_def split: option.split)
  qed (simp add: assms(2,3) e' eval_switch_def)
qed

end

section \<open>The switch rules are light\<close>

definition table_weight :: "('x key \<times> 'x opt_expr) list \<Rightarrow> nat" where
  "table_weight table = sum_list (map (\<lambda>p. weight (snd p)) table)"

lemma table_weight_snoc [simp]: "table_weight (table @ [(k, v)]) = table_weight table + weight v"
  by (simp add: table_weight_def)

lemma parse_clause_weight: "parse_clause f e = Some clause \<Longrightarrow> sum_list (map (\<lambda>p. weight (fst p)) clause) \<le> weight e"
  by (induction f e arbitrary: clause rule: parse_clause.induct) (fastforce split: option.splits if_splits)+

lemma parse_condition_weight:
  "parse_condition f e = Some clauses \<Longrightarrow>
   length clauses \<le> weight e \<and> (\<forall>clause \<in> set clauses. sum_list (map (\<lambda>p. weight (fst p)) clause) \<le> weight e)"
proof (induction f e arbitrary: clauses rule: parse_condition.induct)
  case (1 f l r)
  then show ?case by (fastforce split: option.splits)
qed (auto simp: weight_ge_1 simp del: parse_clause.simps weight_simps split: option.splits dest: parse_clause_weight)

lemma lower_clauses_weight:
  "lower_clauses P v clauses (ke, table) = Some (ke', table') \<Longrightarrow>
   table_weight table' \<le> table_weight table + length clauses * weight v"
proof (induction clauses arbitrary: ke table)
  case (Cons clause clauses)
  then obtain es tab where "lower_clauses P v clauses (Some es, tab) = Some (ke', table')"
    and t: "tab = table \<or> (\<exists>k. tab = table @ [(k, v)])"
    by (auto split: option.splits if_splits)
  then have "table_weight table' \<le> table_weight tab + length clauses * weight v" using Cons.IH by blast
  with t show ?case by auto
qed simp

lemma lower_branches_weight:
  "lower_branches P f bs (ke, table) = Some (ke', table') \<Longrightarrow>
   table_weight table' \<le> table_weight table + sum_list (map (\<lambda>(c, v). weight c * weight v) bs)"
proof (induction bs arbitrary: ke table)
  case (Cons b bs)
  obtain c v where b: "b = (c, v)" by fastforce
  with Cons.prems obtain clauses ke1 tab1 where p: "parse_condition f c = Some clauses"
    and l: "lower_clauses P v clauses (ke, table) = Some (ke1, tab1)"
    and rest: "lower_branches P f bs (ke1, tab1) = Some (ke', table')"
    by (auto split: if_splits option.splits)
  have "length clauses * weight v \<le> weight c * weight v"
    using parse_condition_weight [OF p] by (intro mult_right_mono) auto
  moreover note lower_clauses_weight [OF l] Cons.IH [OF rest]
  moreover have "sum_list (map (\<lambda>(c, v). weight c * weight v) (b # bs)) =
      weight c * weight v + sum_list (map (\<lambda>(c, v). weight c * weight v) bs)" using b by simp
  ultimately show ?case by linarith
qed simp

lemma switch_lower_light: "rule_light (switch_lower cx equals_ref)"
proof (rule rule_lightI)
  fix e e' :: "'a opt_expr"
  assume "switch_lower cx equals_ref e = Changed e'"
  then obtain f bs d ins tab where e: "e = EMultiIf bs d" "e' = ESwitch ins tab d" "\<not> length bs < 6"
    and l: "lower_branches (cx_prim cx) f bs (None, []) = Some (Some ins, tab)"
    by (auto simp: switch_lower_def try_lower_def MIN_SWITCH_BRANCHES_def split: node_splits)
  obtain b bs' where bs: "bs = b # bs'" using e(3) by (cases bs) simp_all
  obtain clauses where c: "parse_condition f (fst b) = Some clauses" "clauses \<noteq> []" "ins = map fst (hd clauses)"
    by (rule lower_branches_head [OF l [unfolded bs]])
  have "sum_list (map weight ins) \<le> weight (fst b)"
    using parse_condition_weight [OF c(1)] c(2,3) by (cases clauses) (auto simp: comp_def)
  also have "\<dots> \<le> sum_list (map (\<lambda>(c, v). weight c) bs)" unfolding bs by (cases b) simp
  finally have "sum_list (map weight ins) + table_weight tab \<le>
      sum_list (map (\<lambda>(c, v). weight c) bs) + sum_list (map (\<lambda>(c, v). weight c * weight v) bs)"
    using lower_branches_weight [OF l] by (simp add: table_weight_def)
  also have "\<dots> = sum_list (map (\<lambda>(c, v). weight c + weight c * weight v) bs)"
    by (induction bs) auto
  finally show "weight e' \<le> weight e" using e by (simp add: table_weight_def)
qed (auto simp: switch_lower_def split: node_splits)

lemma merge_entries_weight: "table_weight (merge_entries P merged rest) \<le> table_weight merged + table_weight rest"
  by (induction P merged rest rule: merge_entries.induct) (auto simp: table_weight_def)

lemma switch_collapse_light: "rule_light (switch_collapse cx)"
proof (rule rule_lightI)
  fix e e' :: "'a opt_expr"
  assume "switch_collapse cx e = Changed e'"
  then obtain ins tab ins' tab' d where "e = ESwitch ins tab (ESwitch ins' tab' d)"
    "e' = ESwitch ins (merge_entries (cx_prim cx) tab tab') d"
    by (auto simp: switch_collapse_def split: node_splits)
  then show "weight e' \<le> weight e"
    using merge_entries_weight [of "cx_prim cx" tab tab'] by (simp add: table_weight_def)
qed (auto simp: switch_collapse_def split: node_splits)

end
