(* ===== verification/OptFuncRules.thy ===== *)
theory OptFuncRules
  imports OptSwitch
begin

text \<open>
  The rewrite rules that know particular functions by name (\<open>rules/object_access.rs\<close>,
  \<open>idempotent.rs\<close>, \<open>round_trip.rs\<close>, \<open>encode_round_trip.rs\<close>, \<open>empty_needle.rs\<close>, \<open>flatten.rs\<close>,
  \<open>extremum_null_drop.rs\<close>, \<open>concat_collapse.rs\<close>), the resolution of a name in the registry
  (\<open>funcs/src/registry.rs\<close>), and the whole rule set of \<open>rules/engine.rs\<close>.
\<close>

section \<open>Resolving a name\<close>

text \<open>The overloads of a name are consecutive in the registry: \<open>register\<close> panics otherwise.\<close>

definition overload_start :: "('x, 'k, 'w) registry \<Rightarrow> string \<Rightarrow> nat" where
  "overload_start reg name = length (takeWhile (\<lambda>f. fn_name f \<noteq> name) reg)"

definition overloads :: "('x, 'k, 'w) registry \<Rightarrow> string \<Rightarrow> ('x, 'k, 'w) expr_func list" where
  "overloads reg name = takeWhile (\<lambda>f. fn_name f = name) (drop (overload_start reg name) reg)"

primrec position :: "('a \<Rightarrow> bool) \<Rightarrow> 'a list \<Rightarrow> nat option" where
  "position P [] = None"
| "position P (x # xs) = (if P x then Some 0 else map_option Suc (position P xs))"

lemma position_less: "position P xs = Some i \<Longrightarrow> i < length xs"
  by (induction xs arbitrary: i) (auto split: if_splits)

definition get_ref :: "('x, 'k, 'w) registry \<Rightarrow> string \<Rightarrow> nat option \<Rightarrow> func_error + func_ref" where
  "get_ref reg name arity =
     (if overloads reg name = [] then Inl (UnknownFunction name)
      else case position
             (case arity of
                Some n \<Rightarrow> (\<lambda>f. arity_ok f n)
              | None \<Rightarrow> (\<lambda>f. fn_max_args f = None)) (overloads reg name) of
        Some i \<Rightarrow> Inr (of_nat (overload_start reg name + i))
      | None \<Rightarrow> Inl (ArityMismatch name (case arity of None \<Rightarrow> 0 | Some n \<Rightarrow> n)))"

definition resolve :: "('x, 'k, 'w) registry \<Rightarrow> string \<Rightarrow> nat option \<Rightarrow> func_ref option" where
  "resolve reg name arity = ok_option (get_ref reg name arity)"

definition resolve_all :: "('x, 'k, 'w) registry \<Rightarrow> nat option \<Rightarrow> string list \<Rightarrow> func_ref list" where
  "resolve_all reg arity names = List.map_filter (\<lambda>name. resolve reg name arity) names"

section \<open>Access to a literal object or array\<close>

definition const_text_key :: "'x opt_expr list \<Rightarrow> string option" where
  "const_text_key args =
     (case args of
        [_, key] \<Rightarrow> (case key of EConst (VText t) \<Rightarrow> Some t | _ \<Rightarrow> None)
      | _ \<Rightarrow> None)"

definition fold_object_get ::
  "('x, 'k, 'w) registry \<Rightarrow> 'x opt_expr \<Rightarrow> (string \<times> 'x opt_expr) list \<Rightarrow> 'x opt_expr list \<Rightarrow> 'x rewrite" where
  "fold_object_get reg node entries args =
     (case const_text_key args of
        None \<Rightarrow> Same node
      | Some key \<Rightarrow>
          (case position (\<lambda>p. fst p = key) entries of
             Some index \<Rightarrow>
               if list_all (\<lambda>i. i = index \<or> \<not> can_fail reg (snd (entries ! i))) [0..<length entries]
               then Changed (snd (entries ! index)) else Same node
           | None \<Rightarrow>
               if list_all (\<lambda>p. \<not> can_fail reg (snd p)) entries then Changed (EConst VNull) else Same node))"

definition fold_object_has_key ::
  "('x, 'k, 'w) registry \<Rightarrow> 'x opt_expr \<Rightarrow> (string \<times> 'x opt_expr) list \<Rightarrow> 'x opt_expr list \<Rightarrow> 'x rewrite" where
  "fold_object_has_key reg node entries args =
     (case const_text_key args of
        None \<Rightarrow> Same node
      | Some key \<Rightarrow>
          if list_ex (\<lambda>p. can_fail reg (snd p)) entries then Same node
          else Changed (EConst (VBool (list_ex (\<lambda>p. fst p = key) entries))))"

definition fold_len :: "('x, 'k, 'w) registry \<Rightarrow> 'x opt_expr \<Rightarrow> 'x opt_expr list \<Rightarrow> 'x rewrite" where
  "fold_len reg node values =
     (if list_ex (can_fail reg) values then Same node else Changed (EConst (VInt64 (int (length values)))))"

definition object_access_fold :: "('x, 'k, 'w) rule_cx \<Rightarrow> 'x opt_expr \<Rightarrow> 'x rewrite" where
  "object_access_fold cx node =
     (case node of
        ECall func args \<Rightarrow>
          (let name = map_option fn_name (get_by_ref (cx_registry cx) func) in
           case args of
             EObject entries # _ \<Rightarrow>
               if name = Some ''objectGet'' then fold_object_get (cx_registry cx) node entries args
               else if name = Some ''objectHasKey'' then fold_object_has_key (cx_registry cx) node entries args
               else if name = Some ''len'' then fold_len (cx_registry cx) node (map snd entries)
               else Same node
           | EArray elements # _ \<Rightarrow>
               if name = Some ''len'' then fold_len (cx_registry cx) node elements else Same node
           | _ \<Rightarrow> Same node)
      | _ \<Rightarrow> Same node)"

section \<open>Idempotent functions and inverse pairs\<close>

definition idempotent_collapse :: "func_ref list \<Rightarrow> 'x opt_expr \<Rightarrow> 'x rewrite" where
  "idempotent_collapse operators node =
     (case node of
        ECall func [ECall inner inner_args] \<Rightarrow>
          if func \<in> set operators \<and> inner = func \<and> length inner_args = 1 then Changed (ECall func inner_args) else Same node
      | _ \<Rightarrow> Same node)"

definition ROUND_TRIPS :: "(string \<times> string \<times> value_class) list" where
  "ROUND_TRIPS =
     [(''reverse'', ''reverse'', ClsString), (''not'', ''not'', ClsBool),
      (''bytesFromHex'', ''hex'', ClsBytes), (''bytesFromBase64'', ''base64'', ClsBytes)]"

definition inverse_pairs :: "('x, 'k, 'w) registry \<Rightarrow> (func_ref \<times> func_ref \<times> value_class) list" where
  "inverse_pairs reg =
     List.map_filter (\<lambda>(outer, inner, expect).
       case resolve reg outer (Some 1) of
         None \<Rightarrow> None
       | Some f \<Rightarrow> map_option (\<lambda>g. (f, g, expect)) (resolve reg inner (Some 1))) ROUND_TRIPS"

definition matching_class :: "(func_ref \<times> func_ref \<times> value_class) list \<Rightarrow> func_ref \<Rightarrow> func_ref \<Rightarrow> value_class option" where
  "matching_class inverses outer inner =
     map_option (\<lambda>p. snd (snd p)) (find (\<lambda>p. fst p = outer \<and> fst (snd p) = inner) inverses)"

definition round_trip_collapse :: "(func_ref \<times> func_ref \<times> value_class) list \<Rightarrow> 'x opt_expr \<Rightarrow> 'x rewrite" where
  "round_trip_collapse inverses node =
     (case node of
        ECall outer [ECall inner [operand]] \<Rightarrow>
          (case matching_class inverses outer inner of
             Some expect \<Rightarrow> Changed (ETypeAssert operand expect YieldIdentity)
           | None \<Rightarrow> Same node)
      | _ \<Rightarrow> Same node)"

definition ROUND_TRIP_ALGORITHMS :: "string list" where
  "ROUND_TRIP_ALGORITHMS = [''hex'', ''base64'', ''base64url'']"

definition encode_round_trip :: "func_ref option \<Rightarrow> func_ref option \<Rightarrow> 'x opt_expr \<Rightarrow> 'x rewrite" where
  "encode_round_trip encode decode node =
     (case node of
        ECall func [ECall inner [operand, EConst (VText inner_label)], EConst (VText outer_label)] \<Rightarrow>
          if encode = Some inner \<and> decode = Some func \<and> outer_label \<in> set ROUND_TRIP_ALGORITHMS
             \<and> inner_label = outer_label
          then Changed (ETypeAssert operand ClsBytes YieldIdentity) else Same node
      | _ \<Rightarrow> Same node)"

definition empty_needle :: "func_ref list \<Rightarrow> 'x opt_expr \<Rightarrow> 'x rewrite" where
  "empty_needle predicates node =
     (case node of
        ECall func [haystack, EConst (VText needle)] \<Rightarrow>
          if func \<in> set predicates \<and> needle = []
          then Changed (ETypeAssert haystack ClsString (YieldConst (VBool True))) else Same node
      | _ \<Rightarrow> Same node)"

section \<open>Variadic functions\<close>

definition flatten_args :: "func_ref \<Rightarrow> 'x opt_expr list \<Rightarrow> 'x opt_expr list" where
  "flatten_args func args =
     concat (map (\<lambda>a. case a of ECall inner inner_args \<Rightarrow> if inner = func then inner_args else [a] | _ \<Rightarrow> [a]) args)"

definition flatten :: "func_ref list \<Rightarrow> 'x opt_expr \<Rightarrow> 'x rewrite" where
  "flatten operators node =
     (case node of
        ECall func args \<Rightarrow>
          if func \<in> set operators \<and> list_ex (\<lambda>a. case a of ECall inner _ \<Rightarrow> inner = func | _ \<Rightarrow> False) args
          then Changed (ECall func (flatten_args func args)) else Same node
      | _ \<Rightarrow> Same node)"

definition is_null_literal :: "'x opt_expr \<Rightarrow> bool" where
  "is_null_literal e = (case e of EConst VNull \<Rightarrow> True | _ \<Rightarrow> False)"

definition extremum_null_drop :: "func_ref list \<Rightarrow> 'x opt_expr \<Rightarrow> 'x rewrite" where
  "extremum_null_drop extremums node =
     (case node of
        ECall func args \<Rightarrow>
          if func \<in> set extremums \<and> list_ex is_null_literal args
          then (case filter (\<lambda>a. \<not> is_null_literal a) args of
                  [] \<Rightarrow> Changed (EConst VNull)
                | [e] \<Rightarrow> Changed e
                | kept \<Rightarrow> Changed (ECall func kept))
          else Same node
      | _ \<Rightarrow> Same node)"

definition is_empty_text :: "'x opt_expr \<Rightarrow> bool" where
  "is_empty_text e = (case e of EConst (VText t) \<Rightarrow> t = [] | _ \<Rightarrow> False)"

definition concat_collapse :: "func_ref option \<Rightarrow> 'x opt_expr \<Rightarrow> 'x rewrite" where
  "concat_collapse concat_ref node =
     (case node of
        ECall func args \<Rightarrow>
          if Some func \<noteq> concat_ref then Same node
          else
            (let kept = filter (\<lambda>a. \<not> is_empty_text a) args;
                 shortened = (if length kept \<noteq> length args then Changed (ECall func kept) else Same node)
             in case kept of
                  [] \<Rightarrow> Changed (EConst (VText []))
                | [only] \<Rightarrow> if as_const only \<noteq> None then shortened else Changed (ETypeAssert only ClsString YieldIdentity)
                | _ \<Rightarrow> shortened)
      | _ \<Rightarrow> Same node)"


text \<open>The UTF-8 forms of the characters with the \<open>White_Space\<close> property, which \<open>str::trim_start\<close> and
  \<open>str::trim_end\<close> remove.\<close>

definition WHITE_SPACE :: "string list" where
  "WHITE_SPACE =
     [[CHR 0x09], [CHR 0x0A], [CHR 0x0B], [CHR 0x0C], [CHR 0x0D], [CHR 0x20], [CHR 0xC2, CHR 0x85], [CHR 0xC2, CHR 0xA0],
      [CHR 0xE1, CHR 0x9A, CHR 0x80]]
     @ map (\<lambda>n. [CHR 0xE2, CHR 0x80, char_of n]) ([0x80::nat..<0x8B] @ [0xA8, 0xA9, 0xAF])
     @ [[CHR 0xE2, CHR 0x81, CHR 0x9F], [CHR 0xE3, CHR 0x80, CHR 0x80]]"

lemma white_space_nonempty: "w \<in> set WHITE_SPACE \<Longrightarrow> 0 < length w"
  by (auto simp: WHITE_SPACE_def)

lemma find_white: "find P WHITE_SPACE = Some w \<Longrightarrow> P w \<and> 0 < length w"
  by (auto simp only: find_Some_iff intro!: white_space_nonempty nth_mem)

function trim_start :: "string \<Rightarrow> string" where
  "trim_start s =
     (case find (\<lambda>w. w = take (length w) s) WHITE_SPACE of
        None \<Rightarrow> s
      | Some w \<Rightarrow> trim_start (drop (length w) s))"
  by pat_completeness auto
termination
proof (relation "measure length", goal_cases)
  case (2 s w)
  then have "w = take (length w) s" "0 < length w" using find_white by blast+
  then have "s \<noteq> []" "0 < length w" by auto
  then show ?case by simp
qed simp

function trim_end :: "string \<Rightarrow> string" where
  "trim_end s =
     (case find (\<lambda>w. length w \<le> length s \<and> w = drop (length s - length w) s) WHITE_SPACE of
        None \<Rightarrow> s
      | Some w \<Rightarrow> trim_end (take (length s - length w) s))"
  by pat_completeness auto
termination
proof (relation "measure length", goal_cases)
  case (2 s w)
  then have "0 < length w" "length w \<le> length s" using find_white by blast+
  then have "length s - length w < length s" by linarith
  then show ?case by simp
qed simp

declare trim_start.simps [simp del] trim_end.simps [simp del]

text \<open>One of the two loops of \<open>strip_whitespace_edges\<close>, over the segments from its end.\<close>

fun strip_edge :: "(string \<Rightarrow> string) \<Rightarrow> 'x opt_expr list \<Rightarrow> 'x opt_expr list \<times> bool" where
  "strip_edge trim [] = ([], False)"
| "strip_edge trim (a # args) =
     (case a of
        EConst (VText t) \<Rightarrow>
          (let trimmed = trim t
           in if trimmed = [] then (fst (strip_edge trim args), True)
              else if length trimmed \<noteq> length t then (EConst (VText trimmed) # args, True)
              else (a # args, False))
      | _ \<Rightarrow> (a # args, False))"

definition strip_whitespace_edges :: "'x opt_expr list \<Rightarrow> 'x opt_expr list \<times> bool" where
  "strip_whitespace_edges args =
     (case strip_edge trim_start args of
        (front, c) \<Rightarrow> (case strip_edge trim_end (rev front) of (back, d) \<Rightarrow> (rev back, c \<or> d)))"

definition trim_concat :: "func_ref option \<Rightarrow> func_ref option \<Rightarrow> 'x opt_expr \<Rightarrow> 'x rewrite" where
  "trim_concat trim_ref concat_ref node =
     (case node of
        ECall func [ECall inner concat_args] \<Rightarrow>
          if Some func = trim_ref \<and> Some inner = concat_ref
          then (case strip_whitespace_edges concat_args of
                  (trimmed, changed) \<Rightarrow>
                    if \<not> changed then Same node
                    else if trimmed = [] then Changed (EConst (VText []))
                    else Changed (ECall func [ECall inner trimmed]))
          else Same node
      | _ \<Rightarrow> Same node)"

section \<open>The rule set\<close>

text \<open>\<open>RuleSet::create\<close>: all twenty fixpoint rules in the code's order.\<close>

definition fixpoint_rules :: "('x, 'k, 'w) rule_cx \<Rightarrow> 'x rule list" where
  "fixpoint_rules cx =
     (let reg = cx_registry cx in
      [field_collapse, const_fold cx, interpolation_fold cx, object_fold, array_fold, object_access_fold cx,
       flatten_conditionals, branch_prune cx, switch_lower cx (resolve reg ''equals'' (Some 2)), switch_collapse cx,
       de_morgan (resolve reg ''not'' (Some 1)),
       idempotent_collapse (resolve_all reg (Some 1) [''upper'', ''lower'', ''trim'']),
       round_trip_collapse (inverse_pairs reg),
       encode_round_trip (resolve reg ''encode'' (Some 2)) (resolve reg ''decode'' (Some 2)),
       empty_needle (resolve_all reg (Some 2) [''contains'', ''startsWith'', ''endsWith'']),
       flatten (resolve_all reg None [''concat'']),
       extremum_null_drop (resolve_all reg None [''min'', ''max'']),
       concat_collapse (resolve reg ''concat'' None),
       trim_concat (resolve reg ''trim'' (Some 1)) (resolve reg ''concat'' None),
       type_assert_collapse])"

text \<open>\<open>RuleSet::create\<close>: the finalize rules.\<close>

definition finalize_rules :: "('x, 'k, 'w) rule_cx \<Rightarrow> 'x rule list" where
  "finalize_rules cx = [multi_if_collapse, or_membership cx (resolve (cx_registry cx) ''equals'' (Some 2))]"

text \<open>
  The part of the fixpoint rules whose soundness does not depend on what particular functions
  compute, without the two switch rules: field, constant, interpolation, object and array
  folding, the flattening and the pruning of conditionals, De Morgan, and the collapse of
  type assertions.
\<close>

definition structural_rules :: "('x, 'k, 'w) rule_cx \<Rightarrow> 'x rule list" where
  "structural_rules cx =
     [field_collapse, const_fold cx, interpolation_fold cx, object_fold, array_fold, flatten_conditionals,
      branch_prune cx, de_morgan (resolve (cx_registry cx) ''not'' (Some 1)), type_assert_collapse]"

lemma structural_rules_subset: "set (structural_rules cx) \<subseteq> set (fixpoint_rules cx)"
  by (simp add: structural_rules_def fixpoint_rules_def Let_def)

section \<open>No rule makes a tree heavier\<close>

lemma sum_weight_filter: "sum_list (map weight (filter P es)) \<le> sum_list (map weight es)"
  by (induction es) auto

lemma fold_len_light: "fold_len reg node vs = Changed e' \<Longrightarrow> weight e' \<le> weight node"
  "fold_len reg node vs = Same e' \<Longrightarrow> e' = node"
  using weight_pos [of node] by (auto simp: fold_len_def split: if_splits)

lemma fold_object_light:
  "fold_object_get reg (ECall f (EObject es # rest)) es args = Changed e' \<Longrightarrow> weight e' \<le> weight (ECall f (EObject es # rest))"
  "fold_object_has_key reg node es args = Changed e' \<Longrightarrow> weight e' \<le> weight node"
proof -
  assume "fold_object_get reg (ECall f (EObject es # rest)) es args = Changed e'"
  then consider "e' = EConst VNull" | i where "i < length es" "e' = snd (es ! i)"
    by (auto simp: fold_object_get_def dest: position_less split: option.splits if_splits)
  then show "weight e' \<le> weight (ECall f (EObject es # rest))"
  proof cases
    case 2
    then have "weight e' \<le> sum_list (map (\<lambda>p. weight (snd p)) es)"
      using sum_list_le [of "es ! i" es "\<lambda>p. weight (snd p)"] by simp
    then show ?thesis by simp
  qed simp
next
  assume "fold_object_has_key reg node es args = Changed e'"
  then show "weight e' \<le> weight node"
    using weight_pos [of node] by (auto simp: fold_object_has_key_def split: option.splits if_splits)
qed

lemma fold_object_same:
  "fold_object_get reg node es args = Same e' \<Longrightarrow> e' = node" "fold_object_has_key reg node es args = Same e' \<Longrightarrow> e' = node"
  by (auto simp: fold_object_get_def fold_object_has_key_def split: option.splits if_splits)

lemma object_access_cases:
  obtains "object_access_fold cx e = Same e"
  | f es rest where "e = ECall f (EObject es # rest)"
      "object_access_fold cx e = fold_object_get (cx_registry cx) e es (EObject es # rest)
       \<or> object_access_fold cx e = fold_object_has_key (cx_registry cx) e es (EObject es # rest)
       \<or> object_access_fold cx e = fold_len (cx_registry cx) e (map snd es)"
  | vs where "object_access_fold cx e = fold_len (cx_registry cx) e vs"
proof (cases "\<exists>f a rest. e = ECall f (a # rest)")
  case True
  then obtain f a rest where e: "e = ECall f (a # rest)" by blast
  show ?thesis
  proof (cases a)
    case (EObject es)
    have "object_access_fold cx e \<in> {fold_object_get (cx_registry cx) e es (EObject es # rest),
        fold_object_has_key (cx_registry cx) e es (EObject es # rest), fold_len (cx_registry cx) e (map snd es), Same e}"
      unfolding object_access_fold_def e EObject Let_def by (simp only: opt_expr.case list.case insert_iff split: if_split) blast
    then show ?thesis using that e EObject by (auto simp del: map_map)
  next
    case (EArray vs)
    have "object_access_fold cx e \<in> {fold_len (cx_registry cx) e vs, Same e}"
      unfolding object_access_fold_def e EArray Let_def by (simp only: opt_expr.case list.case insert_iff split: if_split) blast
    then show ?thesis using that by auto
  qed (use e that in \<open>simp_all add: object_access_fold_def\<close>)
next
  case False
  then have "object_access_fold cx e = Same e"
    by (cases e) (auto simp: object_access_fold_def Let_def neq_Nil_conv split: list.split)
  then show ?thesis by (rule that)
qed

lemma object_access_fold_light: "rule_light (object_access_fold cx)"
proof (rule rule_lightI)
  fix e e' :: "'a opt_expr"
  assume ch: "object_access_fold cx e = Changed e'"
  show "weight e' \<le> weight e"
  proof (cases rule: object_access_cases [of cx e])
    case (2 f es rest)
    then show ?thesis
      using ch fold_object_light(1) [of "cx_registry cx" f es rest "EObject es # rest" e']
        fold_object_light(2) [of "cx_registry cx" e es "EObject es # rest" e'] fold_len_light(1) [of "cx_registry cx" e "map snd es" e']
      by metis
  qed (use ch fold_len_light(1) [of "cx_registry cx" e _ e'] in auto)
next
  fix e e' :: "'a opt_expr"
  assume "object_access_fold cx e = Same e'"
  then show "e' = e"
    by (cases rule: object_access_cases [of cx e]) (auto dest: fold_len_light(2) fold_len_light(2) [OF sym] fold_object_same [OF sym])
qed

lemma idempotent_collapse_light: "rule_light (idempotent_collapse ops)"
  by (rule rule_lightI) (auto simp: idempotent_collapse_def split: opt_expr.splits list.splits if_splits)

lemma round_trip_collapse_light: "rule_light (round_trip_collapse pairs)"
  by (rule rule_lightI) (auto simp: round_trip_collapse_def split: opt_expr.splits list.splits option.splits)

lemma encode_round_trip_light: "rule_light (encode_round_trip enc dec)"
  by (rule rule_lightI) (auto simp: encode_round_trip_def split: opt_expr.splits list.splits val.splits if_splits)

lemma empty_needle_light: "rule_light (empty_needle preds)"
  by (rule rule_lightI) (auto simp: empty_needle_def split: opt_expr.splits list.splits val.splits if_splits)

lemma flatten_args_weight: "sum_list (map weight (flatten_args f args)) \<le> sum_list (map weight args)"
proof (induction args)
  case (Cons a args)
  then show ?case by (cases a) (auto simp: flatten_args_def)
qed (simp add: flatten_args_def)

lemma flatten_light: "rule_light (flatten ops)"
  by (rule rule_lightI) (auto simp: flatten_def flatten_args_weight split: opt_expr.splits if_splits)

lemma extremum_null_drop_light: "rule_light (extremum_null_drop ops)"
proof (rule rule_lightI)
  fix e e' :: "'a opt_expr"
  assume "extremum_null_drop ops e = Changed e'"
  then obtain f args where e: "e = ECall f args"
      "e' = EConst VNull \<or> filter (\<lambda>a. \<not> is_null_literal a) args = [e'] \<or> e' = ECall f (filter (\<lambda>a. \<not> is_null_literal a) args)"
    by (auto simp: extremum_null_drop_def split: opt_expr.splits list.splits if_splits)
  then show "weight e' \<le> weight e" using sum_weight_filter [of "\<lambda>a. \<not> is_null_literal a" args] by auto
qed (auto simp: extremum_null_drop_def split: opt_expr.splits list.splits if_splits)

lemma concat_collapse_light: "rule_light (concat_collapse c)"
proof (rule rule_lightI)
  fix e e' :: "'a opt_expr"
  assume "concat_collapse c e = Changed e'"
  then obtain f args where e: "e = ECall f args"
      "e' = EConst (VText []) \<or> e' = ECall f (filter (\<lambda>a. \<not> is_empty_text a) args)
       \<or> (\<exists>x. filter (\<lambda>a. \<not> is_empty_text a) args = [x] \<and> e' = ETypeAssert x ClsString YieldIdentity)"
    by (auto simp: concat_collapse_def Let_def split: opt_expr.splits list.splits if_splits)
  then show "weight e' \<le> weight e" using sum_weight_filter [of "\<lambda>a. \<not> is_empty_text a" args] by auto
qed (auto simp: concat_collapse_def Let_def split: opt_expr.splits list.splits if_splits)

lemma strip_edge_weight: "sum_list (map weight (fst (strip_edge trim args))) \<le> sum_list (map weight args)"
proof (induction args)
  case (Cons a args)
  then show ?case by (auto simp: Let_def split: opt_expr.splits val.splits)
qed simp

lemma strip_edges_weight:
  "strip_whitespace_edges args = (out, ch) \<Longrightarrow> sum_list (map weight out) \<le> sum_list (map weight args)"
  using strip_edge_weight [of trim_start args] strip_edge_weight [of trim_end "rev (fst (strip_edge trim_start args))"]
  by (auto simp: strip_whitespace_edges_def rev_map [symmetric] split: prod.splits)

lemma trim_concat_light: "rule_light (trim_concat t c)"
  by (rule rule_lightI)
    (auto simp: trim_concat_def dest!: strip_edges_weight split: opt_expr.splits list.splits if_splits prod.splits)

lemmas rules_light = field_collapse_light const_fold_light interpolation_fold_light object_fold_light array_fold_light
  object_access_fold_light flatten_conditionals_light branch_prune_light switch_lower_light switch_collapse_light
  de_morgan_light idempotent_collapse_light round_trip_collapse_light encode_round_trip_light empty_needle_light
  flatten_light extremum_null_drop_light concat_collapse_light trim_concat_light type_assert_collapse_light

lemma fixpoint_rules_light: "\<forall>rule \<in> set (fixpoint_rules cx). rule_light rule"
  by (simp add: fixpoint_rules_def Let_def rules_light)

lemma structural_rules_light: "\<forall>rule \<in> set (structural_rules cx). rule_light rule"
  using fixpoint_rules_light structural_rules_subset by blast

context rule_env
begin

lemma structural_rules_sound:
  assumes "\<And>f. resolve (cx_registry cx) ''not'' (Some 1) = Some f \<Longrightarrow> get_by_ref (env_registry E) f = Some not_func"
  shows "\<forall>rule \<in> set (structural_rules cx). rule_sound E rule"
  using de_morgan_sound [of "resolve (cx_registry cx) ''not'' (Some 1)" E] assms
  by (simp add: structural_rules_def field_collapse_sound const_fold_sound interpolation_fold_sound object_fold_sound
    array_fold_sound flatten_conditionals_sound branch_prune_sound same_prim type_assert_collapse_sound)

end

end
