(* ===== verification/OptProps.thy ===== *)
theory OptProps
  imports OptFuncRules
begin

text \<open>
  The properties of the expression optimizer: the modelled passes preserve the meaning of a
  program and always return; switch lowering and membership lowering are exact under their two
  conditions, and each condition is necessary, shown on programs over the builtins \<open>equals\<close> and
  \<open>divide\<close>.
\<close>

section \<open>The builtin \<open>divide\<close>\<close>

record 'x arith_ops =
  f64_div :: "'x \<Rightarrow> 'x \<Rightarrow> 'x"
  dec_is_zero :: "'x \<Rightarrow> bool"
  dec_div :: "'x \<Rightarrow> 'x \<Rightarrow> 'x"
  dec_int :: "int \<Rightarrow> 'x"

definition widen_numeric :: "'x prim_ops \<Rightarrow> 'x val \<Rightarrow> 'x val" where
  "widen_numeric P v =
     (case v of
        VInt8 n \<Rightarrow> VInt64 n
      | VInt16 n \<Rightarrow> VInt64 n
      | VInt32 n \<Rightarrow> VInt64 n
      | VUInt8 n \<Rightarrow> VInt64 (int n)
      | VUInt16 n \<Rightarrow> VInt64 (int n)
      | VUInt32 n \<Rightarrow> VInt64 (int n)
      | VUInt64 n \<Rightarrow> if int n \<le> 2 ^ 63 - 1 then VInt64 (int n) else VBigInt (int n)
      | VFloat32 f \<Rightarrow> VFloat64 (f64_f32 P f)
      | _ \<Rightarrow> v)"

text \<open>Integer division truncates toward zero; \<open>checked_div\<close> overflows only on \<open>i64::MIN / -1\<close>.\<close>

definition trunc_div :: "int \<Rightarrow> int \<Rightarrow> int" where
  "trunc_div x y = sgn x * sgn y * (\<bar>x\<bar> div \<bar>y\<bar>)"

definition divide_int :: "(int \<Rightarrow> 'x val) \<Rightarrow> int \<Rightarrow> int \<Rightarrow> func_error + 'x val" where
  "divide_int mk x y = (if y = 0 then Inl DivisionByZero else Inr (mk (trunc_div x y)))"

definition divide_evaluate :: "'x prim_ops \<Rightarrow> 'x arith_ops \<Rightarrow> 'x val list \<Rightarrow> func_error + 'x val" where
  "divide_evaluate P A args =
     (case args of
        [a, b] \<Rightarrow>
          if is_null a \<or> is_null b then Inr VNull
          else (case (widen_numeric P a, widen_numeric P b) of
                  (VInt64 x, VInt64 y) \<Rightarrow>
                    divide_int (\<lambda>q. if q \<le> 2 ^ 63 - 1 then VInt64 q else VBigInt q) x y
                | (VFloat64 f, VFloat64 g) \<Rightarrow>
                    if f64_zero P g then Inl DivisionByZero else Inr (VFloat64 (f64_div A f g))
                | (VBigInt x, VBigInt y) \<Rightarrow> divide_int VBigInt x y
                | (VBigInt x, VInt64 y) \<Rightarrow> divide_int VBigInt x y
                | (VInt64 x, VBigInt y) \<Rightarrow> divide_int VBigInt x y
                | (VDecimal d, VDecimal e) \<Rightarrow>
                    if dec_is_zero A e then Inl DivisionByZero else Inr (VDecimal (dec_div A d e))
                | (VDecimal d, VInt64 y) \<Rightarrow>
                    if y = 0 then Inl DivisionByZero else Inr (VDecimal (dec_div A d (dec_int A y)))
                | (VInt64 x, VDecimal e) \<Rightarrow>
                    if dec_is_zero A e then Inl DivisionByZero else Inr (VDecimal (dec_div A (dec_int A x) e))
                | _ \<Rightarrow> Inl (TypeMismatch ''divide''))
      | _ \<Rightarrow> Inl (TypeMismatch ''divide''))"

definition divide_window :: "'x prim_ops \<Rightarrow> 'x arith_ops \<Rightarrow> 'w \<Rightarrow> ('x, 'w) window_prog" where
  "divide_window P A w =
     WRead 0 (\<lambda>a. if is_null a then WReturn (Inr VNull) w
       else WRead 1 (\<lambda>b. if is_null b then WReturn (Inr VNull) w
         else WTake 0 (\<lambda>x. WTake 1 (\<lambda>y. WReturn (divide_evaluate P A [x, y]) w))))"

definition divide_func :: "'x prim_ops \<Rightarrow> 'x arith_ops \<Rightarrow> ('x, 'k, 'w) expr_func" where
  "divide_func P A =
     \<lparr> fn_name = ''divide'', fn_min_args = 2, fn_max_args = Some 2, fn_is_pure = True, fn_purity = (\<lambda>_. True),
       fn_can_fail = True, fn_evaluate = (\<lambda>args k w. (divide_evaluate P A args, w)),
       fn_window = (\<lambda>n k w. divide_window P A w) \<rparr>"

section \<open>A registry\<close>

definition num_arith :: "num_payload arith_ops" where
  "num_arith =
     \<lparr> f64_div = (\<lambda>a b. PNum (pnum_int a div pnum_int b)), dec_is_zero = (\<lambda>a. pnum_int a = 0),
       dec_div = (\<lambda>a b. PNum (pnum_int a div pnum_int b)), dec_int = PNum \<rparr>"

definition builtins :: "(num_payload, unit, unit) registry" where
  "builtins = [not_func, equals_func num_ops, divide_func num_ops num_arith]"

text \<open>Text and JSON forms over the same payloads, where a number is its decimal text.\<close>

definition plain_text :: "num_payload text_ops" where
  "plain_text =
     \<lparr> fin32 = (\<lambda>_. True), fin64 = (\<lambda>_. True), num32 = (\<lambda>x. Some (JInt (pnum_int x))), num64 = (\<lambda>x. Some (JInt (pnum_int x))),
       show_f32 = (\<lambda>x. int_dec (pnum_int x)), show_f64 = (\<lambda>x. int_dec (pnum_int x)), show_dec = (\<lambda>x. int_dec (pnum_int x)),
       show_date = int_dec, iso_date = int_dec, show_rfc3339 = int_dec, rfc3339_millis = int_dec,
       show_uuid = nat_dec, show_ipv4 = nat_dec, show_ipv6 = nat_dec, show_interval = nat_dec,
       doc = (\<lambda>x. JInt (pnum_int x)), print_json = (\<lambda>_. ''json''), cust_to_json = (\<lambda>x. Inr (JInt (pnum_int x))),
       cust_debug = (\<lambda>x. int_dec (pnum_int x)) \<rparr>"

definition row_env :: "(string \<Rightarrow> num_payload val) \<Rightarrow> (num_payload, unit, unit) eval_env" where
  "row_env row =
     \<lparr> env_prim = num_ops, env_registry = builtins, env_context = (), env_field = (\<lambda>n. Inr (row n)),
       env_fields = (\<lambda>_. Inl FieldNotBound), env_render = plain_text, env_columns = True \<rparr>"

definition builtins_cx :: "(num_payload, unit, unit) rule_cx" where
  "builtins_cx =
     \<lparr> cx_prim = num_ops, cx_registry = builtins, cx_context = (), cx_world = (), cx_render = plain_text \<rparr>"

lemma builtins_cases:
  "get_by_ref builtins f = Some fn \<Longrightarrow> fn = not_func \<or> fn = equals_func num_ops \<or> fn = divide_func num_ops num_arith"
  by (auto simp: get_by_ref_def builtins_def nth_Cons split: if_splits nat.splits)

lemma builtins_refs [simp]:
  "get_by_ref builtins 0 = Some not_func" "get_by_ref builtins 1 = Some (equals_func num_ops)"
  "get_by_ref builtins 2 = Some (divide_func num_ops num_arith)"
  by (simp_all add: get_by_ref_def builtins_def)

lemma builtins_deterministic:
  assumes "get_by_ref builtins f = Some fn"
  shows "fn_evaluate fn vs k w = (fst (fn_evaluate fn vs k' w'), w)"
proof -
  consider "fn = not_func" | "fn = equals_func num_ops" | "fn = divide_func num_ops num_arith"
    using builtins_cases [OF assms] by blast
  then show ?thesis by cases (simp_all add: not_func_def equals_func_def divide_func_def)
qed

interpretation row: switch_env "row_env row" builtins_cx 1 for row
proof (intro switch_env.intro rule_env.intro switch_env_axioms.intro)
  show "prim_laws (env_prim (row_env row))" using num_ops.prim_laws_axioms by (simp add: row_env_def)
  show "get_by_ref (env_registry (row_env row)) 1 = Some (equals_func (env_prim (row_env row)))"
    by (simp add: row_env_def)
  fix f fn vs w w'
  assume "get_by_ref (env_registry (row_env row)) f = Some fn"
  then have "get_by_ref builtins f = Some fn" by (simp add: row_env_def)
  then show "fn_evaluate fn vs (env_context (row_env row)) w = (fst (fn_evaluate fn vs (cx_context builtins_cx) (cx_world builtins_cx)), w)"
    "fn_evaluate fn vs (env_context (row_env row)) w = (fst (fn_evaluate fn vs (env_context (row_env row)) w'), w)"
    by (rule builtins_deterministic)+
qed (simp_all add: row_env_def builtins_cx_def)

section \<open>The passes preserve meaning and return\<close>

lemma rewrite_program_returns:
  assumes "\<And>e. e \<in> insert (prog_result p) (snd ` set (prog_statements p)) \<Longrightarrow> \<exists>e'. rewrite e = Some e'"
  shows "\<exists>p'. rewrite_program rewrite p = Some p'"
proof -
  have "\<exists>ss. those (map (\<lambda>(r, e). map_option (Pair r) (rewrite e)) xs) = Some ss" if "set xs \<subseteq> set (prog_statements p)" for xs
    using that
  proof (induction xs)
    case (Cons x xs)
    then obtain ss where "those (map (\<lambda>(r, e). map_option (Pair r) (rewrite e)) xs) = Some ss" by auto
    moreover obtain e' where "rewrite (snd x) = Some e'" using Cons.prems assms [of "snd x"] by auto
    ultimately show ?case by (auto split: prod.splits)
  qed simp
  from this [OF order_refl] obtain ss where "those (map (\<lambda>(r, e). map_option (Pair r) (rewrite e)) (prog_statements p)) = Some ss"
    by blast
  moreover obtain r where "rewrite (prog_result p) = Some r" using assms by blast
  ultimately show ?thesis by (simp add: rewrite_program_def)
qed

text \<open>
  C35: The structural rules of the optimizer preserve meaning. The walk to the fixpoint is run
  over the nine rules of \<open>structural_rules\<close> (field, constant, interpolation, object and array
  folding, flattening and pruning of conditionals, De Morgan, collapse of type assertions)
  and the finalize sweep over \<open>MultiIfCollapse\<close> alone; the other eleven fixpoint rules
  (switch lowering and collapse, and the rules for particular functions) and the finalize
  rule \<open>OrMembership\<close> are not part of the claim; the section on switch lowering shows inputs on
  which the switch rules do change the meaning. For every program whose expressions are no heavier than the fuel, both passes
  return, and the rewritten program gives the value and the effects of the original wherever
  that succeeds, and fails wherever that fails; which error it is may change, and an
  original that fails with \<open>FieldNotBound\<close> is not a resolved program yet and may become
  anything. A field with a known name may be read as that column (\<open>env_columns\<close>) or be
  unbound. Hypotheses: the documented meaning of the purity flags of the registry
  (\<open>rule_env\<close>), and that the function registered as \<open>not\<close> is the builtin.
\<close>

theorem optimize_preserves:
  assumes "rule_env E cx"
    and "\<And>f. resolve (cx_registry cx) ''not'' (Some 1) = Some f \<Longrightarrow> get_by_ref (env_registry E) f = Some not_func"
    and "list_all (\<lambda>e. weight e \<le> fuel) (prog_result p # map snd (prog_statements p))"
  shows "\<exists>p' p''.
    rewrite_program (optimize_expr fuel (structural_rules cx)) p = Some p' \<and>
    rewrite_program (\<lambda>e. Some (finalize_expr [multi_if_collapse] e)) p' = Some p'' \<and>
    (case run_program E p w of
       Inr r \<Rightarrow> run_program E p'' w = Inr r
     | Inl err \<Rightarrow> err = FieldNotBound \<or> (\<exists>err'. run_program E p'' w = Inl err'))"
proof -
  have sound: "\<forall>rule \<in> set (structural_rules cx). rule_sound E rule"
    using rule_env.structural_rules_sound [OF assms(1)] assms(2) by blast
  have "\<exists>p'. rewrite_program (optimize_expr fuel (structural_rules cx)) p = Some p'"
  proof (rule rewrite_program_returns)
    fix e
    assume "e \<in> insert (prog_result p) (snd ` set (prog_statements p))"
    then have "weight e \<le> fuel" using assms(3) by (auto simp: list_all_iff)
    then show "\<exists>e'. optimize_expr fuel (structural_rules cx) e = Some e'"
      using optimize_expr_lightens [OF structural_rules_light] unfolding lightens_def by blast
  qed
  then obtain p' where p': "rewrite_program (optimize_expr fuel (structural_rules cx)) p = Some p'" by blast
  obtain p'' where p'': "rewrite_program (\<lambda>e. Some (finalize_expr [multi_if_collapse] e)) p' = Some p''"
    using rewrite_program_returns [of p' "\<lambda>e. Some (finalize_expr [multi_if_collapse] e)"] by auto
  have "refines E e e'" if "Some (finalize_expr [multi_if_collapse] e) = Some e'" for e e'
    using that finalize_expr_refines [of "[multi_if_collapse]" E e] multi_if_collapse_sound by auto
  note r2 = rewrite_program_refines [of "\<lambda>e. Some (finalize_expr [multi_if_collapse] e)", OF this p'']
  note r1 = rewrite_program_refines [OF optimize_expr_refines [OF sound] p']
  have "below (run_program E p w) (run_program E p'' w)"
    using run_program_below [OF refines_trans [OF r1 r2]] .
  then show ?thesis using p' p'' by (auto simp: below_def split: sum.splits)
qed

lemma resolve_not [simp]: "resolve builtins ''not'' (Some (Suc 0)) = Some 0"
  by (simp add: resolve_def get_ref_def overloads_def overload_start_def builtins_def not_func_def arity_ok_def ok_option_def)

text \<open>A program over three builtins: \<open>r0 = if(true, x, null); not(r0) && not(r1)\<close>.\<close>

definition sample_program :: "num_payload opt_program" where
  "sample_program =
     \<lparr> prog_statements = [(0, EIf (EConst (VBool True)) (ESourceField ''x'') (EConst VNull))],
       prog_result = EAnd (ECall 0 [ERegister 0]) (ECall 0 [ERegister 1]), prog_register_count = 2 \<rparr>"

theorem optimize_preserves_witness:
  "\<exists>p' p''.
    rewrite_program (optimize_expr 6 (structural_rules builtins_cx)) sample_program = Some p' \<and>
    rewrite_program (\<lambda>e. Some (finalize_expr [multi_if_collapse] e)) p' = Some p'' \<and>
    (case run_program (row_env (\<lambda>_. VBool False)) sample_program () of
       Inr r \<Rightarrow> run_program (row_env (\<lambda>_. VBool False)) p'' () = Inr r
     | Inl err \<Rightarrow> err = FieldNotBound \<or> (\<exists>err'. run_program (row_env (\<lambda>_. VBool False)) p'' () = Inl err'))"
  by (rule optimize_preserves [OF row.rule_env_axioms])
    (simp_all add: sample_program_def row_env_def builtins_cx_def)

text \<open>
  C36: The optimizer returns. With fuel for the weight of a tree, the walk over all twenty
  fixpoint rules, in the order of the code, returns a tree that is no heavier, although a
  rewritten node has its children optimized again and lowering copies branch values.
\<close>

theorem optimize_terminates:
  "weight e \<le> fuel \<Longrightarrow>
   \<exists>e'. optimize_expr fuel (fixpoint_rules cx) e = Some e' \<and> weight e' \<le> weight e"
  using optimize_expr_lightens [OF fixpoint_rules_light] unfolding lightens_def by blast

theorem optimize_terminates_witness:
  "\<exists>e'. optimize_expr 6 (fixpoint_rules builtins_cx) (prog_result sample_program) = Some e' \<and>
     weight e' \<le> weight (prog_result sample_program)"
  by (rule optimize_terminates) (simp add: sample_program_def)

section \<open>Switch and membership lowering\<close>

text \<open>The key expressions after the first have a value in every state.\<close>

definition later_keys_total :: "('x, 'k, 'w) eval_env \<Rightarrow> 'x opt_expr \<Rightarrow> bool" where
  "later_keys_total E e \<longleftrightarrow>
     (case e of ESwitch ins _ _ \<Rightarrow> \<forall>k \<in> set (tl ins). \<forall>s. \<exists>r. eval E k s = Inr r | _ \<Rightarrow> True)"

definition keys_without_blocks :: "'x opt_expr \<Rightarrow> bool" where
  "keys_without_blocks e \<longleftrightarrow> (case e of ESwitch ins _ _ \<Rightarrow> \<not> list_ex contains_block ins | _ \<Rightarrow> True)"

text \<open>
  C37: Switch lowering is exact: the dispatch table gives the value, the effects and the error of
  the \<open>multiIf\<close> it replaces in every state, when key expressions that compare as structurally
  equal are the same expression, the constants lie in their type's range, and only the first
  key expression can fail.
\<close>

theorem switch_lower_sound:
  assumes "switch_env E cx equals" "switch_lower cx (Some equals) (EMultiIf bs d) = Changed e'"
    and "exact_exprs (env_prim E) (clause_exprs (branch_clauses equals bs))"
    and "constants_in_width (branch_clauses equals bs)" "later_keys_total E e'"
  shows "eval E (EMultiIf bs d) s = eval E e' s"
  by (rule switch_env.switch_lower_exact [OF assms(1,2) refl assms(3,4)])
    (use assms(5) in \<open>simp add: later_keys_total_def\<close>)

text \<open>
  C38: Membership lowering is exact under the same conditions, and when no key expression
  contains a block: the table gives the boolean, the effects and the error of the disjunction
  of equality tests it replaces.
\<close>

theorem or_membership_sound:
  assumes "switch_env E cx equals" "or_membership cx (Some equals) node = Changed e'"
    and "parse_condition equals node = Some clauses" "exact_exprs (env_prim E) (clause_exprs clauses)"
    and "constants_in_width clauses" "keys_without_blocks e'" "later_keys_total E e'"
  shows "eval E node s = eval E e' s"
  by (rule switch_env.or_membership_exact [OF assms(1-5)])
    (use assms(6,7) in \<open>simp add: later_keys_total_def keys_without_blocks_def\<close>)

text \<open>Six tests of a column against integers, as a \<open>multiIf\<close> and as a disjunction.\<close>

definition column_test :: "num_payload opt_expr \<Rightarrow> int \<Rightarrow> num_payload opt_expr" where
  "column_test e n = ECall 1 [e, EConst (VInt64 n)]"

definition six_branches :: "(num_payload opt_expr \<times> num_payload opt_expr) list" where
  "six_branches = map (\<lambda>n. (column_test (ESourceField ''x'') n, EConst (VInt64 (10 * n)))) [1, 2, 3, 4, 5, 6]"

definition six_table :: "num_payload opt_expr" where
  "six_table =
     ESwitch [ESourceField ''x''] (map (\<lambda>n. ([VInt64 n], EConst (VInt64 (10 * n)))) [1, 2, 3, 4, 5, 6]) (EConst VNull)"

definition six_or :: "num_payload opt_expr" where
  "six_or =
     foldr (\<lambda>n e. EOr (column_test (ESourceField ''x'') n) e) [1, 2, 3, 4, 5] (column_test (ESourceField ''x'') 6)"

definition six_members :: "num_payload opt_expr" where
  "six_members =
     ESwitch [ESourceField ''x''] (map (\<lambda>n. ([VInt64 n], EConst (VBool True))) [1, 2, 3, 4, 5, 6]) (EConst (VBool False))"

definition six_clauses :: "num_payload clause list" where
  "six_clauses = map (\<lambda>n. [(ESourceField ''x'', VInt64 n)]) [1, 2, 3, 4, 5, 6]"

lemma column_test_parsed [simp]: "parse_condition 1 (column_test (ESourceField f) n) = Some [[(ESourceField f, VInt64 n)]]"
  by (simp add: column_test_def is_switchable_const_def as_const_def)

lemma column_key [simp]:
  "clause_to_key num_ops [(ESourceField f, VInt64 n)] None = Some ([VInt64 n], [ESourceField f])"
  "clause_to_key num_ops [(ESourceField f, VInt64 n)] (Some [ESourceField f]) = Some ([VInt64 n], [ESourceField f])"
  by (simp_all add: clause_to_key_def opt_eq.simps switch_key_def key_from_value_def key_single_def canonicalise_def
    bind_res_def ok_option_def)

lemma int_key_eq [simp]: "key_eq num_ops [VInt64 m] [VInt64 n] \<longleftrightarrow> m = n"
  by (simp add: key_eq_def eq_element_def compare_values.simps compare_scalar_def widen_def cmp_some_def cmp_lin_def)

lemma builtins_cx_sel [simp]: "cx_prim builtins_cx = num_ops" "cx_registry builtins_cx = builtins"
  by (simp_all add: builtins_cx_def)

lemma six_lowered:
  "switch_lower builtins_cx (Some 1) (EMultiIf six_branches (EConst VNull)) = Changed six_table"
  "or_membership builtins_cx (Some 1) six_or = Changed six_members"
  "parse_condition 1 six_or = Some six_clauses" "branch_clauses 1 six_branches = six_clauses"
  unfolding six_branches_def six_or_def six_clauses_def six_table_def six_members_def
  by (simp_all add: switch_lower_def or_membership_def try_lower_def MIN_SWITCH_BRANCHES_def MIN_MEMBERSHIP_ENTRIES_def
    contains_block_def is_pure_def scan.simps branch_clauses_def)

lemma six_conditions:
  "exact_exprs P (clause_exprs six_clauses)" "constants_in_width six_clauses" "later_keys_total E six_table"
  "later_keys_total E six_members" "keys_without_blocks six_members"
  by (auto simp: exact_exprs_def clause_exprs_def six_clauses_def constants_in_width_def in_width_def later_keys_total_def
    six_table_def six_members_def keys_without_blocks_def contains_block_def scan.simps)

theorem switch_lower_sound_witness:
  "eval (row_env (\<lambda>_. VInt64 4)) (EMultiIf six_branches (EConst VNull)) (\<lambda>_. VNull, ()) =
   eval (row_env (\<lambda>_. VInt64 4)) six_table (\<lambda>_. VNull, ())"
  by (rule switch_lower_sound [OF row.switch_env_axioms six_lowered(1)]) (simp_all add: six_lowered(4) six_conditions)

theorem or_membership_sound_witness:
  "eval (row_env (\<lambda>_. VInt64 4)) six_or (\<lambda>_. VNull, ()) = eval (row_env (\<lambda>_. VInt64 4)) six_members (\<lambda>_. VNull, ())"
  by (rule or_membership_sound [OF row.switch_env_axioms six_lowered(2,3)]) (simp_all add: six_conditions)

section \<open>The conditions are necessary\<close>

lemma int_equal [simp]:
  "values_equal P (VInt64 m) (VInt64 n) \<longleftrightarrow> m = n" "eq_element P (VInt64 m) (VInt64 n) \<longleftrightarrow> m = n"
  by (auto simp: values_equal_def eq_element_def cmp_some_def cmp_lin_def)

lemma row_env_sel [simp]:
  "env_prim (row_env row) = num_ops" "env_registry (row_env row) = builtins" "env_context (row_env row) = ()"
  "env_field (row_env row) n = Inr (row n)"
  by (simp_all add: row_env_def)

lemma equals_row [simp]: "call_function (row_env row) 1 [VInt64 m, VInt64 n] s = Inr (VBool (m = n), s)"
  by (cases s) (simp add: call_function_def equals_func_def equals_evaluate_def is_null_def)

lemma divide_row:
  "call_function (row_env row) 2 [VInt64 m, VInt64 n] s =
     (if n = 0 then Inl (FunctionFailed DivisionByZero)
      else Inr (if trunc_div m n \<le> 2 ^ 63 - 1 then VInt64 (trunc_div m n) else VBigInt (trunc_div m n), s))"
  by (cases s) (simp add: call_function_def divide_func_def divide_evaluate_def is_null_def widen_numeric_def divide_int_def)

lemma const_opt_eq [simp]: "opt_eq P (EConst v) (EConst w) \<longleftrightarrow> values_equal P v w"
  by (simp add: opt_eq.simps)

lemma source_opt_eq [simp]: "opt_eq P (ESourceField m) (ESourceField n) \<longleftrightarrow> m = n"
  by (simp add: opt_eq.simps)

lemma call_opt_eq [simp]: "opt_eq P (ECall f xs) (ECall g ys) \<longleftrightarrow> f = g \<and> list_all2 (opt_eq P) xs ys"
  by (simp add: opt_eq.simps)

text \<open>Six branches on the pair of a column \<open>a\<close> and the quotient \<open>10 / b\<close>.\<close>

definition quotient_branches :: "(num_payload opt_expr \<times> num_payload opt_expr) list" where
  "quotient_branches =
     map (\<lambda>n. (EAnd (column_test (ESourceField ''a'') n) (column_test (ECall 2 [EConst (VInt64 10), ESourceField ''b'']) 5),
        EConst (VInt64 n))) [1, 2, 3, 4, 5, 6]"

definition zero_row :: "string \<Rightarrow> num_payload val" where
  "zero_row _ = VInt64 0"

text \<open>
  C39: A composite key is evaluated eagerly. On a row with \<open>b = 0\<close> and no matching \<open>a\<close> the
  chain \<open>multiIf(a == 1 && 10 / b == 5, \<dots>)\<close> gives its default, because \<open>&&\<close> never divides;
  lowered to a switch, it fails with a division by zero.
\<close>

theorem composite_key_eager:
  "\<exists>e'. switch_lower builtins_cx (Some 1) (EMultiIf quotient_branches (EConst VNull)) = Changed e' \<and>
     eval (row_env zero_row) (EMultiIf quotient_branches (EConst VNull)) (\<lambda>_. VNull, ()) = Inr (VNull, (\<lambda>_. VNull, ())) \<and>
     eval (row_env zero_row) e' (\<lambda>_. VNull, ()) = Inl (FunctionFailed DivisionByZero)"
proof -
  let ?q = "ECall 2 [EConst (VInt64 10), ESourceField ''b'']" and ?s = "(\<lambda>_. VNull, ()) :: (num_payload, unit) eval_state"
  let ?e = "ESwitch [ESourceField ''a'', ?q] (map (\<lambda>n. ([VInt64 n, VInt64 5], EConst (VInt64 n))) [1, 2, 3, 4, 5, 6]) (EConst VNull)"
  show ?thesis
  proof (intro exI [of _ ?e] conjI)
    show "switch_lower builtins_cx (Some 1) (EMultiIf quotient_branches (EConst VNull)) = Changed ?e"
      unfolding quotient_branches_def
      by (simp add: switch_lower_def try_lower_def MIN_SWITCH_BRANCHES_def contains_block_def is_pure_def scan.simps
        column_test_def is_switchable_const_def as_const_def clause_to_key_def
        switch_key_def key_composite_def canonicalise_def ok_option_def bind_res_def key_eq_def
        opt_eq.simps [of _ "ESourceField f" for f] opt_eq.simps [of _ "ECall f xs" for f xs] divide_func_def)
    show "eval (row_env zero_row) (EMultiIf quotient_branches (EConst VNull)) ?s = Inr (VNull, ?s)"
      unfolding quotient_branches_def by (simp add: column_test_def eval_and_def zero_row_def)
    show "eval (row_env zero_row) ?e ?s = Inl (FunctionFailed DivisionByZero)"
      by (simp add: eval_switch_def zero_row_def divide_row)
  qed
qed

text \<open>Five branches on \<open>x / 2\<close> and a sixth on \<open>x / 2.0\<close>.\<close>

definition halved :: "num_payload val \<Rightarrow> num_payload opt_expr" where
  "halved two = ECall 2 [ESourceField ''x'', EConst two]"

definition mixed_branches :: "(num_payload opt_expr \<times> num_payload opt_expr) list" where
  "mixed_branches =
     map (\<lambda>n. (column_test (halved (VInt64 2)) n, EConst (VInt64 n))) [10, 11, 12, 13, 14] @
     [(column_test (halved (VFloat64 (PNum 2))) 1, EConst (VInt64 1))]"

lemma divide_mixed:
  "call_function (row_env row) 2 [VInt64 m, VFloat64 f] s = Inl (FunctionFailed (TypeMismatch ''divide''))"
  by (simp add: call_function_def divide_func_def divide_evaluate_def is_null_def widen_numeric_def)

lemma mixed_equal: "values_equal num_ops (VFloat64 (PNum 2)) (VInt64 2)"
  by (simp add: values_equal_def compare_eval compare_scalar_def round53_exact cmp_some_def cmp_lin_def)

text \<open>
  C40: Structural equality of expressions compares constants across numeric types, so lowering
  identifies \<open>x / 2\<close> with \<open>x / 2.0\<close>. On an integer column the original chain fails at the
  sixth test, an integer divided by a float; the switch takes that branch.
\<close>

theorem key_exprs_conflated:
  "\<exists>e'. switch_lower builtins_cx (Some 1) (EMultiIf mixed_branches (EConst VNull)) = Changed e' \<and>
     eval (row_env (\<lambda>_. VInt64 2)) (EMultiIf mixed_branches (EConst VNull)) (\<lambda>_. VNull, ()) =
       Inl (FunctionFailed (TypeMismatch ''divide'')) \<and>
     eval (row_env (\<lambda>_. VInt64 2)) e' (\<lambda>_. VNull, ()) = Inr (VInt64 1, (\<lambda>_. VNull, ()))"
proof -
  let ?s = "(\<lambda>_. VNull, ()) :: (num_payload, unit) eval_state"
  let ?e = "ESwitch [halved (VInt64 2)] (map (\<lambda>n. ([VInt64 n], EConst (VInt64 n))) [10, 11, 12, 13, 14, 1]) (EConst VNull)"
  show ?thesis
  proof (intro exI [of _ ?e] conjI)
    show "switch_lower builtins_cx (Some 1) (EMultiIf mixed_branches (EConst VNull)) = Changed ?e"
      unfolding mixed_branches_def
      by (simp add: switch_lower_def try_lower_def MIN_SWITCH_BRANCHES_def contains_block_def is_pure_def scan.simps
        column_test_def halved_def is_switchable_const_def as_const_def clause_to_key_def switch_key_def key_from_value_def
        key_single_def canonicalise_def ok_option_def bind_res_def mixed_equal divide_func_def)
    show "eval (row_env (\<lambda>_. VInt64 2)) (EMultiIf mixed_branches (EConst VNull)) ?s = Inl (FunctionFailed (TypeMismatch ''divide''))"
      unfolding mixed_branches_def by (simp add: column_test_def halved_def divide_row divide_mixed trunc_div_def)
    show "eval (row_env (\<lambda>_. VInt64 2)) ?e ?s = Inr (VInt64 1, ?s)"
      by (simp add: eval_switch_def halved_def divide_row trunc_div_def switch_entry_def switch_key_def key_from_value_def
        key_single_def canonicalise_def ok_option_def bind_res_def)
  qed
qed

end
