(* ===== verification/Arena.thy ===== *)
theory Arena
  imports Prelude
begin

text \<open>
  The arena of \<open>crates/commons/arena\<close>: an append-only vector addressed by 16-bit indices, and
  runs of slots that grow only at its tail. An access out of range panics in the code and is
  \<open>None\<close> here. References and runs stay valid when the arena grows.
\<close>

type_synonym arena_ref = u16

record arena_slice =
  slice_start :: u16
  slice_len :: u16

datatype arena_error = ArenaOverflow | NotAtTail

definition U16_MAX :: nat where
  "U16_MAX = 65535"

definition arena_alloc :: "'a list \<Rightarrow> 'a \<Rightarrow> arena_error + arena_ref \<times> 'a list" where
  "arena_alloc items v =
     (if length items \<ge> U16_MAX then Inl ArenaOverflow else Inr (of_nat (length items), items @ [v]))"

definition open_slice :: "'a list \<Rightarrow> arena_slice" where
  "open_slice items = \<lparr> slice_start = of_nat (length items), slice_len = 0 \<rparr>"

definition slice_push :: "arena_slice \<Rightarrow> 'a \<Rightarrow> 'a list \<Rightarrow> arena_error + arena_slice \<times> 'a list" where
  "slice_push s v items =
     (if unat (slice_start s) + unat (slice_len s) \<noteq> length items then Inl NotAtTail
      else bind_res (arena_alloc items v) (\<lambda>(_, items'). Inr (s\<lparr>slice_len := slice_len s + 1\<rparr>, items')))"

definition arena_get :: "'a list \<Rightarrow> arena_ref \<Rightarrow> 'a option" where
  "arena_get items r = (if unat r < length items then Some (items ! unat r) else None)"

definition arena_get_slice :: "'a list \<Rightarrow> arena_slice \<Rightarrow> 'a list option" where
  "arena_get_slice items s =
     (let start = unat (slice_start s); stop = start + unat (slice_len s)
      in if stop \<le> length items then Some (drop start (take stop items)) else None)"

text \<open>A run of values laid down at the tail: \<open>open_slice\<close> and then one push per value.\<close>

fun push_all :: "arena_slice \<Rightarrow> 'a list \<Rightarrow> 'a list \<Rightarrow> arena_error + arena_slice \<times> 'a list" where
  "push_all s [] items = Inr (s, items)"
| "push_all s (v # vs) items = bind_res (slice_push s v items) (\<lambda>(s', items'). push_all s' vs items')"

definition alloc_run :: "'a list \<Rightarrow> 'a list \<Rightarrow> arena_error + arena_slice \<times> 'a list" where
  "alloc_run vs items = push_all (open_slice items) vs items"

section \<open>Growth\<close>

definition grows :: "'a list \<Rightarrow> 'a list \<Rightarrow> bool" where
  "grows xs ys \<longleftrightarrow> (\<exists>zs. ys = xs @ zs)"

lemma grows_refl [simp, intro]: "grows xs xs"
  by (simp add: grows_def)

lemma grows_append [simp, intro]: "grows xs (xs @ ys)"
  by (simp add: grows_def)

lemma grows_trans: "grows xs ys \<Longrightarrow> grows ys zs \<Longrightarrow> grows xs zs"
  by (auto simp: grows_def)

lemma grows_length: "grows xs ys \<Longrightarrow> length xs \<le> length ys"
  by (auto simp: grows_def)

lemma arena_get_grows: "grows xs ys \<Longrightarrow> arena_get xs r = Some v \<Longrightarrow> arena_get ys r = Some v"
  by (auto simp: grows_def arena_get_def nth_append split: if_splits)

lemma arena_get_slice_grows: "grows xs ys \<Longrightarrow> arena_get_slice xs s = Some vs \<Longrightarrow> arena_get_slice ys s = Some vs"
  by (auto simp: grows_def arena_get_slice_def Let_def split: if_splits)

lemma unat_of_nat_u16: "n \<le> U16_MAX \<Longrightarrow> unat (of_nat n :: u16) = n"
  by (simp add: U16_MAX_def unat_of_nat)

lemma arena_alloc_spec:
  assumes "arena_alloc items v = Inr (r, items')"
  shows "items' = items @ [v]" "unat r = length items" "length items < U16_MAX" "arena_get items' r = Some v" "grows items items'"
proof -
  have *: "items' = items @ [v]" "r = of_nat (length items)" "length items < U16_MAX"
    using assms by (auto simp: arena_alloc_def split: if_splits)
  then show "items' = items @ [v]" "length items < U16_MAX" "grows items items'" by simp_all
  show u: "unat r = length items" using * by (simp add: unat_of_nat_u16)
  show "arena_get items' r = Some v" using u * by (simp add: arena_get_def)
qed

lemma arena_alloc_ok: "length items < U16_MAX \<Longrightarrow> \<exists>r. arena_alloc items v = Inr (r, items @ [v])"
  by (simp add: arena_alloc_def)

lemma slice_push_spec:
  assumes "slice_push s v items = Inr (s', items')" "arena_get_slice items s = Some vs"
  shows "items' = items @ [v]" "arena_get_slice items' s' = Some (vs @ [v])"
    "unat (slice_start s') + unat (slice_len s') = length items'"
proof -
  obtain r where a: "arena_alloc items v = Inr (r, items')" and s': "s' = s\<lparr>slice_len := slice_len s + 1\<rparr>"
    and tail: "unat (slice_start s) + unat (slice_len s) = length items"
    using assms(1) by (auto simp: slice_push_def bind_res_Inr_iff split: if_splits)
  note sp = arena_alloc_spec [OF a]
  show "items' = items @ [v]" by (rule sp(1))
  have "unat (slice_len s) < U16_MAX" using tail sp(3) by linarith
  then have len: "unat (slice_len s + 1) = unat (slice_len s) + 1"
    by (subst unat_add_lem [THEN iffD1]) (simp_all add: U16_MAX_def)
  then show "unat (slice_start s') + unat (slice_len s') = length items'" using s' tail sp(1) by simp
  have "vs = drop (unat (slice_start s)) items" using assms(2) tail by (auto simp: arena_get_slice_def Let_def)
  then show "arena_get_slice items' s' = Some (vs @ [v])"
    using s' tail sp(1) len by (simp add: arena_get_slice_def Let_def)
qed

lemma slice_push_ok:
  "unat (slice_start s) + unat (slice_len s) = length items \<Longrightarrow> length items < U16_MAX \<Longrightarrow>
   \<exists>s'. slice_push s v items = Inr (s', items @ [v])"
  by (simp add: slice_push_def arena_alloc_def)

lemma push_all_spec:
  "push_all s vs items = Inr (s', items') \<Longrightarrow> arena_get_slice items s = Some us \<Longrightarrow>
   items' = items @ vs \<and> arena_get_slice items' s' = Some (us @ vs)"
proof (induction vs arbitrary: s items us)
  case (Cons v vs)
  obtain s1 items1 where p: "slice_push s v items = Inr (s1, items1)" "push_all s1 vs items1 = Inr (s', items')"
    using Cons.prems(1) by (auto simp: bind_res_Inr_iff)
  note sp = slice_push_spec [OF p(1) Cons.prems(2)]
  show ?case using Cons.IH [OF p(2) sp(2)] sp(1) by auto
qed simp

lemma open_slice_empty: "length items \<le> U16_MAX \<Longrightarrow> arena_get_slice items (open_slice items) = Some []"
  by (simp add: arena_get_slice_def open_slice_def unat_of_nat_u16)

lemma alloc_run_spec:
  "alloc_run vs items = Inr (s, items') \<Longrightarrow> length items \<le> U16_MAX \<Longrightarrow>
   items' = items @ vs \<and> arena_get_slice items' s = Some vs"
  unfolding alloc_run_def using push_all_spec [OF _ open_slice_empty] by fastforce

lemma push_all_ok:
  "arena_get_slice items s = Some us \<Longrightarrow> unat (slice_start s) + unat (slice_len s) = length items \<Longrightarrow>
   length items + length vs \<le> U16_MAX \<Longrightarrow> \<exists>s'. push_all s vs items = Inr (s', items @ vs)"
proof (induction vs arbitrary: s items us)
  case (Cons v vs)
  obtain s1 where p: "slice_push s v items = Inr (s1, items @ [v])"
    using slice_push_ok [OF Cons.prems(2)] Cons.prems(3) by auto
  note sp = slice_push_spec [OF p Cons.prems(1)]
  obtain s' where "push_all s1 vs (items @ [v]) = Inr (s', (items @ [v]) @ vs)"
    using Cons.IH [OF sp(2,3)] Cons.prems(3) by auto
  with p show ?case by simp
qed simp

lemma alloc_run_ok: "length items + length vs \<le> U16_MAX \<Longrightarrow> \<exists>s. alloc_run vs items = Inr (s, items @ vs)"
  unfolding alloc_run_def
  by (rule push_all_ok [OF open_slice_empty]) (simp_all add: open_slice_def unat_of_nat_u16)

lemma alloc_run_bound: "alloc_run vs items = Inr (s, items') \<Longrightarrow> length items \<le> U16_MAX \<Longrightarrow> length items' \<le> U16_MAX"
proof -
  have "push_all s vs items = Inr (s', items') \<Longrightarrow> length items \<le> U16_MAX \<Longrightarrow> length items' \<le> U16_MAX" for s s' :: arena_slice
    by (induction vs arbitrary: s items)
      (fastforce simp: slice_push_def bind_res_Inr_iff arena_alloc_def split: if_splits)+
  then show "alloc_run vs items = Inr (s, items') \<Longrightarrow> length items \<le> U16_MAX \<Longrightarrow> ?thesis"
    unfolding alloc_run_def by blast
qed

end
