(* ===== verification/OptCompact.thy ===== *)
theory OptCompact
  imports OptDriver Arena
begin

text \<open>
  Compaction (\<open>engines/compact.rs\<close>) of the tree into the arena program
  (\<open>model/program.rs\<close>), and the evaluator of arena programs (\<open>engines/evaluator.rs\<close>).
  Nodes, argument runs and object-key runs live in 16-bit arenas; constants and key names
  are interned. Hash maps are association lists searched with the key equality the map
  uses. \<open>RegisterTake\<close> is produced by the move annotator only.
\<close>

section \<open>The arena program\<close>

type_synonym node_ref = arena_ref

datatype compact_yield = CYieldIdentity | CYieldConst u16

datatype opt_node =
    NConst u16
  | NRegister u16
  | NRegisterTake u16
  | NSourceField string
  | NField node_ref
  | NFields fields_selector
  | NCall func_ref arena_slice
  | NIf node_ref node_ref node_ref
  | NMultiIf arena_slice node_ref
  | NIfNull node_ref node_ref
  | NNullIf node_ref node_ref
  | NAnd node_ref node_ref
  | NOr node_ref node_ref
  | NInterpolation arena_slice
  | NObject arena_slice arena_slice
  | NArray arena_slice
  | NSwitch arena_slice u16 node_ref
  | NTypeAssert node_ref value_class compact_yield
  | NBind u16 node_ref node_ref

record 'x switch_table =
  table_map :: "('x key \<times> node_ref) list"
  table_key_arity :: nat

text \<open>What the compactor fills and the program keeps.\<close>

record 'x store =
  st_nodes :: "opt_node list"
  st_args :: "node_ref list"
  st_key_runs :: "u16 list"
  st_key_pool :: "string list"
  st_consts :: "'x val list"
  st_tables :: "'x switch_table list"

record 'x compactor = "'x store" +
  key_dedup :: "string \<rightharpoonup> u16"
  const_dedup :: "('x val \<times> u16) list"

record 'x compact_program = "'x store" +
  cp_register_count :: u16
  cp_statements :: "(u16 \<times> node_ref) list"
  cp_result :: node_ref

definition compactor_create :: "'x compactor" where
  "compactor_create =
     \<lparr> st_nodes = [], st_args = [], st_key_runs = [], st_key_pool = [], st_consts = [], st_tables = [],
       key_dedup = Map.empty, const_dedup = [] \<rparr>"

section \<open>Interning\<close>

text \<open>\<open>std::mem::discriminant\<close>.\<close>

definition discriminant :: "'x val \<Rightarrow> nat" where
  "discriminant v =
     (case v of
        VNull \<Rightarrow> 0 | VBool _ \<Rightarrow> 1 | VInt8 _ \<Rightarrow> 2 | VInt16 _ \<Rightarrow> 3 | VInt32 _ \<Rightarrow> 4 | VInt64 _ \<Rightarrow> 5
      | VUInt8 _ \<Rightarrow> 6 | VUInt16 _ \<Rightarrow> 7 | VUInt32 _ \<Rightarrow> 8 | VUInt64 _ \<Rightarrow> 9 | VFloat32 _ \<Rightarrow> 10 | VFloat64 _ \<Rightarrow> 11
      | VBigInt _ \<Rightarrow> 12 | VDecimal _ \<Rightarrow> 13 | VText _ \<Rightarrow> 14 | VBytes _ \<Rightarrow> 15 | VDate _ \<Rightarrow> 16 | VTimestamp _ \<Rightarrow> 17
      | VUuid _ \<Rightarrow> 18 | VIpv4 _ \<Rightarrow> 19 | VIpv6 _ \<Rightarrow> 20 | VJson _ \<Rightarrow> 21 | VObject _ \<Rightarrow> 22 | VArray _ \<Rightarrow> 23
      | VInterval _ \<Rightarrow> 24 | VCustom _ \<Rightarrow> 25)"

definition exact_dedup_key :: "'x prim_ops \<Rightarrow> 'x val \<Rightarrow> (nat \<times> 'x key) option" where
  "exact_dedup_key P v =
     (case v of
        VFloat32 _ \<Rightarrow> None
      | VFloat64 _ \<Rightarrow> None
      | VDecimal _ \<Rightarrow> None
      | _ \<Rightarrow> map_option (Pair (discriminant v)) (key_from_value P v))"

text \<open>Whether two constants have the same deduplication key.\<close>

definition same_dedup_key :: "'x prim_ops \<Rightarrow> 'x val \<Rightarrow> 'x val \<Rightarrow> bool" where
  "same_dedup_key P v w \<longleftrightarrow>
     (case (exact_dedup_key P v, exact_dedup_key P w) of
        (Some (d, k), Some (e, l)) \<Rightarrow> d = e \<and> key_eq P k l
      | _ \<Rightarrow> False)"

definition push_const :: "'x val \<Rightarrow> 'x compactor \<Rightarrow> arena_error + u16 \<times> 'x compactor" where
  "push_const v c =
     (if length (st_consts c) > U16_MAX then Inl ArenaOverflow
      else Inr (of_nat (length (st_consts c)), c\<lparr>st_consts := st_consts c @ [v]\<rparr>))"

definition intern_const :: "'x prim_ops \<Rightarrow> 'x val \<Rightarrow> 'x compactor \<Rightarrow> arena_error + u16 \<times> 'x compactor" where
  "intern_const P v c =
     (if exact_dedup_key P v = None then push_const v c
      else case find (\<lambda>p. same_dedup_key P (fst p) v) (const_dedup c) of
        Some (_, ix) \<Rightarrow> Inr (ix, c)
      | None \<Rightarrow>
          bind_res (push_const v c) (\<lambda>(ix, c'). Inr (ix, c'\<lparr>const_dedup := const_dedup c' @ [(v, ix)]\<rparr>)))"

definition intern_key :: "string \<Rightarrow> 'x compactor \<Rightarrow> arena_error + u16 \<times> 'x compactor" where
  "intern_key key c =
     (case key_dedup c key of
        Some ix \<Rightarrow> Inr (ix, c)
      | None \<Rightarrow>
          if length (st_key_pool c) > U16_MAX then Inl ArenaOverflow
          else (let ix = of_nat (length (st_key_pool c))
                in Inr (ix, c\<lparr>st_key_pool := st_key_pool c @ [key], key_dedup := (key_dedup c)(key \<mapsto> ix)\<rparr>)))"

definition intern_keys :: "string list \<Rightarrow> 'x compactor \<Rightarrow> arena_error + arena_slice \<times> 'x compactor" where
  "intern_keys keys c =
     bind_res (eval_args intern_key keys c) (\<lambda>(ids, c1).
       bind_res (alloc_run ids (st_key_runs c1)) (\<lambda>(s, runs). Inr (s, c1\<lparr>st_key_runs := runs\<rparr>)))"

definition alloc_node :: "opt_node \<Rightarrow> 'x compactor \<Rightarrow> arena_error + node_ref \<times> 'x compactor" where
  "alloc_node n c = bind_res (arena_alloc (st_nodes c) n) (\<lambda>(r, nodes). Inr (r, c\<lparr>st_nodes := nodes\<rparr>))"

section \<open>Compaction\<close>

definition compact_run ::
  "('x opt_expr \<Rightarrow> 'x compactor \<Rightarrow> arena_error + node_ref \<times> 'x compactor) \<Rightarrow> 'x opt_expr list \<Rightarrow> 'x compactor \<Rightarrow>
   arena_error + arena_slice \<times> 'x compactor" where
  "compact_run f items c =
     bind_res (eval_args f items c) (\<lambda>(refs, c1).
       bind_res (alloc_run refs (st_args c1)) (\<lambda>(s, args). Inr (s, c1\<lparr>st_args := args\<rparr>)))"

text \<open>The bindings of a block, from the last to the first.\<close>

fun compact_binds ::
  "('x opt_expr \<Rightarrow> 'x compactor \<Rightarrow> arena_error + node_ref \<times> 'x compactor) \<Rightarrow> (u16 \<times> 'x opt_expr) list \<Rightarrow>
   'x compactor \<Rightarrow> node_ref \<Rightarrow> arena_error + node_ref \<times> 'x compactor" where
  "compact_binds f [] c body = Inr (body, c)"
| "compact_binds f ((register, e) # ss) c body =
     bind_res (f e c) (\<lambda>(v, c1). bind_res (alloc_node (NBind register v body) c1) (\<lambda>(body', c2). compact_binds f ss c2 body'))"

text \<open>\<open>map.entry(key).or_insert(branch_ref)\<close> over the entries in order.\<close>

definition or_insert_all :: "'x prim_ops \<Rightarrow> ('x key \<times> node_ref) list \<Rightarrow> ('x key \<times> node_ref) list" where
  "or_insert_all P entries =
     foldl (\<lambda>m p. if list_ex (\<lambda>q. key_eq P (fst q) (fst p)) m then m else m @ [p]) [] entries"

definition push_table :: "'x switch_table \<Rightarrow> 'x compactor \<Rightarrow> arena_error + u16 \<times> 'x compactor" where
  "push_table t c =
     (if length (st_tables c) > U16_MAX then Inl ArenaOverflow
      else Inr (of_nat (length (st_tables c)), c\<lparr>st_tables := st_tables c @ [t]\<rparr>))"

definition compact_on_present :: "'x prim_ops \<Rightarrow> 'x assert_yield \<Rightarrow> 'x compactor \<Rightarrow> arena_error + compact_yield \<times> 'x compactor" where
  "compact_on_present P y c =
     (case y of
        YieldIdentity \<Rightarrow> Inr (CYieldIdentity, c)
      | YieldConst v \<Rightarrow> bind_res (intern_const P v c) (\<lambda>(ix, c'). Inr (CYieldConst ix, c')))"

lemma compact_run_cong [fundef_cong]:
  "items = items' \<Longrightarrow> c = c' \<Longrightarrow> (\<And>e t. e \<in> set items' \<Longrightarrow> f e t = g e t) \<Longrightarrow> compact_run f items c = compact_run g items' c'"
  unfolding compact_run_def by (simp add: eval_args_cong [of items' items' c' c' f g])

lemma compact_binds_cong [fundef_cong]:
  assumes "ss = ss'" "body = body'" "c = c'" "\<And>e t. e \<in> snd ` set ss' \<Longrightarrow> f e t = g e t"
  shows "compact_binds f ss c body = compact_binds g ss' c' body'"
proof -
  have "\<forall>(x, e) \<in> set ss'. f e = g e \<Longrightarrow> compact_binds f ss' t b = compact_binds g ss' t b" for b t
  proof (induction ss' arbitrary: b t)
    case (Cons p ss)
    obtain x e where p: "p = (x, e)" by fastforce
    have IH: "compact_binds f ss = compact_binds g ss" using Cons by auto
    have "f e = g e" using Cons.prems p by auto
    then show ?case unfolding p compact_binds.simps IH by simp
  qed simp
  moreover have "\<forall>(x, e) \<in> set ss'. f e = g e" using assms(4) by force
  ultimately show ?thesis using assms(1-3) by simp
qed

function compact_expr :: "'x prim_ops \<Rightarrow> 'x opt_expr \<Rightarrow> 'x compactor \<Rightarrow> arena_error + node_ref \<times> 'x compactor" where
  "compact_expr P (EConst v) c = bind_res (intern_const P v c) (\<lambda>(ix, c1). alloc_node (NConst ix) c1)"
| "compact_expr P (ERegister r) c = alloc_node (NRegister r) c"
| "compact_expr P (ESourceField n) c = alloc_node (NSourceField n) c"
| "compact_expr P (EField e) c = bind_res (compact_expr P e c) (\<lambda>(i, c1). alloc_node (NField i) c1)"
| "compact_expr P (EFields sel) c = alloc_node (NFields sel) c"
| "compact_expr P (ECall g args) c = bind_res (compact_run (compact_expr P) args c) (\<lambda>(s, c1). alloc_node (NCall g s) c1)"
| "compact_expr P (EIf a t e) c =
     bind_res (compact_expr P a c) (\<lambda>(i, c1). bind_res (compact_expr P t c1) (\<lambda>(j, c2).
       bind_res (compact_expr P e c2) (\<lambda>(k, c3). alloc_node (NIf i j k) c3)))"
| "compact_expr P (EMultiIf bs d) c =
     bind_res (compact_run (compact_expr P) (concat (map (\<lambda>(a, v). [a, v]) bs)) c) (\<lambda>(s, c1).
       bind_res (compact_expr P d c1) (\<lambda>(k, c2). alloc_node (NMultiIf s k) c2))"
| "compact_expr P (EIfNull a b) c =
     bind_res (compact_expr P a c) (\<lambda>(i, c1). bind_res (compact_expr P b c1) (\<lambda>(j, c2). alloc_node (NIfNull i j) c2))"
| "compact_expr P (ENullIf a b) c =
     bind_res (compact_expr P a c) (\<lambda>(i, c1). bind_res (compact_expr P b c1) (\<lambda>(j, c2). alloc_node (NNullIf i j) c2))"
| "compact_expr P (EAnd a b) c =
     bind_res (compact_expr P a c) (\<lambda>(i, c1). bind_res (compact_expr P b c1) (\<lambda>(j, c2). alloc_node (NAnd i j) c2))"
| "compact_expr P (EOr a b) c =
     bind_res (compact_expr P a c) (\<lambda>(i, c1). bind_res (compact_expr P b c1) (\<lambda>(j, c2). alloc_node (NOr i j) c2))"
| "compact_expr P (EInterpolation es) c =
     bind_res (compact_run (compact_expr P) es c) (\<lambda>(s, c1). alloc_node (NInterpolation s) c1)"
| "compact_expr P (EArray es) c = bind_res (compact_run (compact_expr P) es c) (\<lambda>(s, c1). alloc_node (NArray s) c1)"
| "compact_expr P (EObject es) c =
     bind_res (compact_run (compact_expr P) (map snd es) c) (\<lambda>(s, c1).
       bind_res (intern_keys (map fst es) c1) (\<lambda>(ks, c2). alloc_node (NObject ks s) c2))"
| "compact_expr P (ESwitch ins table d) c =
     bind_res (eval_args (compact_expr P) (map snd table) c) (\<lambda>(refs, c1).
       bind_res (compact_expr P d c1) (\<lambda>(k, c2).
         bind_res (compact_run (compact_expr P) ins c2) (\<lambda>(s, c3).
           bind_res (push_table \<lparr> table_map = or_insert_all P (zip (map fst table) refs), table_key_arity = length ins mod 256 \<rparr> c3)
             (\<lambda>(t, c4). alloc_node (NSwitch s t k) c4))))"
| "compact_expr P (ETypeAssert e cls y) c =
     bind_res (compact_expr P e c) (\<lambda>(i, c1).
       bind_res (compact_on_present P y c1) (\<lambda>(cy, c2). alloc_node (NTypeAssert i cls cy) c2))"
| "compact_expr P (EBlock ss r) c =
     bind_res (compact_expr P r c) (\<lambda>(body, c1). compact_binds (compact_expr P) (rev ss) c1 body)"
  by pat_completeness auto
termination
  by (relation "measure (\<lambda>(P, e, c). size e)") (simp, (simp only: in_measure prod.case, rule children_size, force)+)

text \<open>\<open>Compactor::compact\<close>.\<close>

definition compact :: "'x prim_ops \<Rightarrow> 'x opt_program \<Rightarrow> arena_error + 'x compact_program" where
  "compact P p =
     bind_res (eval_args (compact_expr P) (map snd (prog_statements p)) compactor_create) (\<lambda>(refs, c1).
       bind_res (compact_expr P (prog_result p) c1) (\<lambda>(result, c2).
         Inr \<lparr> st_nodes = st_nodes c2, st_args = st_args c2, st_key_runs = st_key_runs c2, st_key_pool = st_key_pool c2,
           st_consts = st_consts c2, st_tables = st_tables c2, cp_register_count = prog_register_count p,
           cp_statements = zip (map fst (prog_statements p)) refs, cp_result = result \<rparr>))"

end
