(* ===== verification/CompactLayout.thy ===== *)
theory CompactLayout
  imports OptCompact
begin

text \<open>
  Where compaction puts a tree: its nodes fill one interval of the node arena, as long as the
  tree has arena nodes, with the root last; the subtrees fill disjoint intervals before it.
  So no node is shared, which the move annotator relies on.
\<close>

section \<open>The arena nodes of a tree\<close>

function arena_size :: "'x opt_expr \<Rightarrow> nat" where
  "arena_size e = (case e of EBlock ss _ \<Rightarrow> length ss | _ \<Rightarrow> 1) + sum_list (map arena_size (children e))"
  by pat_completeness auto
termination
  by (relation "measure size") (auto simp: children_size)

declare arena_size.simps [simp del]

lemma arena_size_simps [simp]:
  "arena_size (EConst v) = 1" "arena_size (ERegister x) = 1" "arena_size (ESourceField f) = 1" "arena_size (EFields sel) = 1"
  "arena_size (EField e) = Suc (arena_size e)" "arena_size (ECall g es) = Suc (sum_list (map arena_size es))"
  "arena_size (EIf a t e) = Suc (arena_size a + arena_size t + arena_size e)"
  "arena_size (EMultiIf bs d) = Suc (sum_list (map arena_size (concat (map (\<lambda>(a, v). [a, v]) bs))) + arena_size d)"
  "arena_size (EIfNull a b) = Suc (arena_size a + arena_size b)" "arena_size (ENullIf a b) = Suc (arena_size a + arena_size b)"
  "arena_size (EAnd a b) = Suc (arena_size a + arena_size b)" "arena_size (EOr a b) = Suc (arena_size a + arena_size b)"
  "arena_size (EInterpolation es) = Suc (sum_list (map arena_size es))" "arena_size (EArray es) = Suc (sum_list (map arena_size es))"
  "arena_size (EObject fs) = Suc (sum_list (map arena_size (map snd fs)))"
  "arena_size (ESwitch ins table d) =
     Suc (sum_list (map arena_size (map snd table)) + arena_size d + sum_list (map arena_size ins))"
  "arena_size (ETypeAssert e cls y) = Suc (arena_size e)"
  "arena_size (EBlock [] r) = arena_size r" "arena_size (EBlock (q # ss) r) = Suc (arena_size (snd q) + arena_size (EBlock ss r))"
  by ((subst arena_size.simps, simp)+)

section \<open>The nodes a compaction allocates\<close>

text \<open>From a node count of \<open>k\<close>, within the arena, to one of \<open>k + n\<close>, still within it.\<close>

definition allots :: "nat \<Rightarrow> 'x compactor \<Rightarrow> 'x compactor \<Rightarrow> bool" where
  "allots n c c' \<longleftrightarrow>
     length (st_nodes c') = length (st_nodes c) + n \<and> (length (st_nodes c) \<le> U16_MAX \<longrightarrow> length (st_nodes c') \<le> U16_MAX)"

lemma allots_trans: "allots m c c1 \<Longrightarrow> allots n c1 c' \<Longrightarrow> allots (m + n) c c'"
  by (auto simp: allots_def)

lemma allots_same: "st_nodes c' = st_nodes c \<Longrightarrow> allots 0 c c'"
  by (simp add: allots_def)

lemma alloc_node_allots: "alloc_node node c = Inr (n, c') \<Longrightarrow> allots 1 c c'"
  by (auto simp: alloc_node_def arena_alloc_def allots_def bind_res_Inr_iff split: if_splits)

lemma eval_args_allots:
  "(\<And>e c x c'. e \<in> set es \<Longrightarrow> f e c = Inr (x, c') \<Longrightarrow> allots (N e) c c') \<Longrightarrow> eval_args f es c = Inr (xs, c') \<Longrightarrow>
   allots (sum_list (map N es)) c c'"
proof (induction es arbitrary: c xs)
  case (Cons e es)
  then obtain x c1 xs' where 1: "f e c = Inr (x, c1)" "eval_args f es c1 = Inr (xs', c')" by (auto simp: bind_res_Inr_iff)
  have "allots (N e) c c1" using Cons.prems(1) 1(1) by simp
  moreover have "allots (sum_list (map N es)) c1 c'" by (rule Cons.IH [OF _ 1(2)]) (simp add: Cons.prems(1))
  ultimately show ?case using allots_trans by fastforce
qed (simp add: allots_def)

lemma compact_run_allots:
  assumes "compact_run f es c = Inr (s, c')" "\<And>e c x c'. e \<in> set es \<Longrightarrow> f e c = Inr (x, c') \<Longrightarrow> allots (N e) c c'"
  shows "allots (sum_list (map N es)) c c'"
proof -
  obtain refs c1 args where e: "eval_args f es c = Inr (refs, c1)" and c': "c' = c1\<lparr>st_args := args\<rparr>"
    using assms(1) by (auto simp: compact_run_def bind_res_Inr_iff)
  have "allots (sum_list (map N es)) c c1" by (rule eval_args_allots [OF assms(2) e])
  then show ?thesis by (auto simp: c' allots_def)
qed

lemma compact_binds_allots:
  "(\<And>e c x c'. e \<in> snd ` set ss \<Longrightarrow> f e c = Inr (x, c') \<Longrightarrow> allots (N e) c c') \<Longrightarrow> compact_binds f ss c body = Inr (n, c') \<Longrightarrow>
   allots (length ss + sum_list (map N (map snd ss))) c c'"
proof (induction ss arbitrary: c body)
  case (Cons p ss)
  obtain x e where p: "p = (x, e)" by fastforce
  then obtain v c1 b c2 where 1: "f e c = Inr (v, c1)" "alloc_node (NBind x v body) c1 = Inr (b, c2)" "compact_binds f ss c2 b = Inr (n, c')"
    using Cons.prems(2) by (auto simp: bind_res_Inr_iff)
  have "allots (N e) c c1" using Cons.prems(1) 1(1) p by simp
  moreover have "allots (length ss + sum_list (map N (map snd ss))) c2 c'" by (rule Cons.IH [OF _ 1(3)]) (simp add: Cons.prems(1))
  ultimately have "allots (N e + 1 + (length ss + sum_list (map N (map snd ss)))) c c'"
    using alloc_node_allots [OF 1(2)] allots_trans by blast
  then show ?case using p by (simp add: add.assoc add.left_commute)
qed (simp add: allots_def)

lemma intern_const_nodes: "intern_const P v c = Inr (i, c') \<Longrightarrow> allots 0 c c'"
  by (intro allots_same) (auto simp: intern_const_def push_const_def bind_res_Inr_iff split: if_splits option.splits)

lemma compact_on_present_nodes: "compact_on_present P y c = Inr (z, c') \<Longrightarrow> allots 0 c c'"
  by (cases y) (auto simp: compact_on_present_def bind_res_Inr_iff allots_same dest: intern_const_nodes)

lemma push_table_nodes: "push_table t c = Inr (i, c') \<Longrightarrow> allots 0 c c'"
  by (intro allots_same) (auto simp: push_table_def split: if_splits)

lemma intern_keys_nodes: "intern_keys ks c = Inr (s, c') \<Longrightarrow> allots 0 c c'"
proof -
  assume "intern_keys ks c = Inr (s, c')"
  then obtain ids c1 runs where e: "eval_args intern_key ks c = Inr (ids, c1)" and c': "c' = c1\<lparr>st_key_runs := runs\<rparr>"
    by (auto simp: intern_keys_def bind_res_Inr_iff)
  have "allots (sum_list (map (\<lambda>_. 0) ks)) c c1"
    by (rule eval_args_allots [OF _ e], rule allots_same) (auto simp: intern_key_def Let_def split: option.splits if_splits)
  then show ?thesis by (simp add: c' allots_def)
qed

lemmas allots_facts = alloc_node_allots intern_const_nodes compact_on_present_nodes push_table_nodes intern_keys_nodes

lemma compact_expr_allots: "compact_expr P e c = Inr (n, c') \<Longrightarrow> allots (arena_size e) c c'"
proof (induction e arbitrary: c n c' rule: measure_induct_rule [where f = size])
  case (less e)
  have IH: "allots (arena_size x) d d'" if "compact_expr P x d = Inr (m, d')" "x \<in> set (children e)" for x d m d'
    using less.IH [OF children_size [OF that(2)] that(1)] .
  have run: "allots (sum_list (map arena_size es)) d d'"
    if "compact_run (compact_expr P) es d = Inr (s, d')" "set es \<subseteq> set (children e)" for es d s d'
    by (rule compact_run_allots [OF that(1) IH]) (use that(2) in auto)
  have args: "allots (sum_list (map arena_size es)) d d'"
    if "eval_args (compact_expr P) es d = Inr (xs, d')" "set es \<subseteq> set (children e)" for es d xs d'
    by (rule eval_args_allots [OF IH that(1)]) (use that(2) in auto)
  have binds: "allots (length ss + sum_list (map arena_size (map snd ss))) d d'"
    if "compact_binds (compact_expr P) ss d b = Inr (m, d')" "snd ` set ss \<subseteq> set (children e)" for ss d b m d'
    by (rule compact_binds_allots [OF IH that(1)]) (use that(2) in auto)
  have ar: "arena_size e = (case e of EBlock ss _ \<Rightarrow> length ss | _ \<Rightarrow> 1) + sum_list (map arena_size (children e))"
    by (rule arena_size.simps)
  show ?case
    unfolding ar
  proof (cases e)
    case (EBlock ss r)
    then obtain b c1 where "compact_expr P r c = Inr (b, c1)" "compact_binds (compact_expr P) (rev ss) c1 b = Inr (n, c')"
      using less.prems by (auto simp: bind_res_Inr_iff)
    then have "allots (arena_size r + (length (rev ss) + sum_list (map arena_size (map snd (rev ss))))) c c'"
      using EBlock by (intro allots_trans [OF IH binds]) auto
    moreover have "arena_size r + (length (rev ss) + sum_list (map arena_size (map snd (rev ss)))) =
        length ss + sum_list (map arena_size (children (EBlock ss r)))"
      by (simp add: rev_map [symmetric] sum_list_rev)
    ultimately have "allots (length ss + sum_list (map arena_size (children e))) c c'" by (simp only: EBlock)
    then show "allots ((case e of EBlock ss _ \<Rightarrow> length ss | _ \<Rightarrow> 1) + sum_list (map arena_size (children e))) c c'"
      by (simp only: EBlock opt_expr.case)
  qed (use less.prems in \<open>auto simp: bind_res_Inr_iff allots_def dest!: allots_facts IH run args\<close>)
qed

section \<open>Intervals\<close>

text \<open>The indices of the nodes of the tree \<open>e\<close> whose root is \<open>n\<close>.\<close>

definition seg :: "node_ref \<Rightarrow> 'x opt_expr \<Rightarrow> nat set" where
  "seg n e = {unat n + 1 - arena_size e ..< unat n + 1}"

text \<open>The subtrees lie in disjoint intervals before the root.\<close>

definition tiled :: "node_ref \<Rightarrow> 'x opt_expr \<Rightarrow> (node_ref \<times> 'x opt_expr) list \<Rightarrow> bool" where
  "tiled n e qs \<longleftrightarrow>
     list_all (\<lambda>q. seg (fst q) (snd q) \<subseteq> {unat n + 1 - arena_size e ..< unat n}) qs \<and>
     sorted_wrt (\<lambda>q q'. seg (fst q) (snd q) \<inter> seg (fst q') (snd q') = {}) qs"

text \<open>The trees laid down between two states of the compactor.\<close>

definition spans :: "'x compactor \<Rightarrow> 'x compactor \<Rightarrow> (node_ref \<times> 'x opt_expr) list \<Rightarrow> bool" where
  "spans c c' qs \<longleftrightarrow>
     length (st_nodes c) \<le> length (st_nodes c') \<and>
     list_all (\<lambda>q. seg (fst q) (snd q) \<subseteq> {length (st_nodes c) ..< length (st_nodes c')}) qs \<and>
     sorted_wrt (\<lambda>q q'. seg (fst q) (snd q) \<inter> seg (fst q') (snd q') = {}) qs"

lemma spans_nil: "length (st_nodes c) \<le> length (st_nodes c') \<Longrightarrow> spans c c' []"
  by (simp add: spans_def)

lemma spans_append: "spans c c1 qs \<Longrightarrow> spans c1 c' qs' \<Longrightarrow> spans c c' (qs @ qs')"
  unfolding spans_def by (fastforce simp: list_all_iff sorted_wrt_append)

lemma spans_cong: "spans c c' qs \<Longrightarrow> st_nodes c' = st_nodes c'' \<Longrightarrow> spans c c'' qs"
  by (simp add: spans_def)

lemma allots_spans: "allots 0 c' c'' \<Longrightarrow> spans c c' qs \<Longrightarrow> spans c c'' qs"
  by (simp add: spans_def allots_def)

section \<open>The root is allocated last\<close>

lemma alloc_node_pos:
  assumes "alloc_node node c = Inr (n, c')"
  shows "unat n = length (st_nodes c)" "length (st_nodes c') = unat n + 1"
proof -
  obtain nodes where a: "arena_alloc (st_nodes c) node = Inr (n, nodes)" and c': "c' = c\<lparr>st_nodes := nodes\<rparr>"
    using assms by (auto simp: alloc_node_def bind_res_Inr_iff)
  show "unat n = length (st_nodes c)" "length (st_nodes c') = unat n + 1"
    using arena_alloc_spec [OF a] by (simp_all add: c')
qed

lemma compact_binds_root:
  "compact_binds f us c body = Inr (n, c') \<Longrightarrow> unat body + 1 = length (st_nodes c) \<Longrightarrow> unat n + 1 = length (st_nodes c')"
proof (induction us arbitrary: c body)
  case (Cons p us)
  obtain x e where p: "p = (x, e)" by fastforce
  then obtain v c1 b c2 where "alloc_node (NBind x v body) c1 = Inr (b, c2)" "compact_binds f us c2 b = Inr (n, c')"
    using Cons.prems(1) by (auto simp: bind_res_Inr_iff)
  then show ?case using Cons.IH alloc_node_pos(2) [of "NBind x v body" c1 b c2] by auto
qed simp

lemma compact_expr_root: "compact_expr P e c = Inr (n, c') \<Longrightarrow> unat n + 1 = length (st_nodes c')"
proof (induction e arbitrary: c n c' rule: measure_induct_rule [where f = size])
  case (less e)
  show ?case
  proof (cases e)
    case (EBlock ss r)
    then obtain b c1 where "compact_expr P r c = Inr (b, c1)" "compact_binds (compact_expr P) (rev ss) c1 b = Inr (n, c')"
      using less.prems by (auto simp: bind_res_Inr_iff)
    then show ?thesis using less.IH [of r] EBlock compact_binds_root by (metis children.simps(14) children_size in_set_conv_decomp)
  qed (use less.prems in \<open>auto simp: bind_res_Inr_iff dest!: alloc_node_pos\<close>)
qed

lemma compact_expr_spans:
  assumes "compact_expr P e c = Inr (n, c')"
  shows "spans c c' [(n, e)]"
proof -
  have "length (st_nodes c') = length (st_nodes c) + arena_size e" "unat n + 1 = length (st_nodes c')"
    using compact_expr_allots [OF assms] compact_expr_root [OF assms] by (simp_all add: allots_def)
  then show ?thesis by (simp add: spans_def seg_def)
qed

lemma eval_args_spans:
  "eval_args (compact_expr P) es c = Inr (refs, c') \<Longrightarrow> spans c c' (zip refs es)"
proof (induction es arbitrary: c refs)
  case (Cons e es)
  then obtain n c1 refs' where "compact_expr P e c = Inr (n, c1)" "eval_args (compact_expr P) es c1 = Inr (refs', c')" "refs = n # refs'"
    by (auto simp: bind_res_Inr_iff)
  then show ?case using spans_append [OF compact_expr_spans [of P e c n c1] Cons.IH] by simp
qed (simp add: spans_nil)

lemma spans_tiled:
  assumes "compact_expr P e c = Inr (n, c')" "alloc_node node c1 = Inr (n, c')" "spans c c1 qs"
  shows "tiled n e qs"
proof -
  have "length (st_nodes c') = length (st_nodes c) + arena_size e" using compact_expr_allots [OF assms(1)] by (simp add: allots_def)
  then have "unat n + 1 - arena_size e = length (st_nodes c)" "unat n = length (st_nodes c1)"
    using alloc_node_pos [OF assms(2)] by simp_all
  then show ?thesis using assms(3) by (simp add: spans_def tiled_def)
qed

lemma tiled_bind:
  assumes "unat body + 1 = length (st_nodes c)" "compact_expr P e c = Inr (v, c1)" "alloc_node (NBind x v body) c1 = Inr (n, c')"
  shows "tiled n (EBlock ((x, e) # ss) r) [(body, EBlock ss r), (v, e)]"
proof -
  have "length (st_nodes c1) = length (st_nodes c) + arena_size e" "unat v + 1 = length (st_nodes c1)"
    using compact_expr_allots [OF assms(2)] compact_expr_root [OF assms(2)] by (simp_all add: allots_def)
  then show ?thesis using assms(1) alloc_node_pos(1) [OF assms(3)] by (auto simp: tiled_def seg_def)
qed

end
