(* ===== verification/ArenaEval.thy ===== *)
theory ArenaEval
  imports CompactLayout
begin

text \<open>
  The evaluator of arena programs (\<open>ProgramEvaluator\<close>) and its agreement with the meaning of
  trees: a node that represents a tree evaluates to what the tree means, or stops with
  \<open>NestingTooDeep\<close>, and never stops when the tree is shallow enough. The node cases use the
  same combinators as the meaning of trees, on node references in place of subtrees. An
  argument that is a constant or a register is not evaluated but read when the function
  runs, after the other arguments.
\<close>

section \<open>The evaluator\<close>

definition MAX_EXPR_DEPTH :: nat where
  "MAX_EXPR_DEPTH = 128"

definition cp_node :: "('x, 'z) store_scheme \<Rightarrow> node_ref \<Rightarrow> opt_node option" where
  "cp_node p n = arena_get (st_nodes p) n"

definition cp_args :: "('x, 'z) store_scheme \<Rightarrow> arena_slice \<Rightarrow> node_ref list option" where
  "cp_args p s = arena_get_slice (st_args p) s"

definition cp_keys :: "('x, 'z) store_scheme \<Rightarrow> arena_slice \<Rightarrow> u16 list option" where
  "cp_keys p s = arena_get_slice (st_key_runs p) s"

definition cp_key_name :: "('x, 'z) store_scheme \<Rightarrow> u16 \<Rightarrow> string option" where
  "cp_key_name p i = arena_get (st_key_pool p) i"

definition cp_constant :: "('x, 'z) store_scheme \<Rightarrow> u16 \<Rightarrow> 'x val option" where
  "cp_constant p i = arena_get (st_consts p) i"

definition cp_switch_table :: "('x, 'z) store_scheme \<Rightarrow> u16 \<Rightarrow> 'x switch_table option" where
  "cp_switch_table p i = arena_get (st_tables p) i"

text \<open>An index out of range panics.\<close>

definition or_panic :: "'a option \<Rightarrow> ('a \<Rightarrow> eval_error + 'b) \<Rightarrow> eval_error + 'b" where
  "or_panic x f = (case x of None \<Rightarrow> Inl OutOfBounds | Some y \<Rightarrow> f y)"

definition read_register :: "'x compact_program \<Rightarrow> u16 \<Rightarrow> (u16 \<Rightarrow> 'x val) \<Rightarrow> 'x val option" where
  "read_register p r regs = (if r < cp_register_count p then Some (regs r) else None)"

datatype 'x arg_item = ArgValue "'x val" | ArgConst u16 | ArgRegister u16 | ArgRegisterTake u16

definition push_arg ::
  "'x compact_program \<Rightarrow> (node_ref \<Rightarrow> ('x, 'w) eval_state \<Rightarrow> ('x, 'w) outcome) \<Rightarrow> node_ref \<Rightarrow> ('x, 'w) eval_state \<Rightarrow>
   eval_error + 'x arg_item \<times> ('x, 'w) eval_state" where
  "push_arg p f n s =
     (case cp_node p n of
        Some (NConst i) \<Rightarrow> Inr (ArgConst i, s)
      | Some (NRegister r) \<Rightarrow> Inr (ArgRegister r, s)
      | Some (NRegisterTake r) \<Rightarrow> Inr (ArgRegisterTake r, s)
      | _ \<Rightarrow> bind_res (f n s) (\<lambda>(v, s1). Inr (ArgValue v, s1)))"

definition read_item :: "'x compact_program \<Rightarrow> (u16 \<Rightarrow> 'x val) \<Rightarrow> 'x arg_item \<Rightarrow> 'x val option" where
  "read_item p regs item =
     (case item of
        ArgValue v \<Rightarrow> Some v
      | ArgConst i \<Rightarrow> cp_constant p i
      | ArgRegister r \<Rightarrow> read_register p r regs
      | ArgRegisterTake r \<Rightarrow> read_register p r regs)"

text \<open>The value taken from a slot, with the slot and the register file it leaves.\<close>

definition take_item ::
  "'x compact_program \<Rightarrow> (u16 \<Rightarrow> 'x val) \<Rightarrow> 'x arg_item \<Rightarrow> ('x val \<times> 'x arg_item \<times> (u16 \<Rightarrow> 'x val)) option" where
  "take_item p regs item =
     (case item of
        ArgValue v \<Rightarrow> Some (v, ArgValue VNull, regs)
      | ArgConst i \<Rightarrow> map_option (\<lambda>v. (v, item, regs)) (cp_constant p i)
      | ArgRegister r \<Rightarrow> map_option (\<lambda>v. (v, item, regs)) (read_register p r regs)
      | ArgRegisterTake r \<Rightarrow> map_option (\<lambda>v. (v, item, regs(r := VNull))) (read_register p r regs))"

text \<open>A function over an \<open>ArenaArgWindow\<close>.\<close>

primrec window_run ::
  "'x compact_program \<Rightarrow> ('x, 'w) window_prog \<Rightarrow> 'x arg_item list \<Rightarrow> (u16 \<Rightarrow> 'x val) \<Rightarrow>
   ((func_error + 'x val) \<times> 'w \<times> (u16 \<Rightarrow> 'x val)) option" where
  "window_run p (WReturn r w) items regs = Some (r, w, regs)"
| "window_run p (WRead i f) items regs =
     (if i < length items
      then (case read_item p regs (items ! i) of None \<Rightarrow> None | Some v \<Rightarrow> window_run p (f v) items regs)
      else None)"
| "window_run p (WTake i f) items regs =
     (if i < length items
      then (case take_item p regs (items ! i) of
              None \<Rightarrow> None
            | Some (v, item, regs') \<Rightarrow> window_run p (f v) (items[i := item]) regs')
      else None)"

definition eval_call ::
  "('x, 'k, 'w) eval_env \<Rightarrow> 'x compact_program \<Rightarrow> (node_ref \<Rightarrow> ('x, 'w) eval_state \<Rightarrow> ('x, 'w) outcome) \<Rightarrow>
   func_ref \<Rightarrow> node_ref list \<Rightarrow> ('x, 'w) eval_state \<Rightarrow> ('x, 'w) outcome" where
  "eval_call E p f g refs s =
     bind_res (eval_args (push_arg p f) refs s) (\<lambda>(items, s1).
       or_panic (get_by_ref (env_registry E) g) (\<lambda>fn.
         or_panic (window_run p (fn_window fn (length items) (env_context E) (snd s1)) items (fst s1)) (\<lambda>(r, w, regs).
           case r of Inl err \<Rightarrow> Inl (FunctionFailed err) | Inr v \<Rightarrow> Inr (v, (regs, w)))))"

definition eval_opt_node ::
  "('x, 'k, 'w) eval_env \<Rightarrow> 'x compact_program \<Rightarrow> (node_ref \<Rightarrow> ('x, 'w) eval_state \<Rightarrow> ('x, 'w) outcome) \<Rightarrow>
   opt_node \<Rightarrow> ('x, 'w) eval_state \<Rightarrow> ('x, 'w) outcome" where
  "eval_opt_node E p f node s =
     (case node of
        NConst i \<Rightarrow> or_panic (cp_constant p i) (\<lambda>v. Inr (v, s))
      | NRegister r \<Rightarrow> or_panic (read_register p r (fst s)) (\<lambda>v. Inr (v, s))
      | NRegisterTake r \<Rightarrow> or_panic (read_register p r (fst s)) (\<lambda>v. Inr (v, ((fst s)(r := VNull), snd s)))
      | NSourceField n \<Rightarrow> bind_res (env_field E n) (\<lambda>v. Inr (v, s))
      | NField _ \<Rightarrow> Inl FieldNotBound
      | NFields sel \<Rightarrow> bind_res (env_fields E sel) (\<lambda>v. Inr (v, s))
      | NCall g sl \<Rightarrow> or_panic (cp_args p sl) (\<lambda>refs. eval_call E p f g refs s)
      | NIf c t e \<Rightarrow> eval_if f c t e s
      | NMultiIf sl d \<Rightarrow> or_panic (cp_args p sl) (\<lambda>refs. eval_multi_if f (pair_up refs) d s)
      | NIfNull e a \<Rightarrow> eval_if_null f e a s
      | NNullIf e n \<Rightarrow> eval_null_if (env_prim E) f e n s
      | NAnd l r \<Rightarrow> eval_and f l r s
      | NOr l r \<Rightarrow> eval_or f l r s
      | NInterpolation sl \<Rightarrow> or_panic (cp_args p sl) (\<lambda>refs. eval_interpolation (env_render E) f refs [] s)
      | NObject ks sl \<Rightarrow>
          or_panic (cp_keys p ks) (\<lambda>ids. or_panic (cp_args p sl) (\<lambda>refs.
            bind_res (eval_args f (map snd (zip ids refs)) s) (\<lambda>(vs, s1).
              or_panic (those (map (cp_key_name p) (map fst (zip ids refs)))) (\<lambda>names. Inr (VObject (zip names vs), s1)))))
      | NArray sl \<Rightarrow> or_panic (cp_args p sl) (\<lambda>refs. bind_res (eval_args f refs s) (\<lambda>(vs, s1). Inr (VArray vs, s1)))
      | NSwitch sl t d \<Rightarrow>
          or_panic (cp_args p sl) (\<lambda>refs. or_panic (cp_switch_table p t) (\<lambda>table.
            eval_switch (env_prim E) f refs (table_map table) d s))
      | NTypeAssert e cls y \<Rightarrow>
          (case y of
             CYieldIdentity \<Rightarrow> eval_type_assert f e cls YieldIdentity s
           | CYieldConst i \<Rightarrow> or_panic (cp_constant p i) (\<lambda>v. eval_type_assert f e cls (YieldConst v) s))
      | NBind r e b \<Rightarrow>
          bind_res (f e s) (\<lambda>(v, s1).
            or_panic (read_register p r (fst s1)) (\<lambda>_. f b ((fst s1)(r := v), snd s1))))"

text \<open>\<open>eval_node\<close> at depth \<open>MAX_EXPR_DEPTH + 1 - d\<close>.\<close>

fun eval_node ::
  "('x, 'k, 'w) eval_env \<Rightarrow> 'x compact_program \<Rightarrow> nat \<Rightarrow> node_ref \<Rightarrow> ('x, 'w) eval_state \<Rightarrow> ('x, 'w) outcome" where
  "eval_node E p 0 n s = Inl NestingTooDeep"
| "eval_node E p (Suc d) n s = or_panic (cp_node p n) (\<lambda>node. eval_opt_node E p (eval_node E p d) node s)"

text \<open>\<open>evaluate\<close>: the statements into the register file, then the result.\<close>

fun eval_statements ::
  "('x, 'k, 'w) eval_env \<Rightarrow> 'x compact_program \<Rightarrow> (u16 \<times> node_ref) list \<Rightarrow> ('x, 'w) eval_state \<Rightarrow> ('x, 'w) outcome" where
  "eval_statements E p [] s = eval_node E p (MAX_EXPR_DEPTH + 1) (cp_result p) s"
| "eval_statements E p ((r, n) # ss) s =
     bind_res (eval_node E p (MAX_EXPR_DEPTH + 1) n s) (\<lambda>(v, s1).
       or_panic (read_register p r (fst s1)) (\<lambda>_. eval_statements E p ss ((fst s1)(r := v), snd s1)))"

definition evaluate :: "('x, 'k, 'w) eval_env \<Rightarrow> 'x compact_program \<Rightarrow> 'w \<Rightarrow> eval_error + 'x val \<times> 'w" where
  "evaluate E p w = bind_res (eval_statements E p (cp_statements p) (\<lambda>_. VNull, w)) (\<lambda>(v, s). Inr (v, snd s))"

section \<open>Nodes that represent trees\<close>

inductive reps :: "('x, 'z) store_scheme \<Rightarrow> node_ref \<Rightarrow> 'x opt_expr \<Rightarrow> bool" for p where
  reps_const: "cp_node p n = Some (NConst i) \<Longrightarrow> cp_constant p i = Some v \<Longrightarrow> reps p n (EConst v)"
| reps_register: "cp_node p n = Some (NRegister r) \<Longrightarrow> reps p n (ERegister r)"
| reps_source: "cp_node p n = Some (NSourceField f) \<Longrightarrow> reps p n (ESourceField f)"
| reps_field: "cp_node p n = Some (NField i) \<Longrightarrow> reps p i e \<Longrightarrow> tiled n (EField e) [(i, e)] \<Longrightarrow> reps p n (EField e)"
| reps_fields: "cp_node p n = Some (NFields sel) \<Longrightarrow> reps p n (EFields sel)"
| reps_call: "cp_node p n = Some (NCall g sl) \<Longrightarrow> cp_args p sl = Some refs \<Longrightarrow> list_all2 (reps p) refs es \<Longrightarrow>
    tiled n (ECall g es) (zip refs es) \<Longrightarrow> reps p n (ECall g es)"
| reps_if: "cp_node p n = Some (NIf i j k) \<Longrightarrow> reps p i c \<Longrightarrow> reps p j t \<Longrightarrow> reps p k e \<Longrightarrow>
    tiled n (EIf c t e) [(i, c), (j, t), (k, e)] \<Longrightarrow> reps p n (EIf c t e)"
| reps_multi_if: "cp_node p n = Some (NMultiIf sl k) \<Longrightarrow> cp_args p sl = Some refs \<Longrightarrow>
    list_all2 (reps p) refs (concat (map (\<lambda>(c, v). [c, v]) bs)) \<Longrightarrow> reps p k d \<Longrightarrow>
    tiled n (EMultiIf bs d) (zip refs (concat (map (\<lambda>(c, v). [c, v]) bs)) @ [(k, d)]) \<Longrightarrow> reps p n (EMultiIf bs d)"
| reps_if_null: "cp_node p n = Some (NIfNull i j) \<Longrightarrow> reps p i a \<Longrightarrow> reps p j b \<Longrightarrow>
    tiled n (EIfNull a b) [(i, a), (j, b)] \<Longrightarrow> reps p n (EIfNull a b)"
| reps_null_if: "cp_node p n = Some (NNullIf i j) \<Longrightarrow> reps p i a \<Longrightarrow> reps p j b \<Longrightarrow>
    tiled n (ENullIf a b) [(i, a), (j, b)] \<Longrightarrow> reps p n (ENullIf a b)"
| reps_and: "cp_node p n = Some (NAnd i j) \<Longrightarrow> reps p i a \<Longrightarrow> reps p j b \<Longrightarrow>
    tiled n (EAnd a b) [(i, a), (j, b)] \<Longrightarrow> reps p n (EAnd a b)"
| reps_or: "cp_node p n = Some (NOr i j) \<Longrightarrow> reps p i a \<Longrightarrow> reps p j b \<Longrightarrow>
    tiled n (EOr a b) [(i, a), (j, b)] \<Longrightarrow> reps p n (EOr a b)"
| reps_interpolation: "cp_node p n = Some (NInterpolation sl) \<Longrightarrow> cp_args p sl = Some refs \<Longrightarrow>
    list_all2 (reps p) refs es \<Longrightarrow> tiled n (EInterpolation es) (zip refs es) \<Longrightarrow> reps p n (EInterpolation es)"
| reps_object: "cp_node p n = Some (NObject ks sl) \<Longrightarrow> cp_args p sl = Some refs \<Longrightarrow> list_all2 (reps p) refs (map snd es) \<Longrightarrow>
    cp_keys p ks = Some ids \<Longrightarrow> map (cp_key_name p) ids = map (\<lambda>p. Some (fst p)) es \<Longrightarrow>
    tiled n (EObject es) (zip refs (map snd es)) \<Longrightarrow> reps p n (EObject es)"
| reps_array: "cp_node p n = Some (NArray sl) \<Longrightarrow> cp_args p sl = Some refs \<Longrightarrow> list_all2 (reps p) refs es \<Longrightarrow>
    tiled n (EArray es) (zip refs es) \<Longrightarrow> reps p n (EArray es)"
| reps_switch: "cp_node p n = Some (NSwitch sl t k) \<Longrightarrow> cp_args p sl = Some refs \<Longrightarrow> list_all2 (reps p) refs ins \<Longrightarrow>
    cp_switch_table p t = Some T \<Longrightarrow> list_all2 (\<lambda>q q'. fst q = fst q' \<and> reps p (snd q) (snd q')) (table_map T) table \<Longrightarrow>
    reps p k d \<Longrightarrow> tiled n (ESwitch ins table d) (zip (map snd (table_map T)) (map snd table) @ [(k, d)] @ zip refs ins) \<Longrightarrow>
    reps p n (ESwitch ins table d)"
| reps_assert: "cp_node p n = Some (NTypeAssert i cls CYieldIdentity) \<Longrightarrow> reps p i e \<Longrightarrow>
    tiled n (ETypeAssert e cls YieldIdentity) [(i, e)] \<Longrightarrow> reps p n (ETypeAssert e cls YieldIdentity)"
| reps_assert_const: "cp_node p n = Some (NTypeAssert i cls (CYieldConst j)) \<Longrightarrow> cp_constant p j = Some v \<Longrightarrow> reps p i e \<Longrightarrow>
    tiled n (ETypeAssert e cls (YieldConst v)) [(i, e)] \<Longrightarrow> reps p n (ETypeAssert e cls (YieldConst v))"
| reps_block: "reps p n r \<Longrightarrow> reps p n (EBlock [] r)"
| reps_bind: "cp_node p n = Some (NBind x i b) \<Longrightarrow> reps p i e \<Longrightarrow> reps p b (EBlock ss r) \<Longrightarrow>
    tiled n (EBlock ((x, e) # ss) r) [(b, EBlock ss r), (i, e)] \<Longrightarrow> reps p n (EBlock ((x, e) # ss) r)"

text \<open>The store grows, and what it represents stays.\<close>

definition store_grows :: "('x, 'y) store_scheme \<Rightarrow> ('x, 'z) store_scheme \<Rightarrow> bool" where
  "store_grows p q \<longleftrightarrow>
     grows (st_nodes p) (st_nodes q) \<and> grows (st_args p) (st_args q) \<and> grows (st_key_runs p) (st_key_runs q) \<and>
     grows (st_key_pool p) (st_key_pool q) \<and> grows (st_consts p) (st_consts q) \<and> grows (st_tables p) (st_tables q)"

lemma store_grows_refl [simp, intro]: "store_grows p p"
  by (simp add: store_grows_def)

lemma store_grows_trans: "store_grows p q \<Longrightarrow> store_grows q r \<Longrightarrow> store_grows p r"
  unfolding store_grows_def by (blast intro: grows_trans)

lemma store_grows_get:
  assumes "store_grows p q"
  shows "cp_node p n = Some x1 \<Longrightarrow> cp_node q n = Some x1" "cp_args p sl = Some x2 \<Longrightarrow> cp_args q sl = Some x2"
    "cp_keys p sl = Some x3 \<Longrightarrow> cp_keys q sl = Some x3" "cp_key_name p i = Some x4 \<Longrightarrow> cp_key_name q i = Some x4"
    "cp_constant p i = Some x5 \<Longrightarrow> cp_constant q i = Some x5" "cp_switch_table p i = Some x6 \<Longrightarrow> cp_switch_table q i = Some x6"
  using assms unfolding store_grows_def cp_node_def cp_args_def cp_keys_def cp_key_name_def cp_constant_def cp_switch_table_def
  by (auto intro: arena_get_grows arena_get_slice_grows)

lemma key_names_grow:
  "store_grows p q \<Longrightarrow> map (cp_key_name p) ids = map (\<lambda>p. Some (fst p)) es \<Longrightarrow> map (cp_key_name q) ids = map (\<lambda>p. Some (fst p)) es"
proof (induction ids arbitrary: es)
  case (Cons i ids)
  then show ?case by (cases es) (auto simp: store_grows_get)
qed simp

lemma reps_grows: "reps p n e \<Longrightarrow> store_grows p q \<Longrightarrow> reps q n e"
proof (induction rule: reps.induct)
  case (reps_object n ks sl refs es ids)
  then show ?case using key_names_grow [of p q ids es]
    by (auto intro!: reps.reps_object simp: store_grows_get elim: list_all2_mono)
qed (auto intro!: reps.intros simp: store_grows_get elim: list_all2_mono)

section \<open>What evaluation leaves alone\<close>

text \<open>The registers that the blocks of a tree bind.\<close>

function writes :: "'x opt_expr \<Rightarrow> u16 list" where
  "writes e = (case e of EBlock ss _ \<Rightarrow> map fst ss | _ \<Rightarrow> []) @ concat (map writes (children e))"
  by pat_completeness auto
termination
  by (relation "measure size") (auto simp: children_size)

declare writes.simps [simp del]

lemma writes_child: "c \<in> set (children e) \<Longrightarrow> set (writes c) \<subseteq> set (writes e)"
  by (subst writes.simps [of e]) auto

definition same_outside :: "u16 set \<Rightarrow> ('x, 'w) eval_state \<Rightarrow> ('x, 'w) eval_state \<Rightarrow> bool" where
  "same_outside W s s' \<longleftrightarrow> (\<forall>r. r \<notin> W \<longrightarrow> fst s' r = fst s r)"

lemma same_outside_refl [simp, intro]: "same_outside W s s"
  by (simp add: same_outside_def)

lemma same_outside_trans: "same_outside W s s' \<Longrightarrow> same_outside W s' s'' \<Longrightarrow> same_outside W s s''"
  by (simp add: same_outside_def)

text \<open>An outcome that changes no other register, and an evaluation all of whose outcomes are such.\<close>

definition kept :: "u16 set \<Rightarrow> ('x, 'w) eval_state \<Rightarrow> 'err + 'v \<times> ('x, 'w) eval_state \<Rightarrow> bool" where
  "kept W s out = (case out of Inl _ \<Rightarrow> True | Inr r \<Rightarrow> same_outside W s (snd r))"

definition framed :: "u16 set \<Rightarrow> ('e \<Rightarrow> ('x, 'w) eval_state \<Rightarrow> 'err + 'v \<times> ('x, 'w) eval_state) \<Rightarrow> 'e \<Rightarrow> bool" where
  "framed W f e \<longleftrightarrow> (\<forall>s. kept W s (f e s))"

lemma kept_simps [simp]: "kept W s (Inl err)" "kept W s (Inr (v, s')) \<longleftrightarrow> same_outside W s s'"
  by (simp_all add: kept_def)

lemma keptD: "kept W s (Inr r) \<Longrightarrow> same_outside W s (snd r)"
  by (simp add: kept_def)

lemma kept_step: "same_outside W s s' \<Longrightarrow> kept W s' out \<Longrightarrow> kept W s out"
  unfolding kept_def by (cases out) (simp_all add: same_outside_trans [of W s s'])

lemma kept_framed: "framed W f e \<Longrightarrow> kept W s (f e s)"
  unfolding framed_def by blast

lemma kept_bind_out:
  assumes "kept W s out" "\<And>v s1. kept W s1 (k (v, s1))"
  shows "kept W s (bind_res out k)"
proof (cases out)
  case (Inr r)
  obtain v s1 where r: "r = (v, s1)" by (metis surj_pair)
  then have "same_outside W s s1" using keptD assms(1) Inr by force
  then show ?thesis using kept_step [OF _ assms(2)] Inr r by simp
qed simp

lemma kept_bind: "framed W f e \<Longrightarrow> (\<And>v s1. kept W s1 (k (v, s1))) \<Longrightarrow> kept W s (bind_res (f e s) k)"
  by (rule kept_bind_out) (simp_all add: kept_framed)

lemma kept_eval_args: "\<forall>e \<in> set es. framed W f e \<Longrightarrow> kept W s (eval_args f es s)"
proof (induction es arbitrary: s)
  case (Cons e es)
  have "kept W s1 (bind_res (eval_args f es s1) (\<lambda>(vs, s2). Inr (v # vs, s2)))" for v s1
    by (rule kept_bind_out) (use Cons in simp_all)
  then show ?case unfolding eval_args.simps by (intro kept_bind [where f = f]) (use Cons.prems in auto)
qed simp

lemma kept_eval_args_bind:
  "\<forall>e \<in> set es. framed W f e \<Longrightarrow> (\<And>vs s1. kept W s1 (k (vs, s1))) \<Longrightarrow> kept W s (bind_res (eval_args f es s) k)"
  by (intro kept_bind_out kept_eval_args)

lemma kept_case_tri:
  "kept W s a \<Longrightarrow> kept W s b \<Longrightarrow> kept W s c \<Longrightarrow> kept W s d \<Longrightarrow>
   kept W s (case t of TriTrue \<Rightarrow> a | TriFalse \<Rightarrow> b | TriNull \<Rightarrow> c | TriOther \<Rightarrow> d)"
  by (cases t) simp_all

lemma kept_combine: "kept W s (combine_bool ctx v s)"
  by (simp add: combine_bool_def kept_case_tri)

lemma kept_multi_if:
  "\<forall>(c, v) \<in> set bs. framed W f c \<and> framed W f v \<Longrightarrow> framed W f d \<Longrightarrow> kept W s (eval_multi_if f bs d s)"
proof (induction bs arbitrary: s)
  case (Cons b bs)
  obtain c v where b: "b = (c, v)" by fastforce
  have c: "framed W f c" "framed W f v" using Cons.prems b by auto
  have IH: "kept W s1 (eval_multi_if f bs d s1)" for s1 using Cons by simp
  show ?case
    unfolding b eval_multi_if.simps
    by (rule kept_bind [OF c(1)]) (simp add: kept_case_tri kept_framed c(2) IH)
qed (simp add: kept_framed)

lemma kept_interpolation: "\<forall>e \<in> set es. framed W f e \<Longrightarrow> kept W s (eval_interpolation render f es acc s)"
proof (induction es arbitrary: s acc)
  case (Cons e es)
  show ?case
    unfolding eval_interpolation.simps
    by (rule kept_bind) (use Cons in \<open>auto simp: Let_def\<close>)
qed simp

lemma kept_block:
  "\<forall>(x, e) \<in> set ss. x \<in> W \<and> framed W f e \<Longrightarrow> framed W f r \<Longrightarrow> kept W s (eval_block f ss r s)"
proof (induction ss arbitrary: s)
  case (Cons p ss)
  obtain x e where p: "p = (x, e)" by fastforce
  have x: "x \<in> W" "framed W f e" using Cons.prems p by auto
  have IH: "kept W s1 (eval_block f ss r s1)" for s1 using Cons by simp
  have "kept W s1 (eval_block f ss r ((fst s1)(x := v), snd s1))" for v s1
    by (rule kept_step [OF _ IH]) (use x(1) in \<open>auto simp: same_outside_def\<close>)
  then show ?case unfolding p eval_block.simps by (intro kept_bind [OF x(2)]) simp
qed (simp add: kept_framed)

lemma kept_call: "kept W s (call_function E g vs s)"
  by (auto simp: call_function_def same_outside_def split: option.splits prod.splits sum.splits)

lemma eval_framed: "set (writes e) \<subseteq> W \<Longrightarrow> framed W (eval E) e"
proof (induction "size e" arbitrary: e rule: less_induct)
  case less
  have ch: "\<forall>c \<in> set (children e). framed W (eval E) c"
    using less children_size [of _ e] writes_child [of _ e] by blast
  note binds = kept_bind [where f = "eval E"] kept_case_tri kept_combine kept_framed [where f = "eval E"]
  have "kept W s (eval E e s)" for s
  proof (cases e)
    case (ESwitch ins tab d)
    have ins: "\<forall>e \<in> set ins. framed W (eval E) e" and d: "framed W (eval E) d"
      and tab: "\<forall>v \<in> snd ` set tab. framed W (eval E) v"
      using ch ESwitch by auto
    have "framed W (eval E) v" if "switch_entry P tab key = Some v" for P key v
      using switch_entry_in [OF that] tab by force
    then have "kept W s1 (case switch_entry P tab key of Some e \<Rightarrow> eval E e s1 | None \<Rightarrow> eval E d s1)" for P key s1
      by (cases "switch_entry P tab key") (simp_all add: kept_framed d)
    then show ?thesis
      unfolding ESwitch eval.simps eval_switch_def by (intro kept_eval_args_bind [OF ins]) simp
  next
    case (EBlock ss r)
    have "set (map fst ss) \<subseteq> W" using less.prems EBlock by (subst (asm) writes.simps) simp
    then have "\<forall>(x, e) \<in> set ss. x \<in> W \<and> framed W (eval E) e" using ch EBlock by force
    then show ?thesis unfolding EBlock eval.simps by (rule kept_block) (use ch EBlock in simp)
  next
    case (EMultiIf bs d)
    have "\<forall>(c, v) \<in> set bs. framed W (eval E) c \<and> framed W (eval E) v" "framed W (eval E) d"
      using ch EMultiIf by auto
    then show ?thesis unfolding EMultiIf eval.simps by (rule kept_multi_if)
  next
    case (ECall g args)
    then show ?thesis using ch unfolding ECall eval.simps by (intro kept_eval_args_bind) (simp_all add: kept_call)
  next
    case (EObject es)
    have "\<forall>e \<in> set (map snd es). framed W (eval E) e" using ch EObject by simp
    then show ?thesis unfolding EObject eval.simps by (rule kept_eval_args_bind) simp
  next
    case (EInterpolation es)
    then show ?thesis using ch by (simp add: kept_interpolation)
  next
    case (EArray es)
    then show ?thesis using ch unfolding EArray eval.simps by (intro kept_eval_args_bind) simp_all
  next
    case (EIf a b c)
    then show ?thesis using ch unfolding EIf eval.simps eval_if_def by (intro binds) (simp_all add: binds)
  next
    case (EIfNull a b)
    then show ?thesis using ch unfolding EIfNull eval.simps eval_if_null_def by (intro binds) (simp_all add: binds)
  next
    case (ENullIf a b)
    then show ?thesis using ch unfolding ENullIf eval.simps eval_null_if_def by (intro binds) (simp_all add: binds)
  next
    case (EAnd a b)
    then show ?thesis using ch unfolding EAnd eval.simps eval_and_def by (intro binds) (simp_all add: binds)
  next
    case (EOr a b)
    then show ?thesis using ch unfolding EOr eval.simps eval_or_def by (intro binds) (simp_all add: binds)
  next
    case (ETypeAssert a cls y)
    have a: "framed W (eval E) a" using ch ETypeAssert by simp
    show ?thesis
      unfolding ETypeAssert eval.simps eval_type_assert_def
      by (rule kept_bind [OF a]) (simp split: option.split bool.split)
  qed (simp_all add: bind_res_def split: option.split sum.split)
  then show ?case unfolding framed_def by blast
qed

section \<open>Depth and well-formedness\<close>

text \<open>An argument that the evaluator reads in place.\<close>

fun direct_operand :: "'x opt_expr \<Rightarrow> bool" where
  "direct_operand (EConst v) = True"
| "direct_operand (ERegister r) = True"
| "direct_operand (EBlock [] r) = direct_operand r"
| "direct_operand _ = False"

fun direct_register :: "'x opt_expr \<Rightarrow> u16 option" where
  "direct_register (ERegister r) = Some r"
| "direct_register (EBlock [] r) = direct_register r"
| "direct_register _ = None"

definition max_list :: "nat list \<Rightarrow> nat" where
  "max_list ns = foldr max ns 0"

text \<open>The levels of \<open>eval_node\<close> that the evaluation of a tree can need.\<close>

function levels :: "'x opt_expr \<Rightarrow> nat" where
  "levels e =
     (case e of
        EBlock ss r \<Rightarrow> foldr (\<lambda>p n. Suc (max (levels (snd p)) n)) ss (levels r)
      | ECall _ args \<Rightarrow> Suc (max_list (map (\<lambda>a. if direct_operand a then 0 else levels a) args))
      | _ \<Rightarrow> Suc (max_list (map levels (children e))))"
  by pat_completeness auto
termination
  by (relation "measure size") (simp, (simp only: in_measure, rule children_size, force)+)

declare levels.simps [simp del]

lemma max_list_ge: "n \<in> set ns \<Longrightarrow> n \<le> max_list ns"
  unfolding max_list_def by (induction ns) auto

text \<open>
  What compaction relies on: registers in range, no \<open>Field\<close> node left, the keys of
  a switch distinct, and a register passed to a call as it is not bound inside the call's
  other arguments (the converter numbers registers in single-assignment form).
\<close>

definition distinct_keys :: "'x prim_ops \<Rightarrow> ('x key \<times> 'e) list \<Rightarrow> bool" where
  "distinct_keys P table = sorted_wrt (\<lambda>p q. \<not> key_eq P (fst p) (fst q)) table"

definition node_ok :: "('x, 'k, 'w) eval_env \<Rightarrow> u16 \<Rightarrow> 'x opt_expr \<Rightarrow> bool" where
  "node_ok E rc e =
     (case e of
        ERegister r \<Rightarrow> r < rc
      | EField _ \<Rightarrow> False
      | EBlock ss _ \<Rightarrow> list_all (\<lambda>p. fst p < rc) ss
      | ESwitch _ table _ \<Rightarrow> distinct_keys (env_prim E) table
      | ECall g args \<Rightarrow>
          (case get_by_ref (env_registry E) g of None \<Rightarrow> True | Some fn \<Rightarrow> arity_ok fn (length args)) \<and>
          list_all (\<lambda>a. case direct_register a of None \<Rightarrow> True | Some r \<Rightarrow> r \<notin> set (concat (map writes args))) args
      | _ \<Rightarrow> True)"

definition compactable :: "('x, 'k, 'w) eval_env \<Rightarrow> u16 \<Rightarrow> 'x opt_expr \<Rightarrow> bool" where
  "compactable E rc e \<longleftrightarrow> \<not> scan (\<lambda>n. \<not> node_ok E rc n) e"

lemma compactable_step: "compactable E rc e \<longleftrightarrow> node_ok E rc e \<and> (\<forall>c \<in> set (children e). compactable E rc c)"
  unfolding compactable_def by (subst scan.simps) (auto simp: list_ex_iff)

section \<open>Agreement\<close>

text \<open>Equal outcomes; when the depth is not known to suffice, stopping with \<open>NestingTooDeep\<close> is allowed.\<close>

definition agree :: "bool \<Rightarrow> eval_error + 'a \<Rightarrow> eval_error + 'a \<Rightarrow> bool" where
  "agree b x y \<longleftrightarrow> x = y \<or> (\<not> b \<and> x = Inl NestingTooDeep)"

definition agrees :: "bool \<Rightarrow> ('n \<Rightarrow> 's \<Rightarrow> eval_error + 'a) \<Rightarrow> ('e \<Rightarrow> 's \<Rightarrow> eval_error + 'a) \<Rightarrow> 'n \<Rightarrow> 'e \<Rightarrow> bool" where
  "agrees b f g n e \<longleftrightarrow> (\<forall>s. agree b (f n s) (g e s))"

lemma agree_refl [simp, intro]: "agree b x x"
  by (simp add: agree_def)

lemma agree_mono: "agree b x y \<Longrightarrow> (b' \<Longrightarrow> b) \<Longrightarrow> agree b' x y"
  by (auto simp: agree_def)

lemma agreesD: "agrees b f g n e \<Longrightarrow> agree b (f n s) (g e s)"
  unfolding agrees_def by blast

lemma agrees_mono: "agrees b f g n e \<Longrightarrow> (b' \<Longrightarrow> b) \<Longrightarrow> agrees b' f g n e"
  unfolding agrees_def using agree_mono by blast

lemma agree_bind: "agree b x y \<Longrightarrow> (\<And>r. agree b (f r) (g r)) \<Longrightarrow> agree b (bind_res x f) (bind_res y g)"
  unfolding agree_def by (cases y) (auto, metis)

lemma agree_bind_pair: "agree b x y \<Longrightarrow> (\<And>v s. agree b (f v s) (g v s)) \<Longrightarrow>
  agree b (bind_res x (\<lambda>(v, s). f v s)) (bind_res y (\<lambda>(v, s). g v s))"
  by (rule agree_bind) auto

lemma agree_case_tri:
  "agree b x x' \<Longrightarrow> agree b y y' \<Longrightarrow> agree b z z' \<Longrightarrow> agree b u u' \<Longrightarrow>
   agree b (case t of TriTrue \<Rightarrow> x | TriFalse \<Rightarrow> y | TriNull \<Rightarrow> z | TriOther \<Rightarrow> u)
     (case t of TriTrue \<Rightarrow> x' | TriFalse \<Rightarrow> y' | TriNull \<Rightarrow> z' | TriOther \<Rightarrow> u')"
  by (cases t) simp_all

lemmas agree_intros = agree_bind_pair agree_case_tri agree_refl

lemma agree_if: "agrees b f g i c \<Longrightarrow> agrees b f g j t \<Longrightarrow> agrees b f g k e \<Longrightarrow> agree b (eval_if f i j k s) (eval_if g c t e s)"
  unfolding eval_if_def by (intro agree_intros agreesD [where f = f and g = g])

lemma agree_and: "agrees b f g i c \<Longrightarrow> agrees b f g j t \<Longrightarrow> agree b (eval_and f i j s) (eval_and g c t s)"
  unfolding eval_and_def by (intro agree_intros agreesD [where f = f and g = g])

lemma agree_or: "agrees b f g i c \<Longrightarrow> agrees b f g j t \<Longrightarrow> agree b (eval_or f i j s) (eval_or g c t s)"
  unfolding eval_or_def by (intro agree_intros agreesD [where f = f and g = g])

lemma agree_if_null: "agrees b f g i c \<Longrightarrow> agrees b f g j t \<Longrightarrow> agree b (eval_if_null f i j s) (eval_if_null g c t s)"
  unfolding eval_if_null_def by (intro agree_intros agreesD [where f = f and g = g]) (simp_all add: agreesD [where f = f and g = g])

lemma agree_null_if: "agrees b f g i c \<Longrightarrow> agrees b f g j t \<Longrightarrow> agree b (eval_null_if P f i j s) (eval_null_if P g c t s)"
  unfolding eval_null_if_def by (intro agree_intros agreesD [where f = f and g = g])

lemma agree_type_assert: "agrees b f g i c \<Longrightarrow> agree b (eval_type_assert f i cls y s) (eval_type_assert g c cls y s)"
  unfolding eval_type_assert_def by (intro agree_intros agreesD [where f = f and g = g])

lemma agree_args: "list_all2 (agrees b f g) ns es \<Longrightarrow> agree b (eval_args f ns s) (eval_args g es s)"
proof (induction ns es arbitrary: s rule: list_all2_induct)
  case (Cons n ns e es)
  then show ?case unfolding eval_args.simps by (intro agree_intros agreesD [where f = f and g = g])
qed simp

lemma agree_interpolation:
  "list_all2 (agrees b f g) ns es \<Longrightarrow> agree b (eval_interpolation render f ns acc s) (eval_interpolation render g es acc s)"
proof (induction ns es arbitrary: acc s rule: list_all2_induct)
  case (Cons n ns e es)
  then show ?case
    unfolding eval_interpolation.simps Let_def by (intro agree_intros agreesD [where f = f and g = g]) simp_all
qed simp

lemma agree_multi_if:
  assumes "agrees b f g k d"
  shows "list_all2 (\<lambda>q q'. agrees b f g (fst q) (fst q') \<and> agrees b f g (snd q) (snd q')) ns bs \<Longrightarrow>
   agree b (eval_multi_if f ns k s) (eval_multi_if g bs d s)"
proof (induction ns bs arbitrary: s rule: list_all2_induct)
  case Nil
  then show ?case using assms by (simp add: agreesD)
next
  case (Cons n ns e es)
  obtain i j c t where ne: "n = (i, j)" "e = (c, t)" by fastforce
  have "agrees b f g i c" "agrees b f g j t" using Cons ne by simp_all
  then show ?case unfolding ne eval_multi_if.simps by (intro agree_intros agreesD [where f = f and g = g] Cons.IH)
qed

lemma agree_switch:
  assumes "list_all2 (agrees b f g) ns ins" "agrees b f g k d"
    and "list_all2 (\<lambda>q q'. fst q = fst q' \<and> agrees b f g (snd q) (snd q')) T table"
  shows "agree b (eval_switch P f ns T k s) (eval_switch P g ins table d s)"
proof -
  have find: "rel_option (\<lambda>q q'. agrees b f g (snd q) (snd q')) (find (\<lambda>q. key_eq P (fst q) key) T)
      (find (\<lambda>q. key_eq P (fst q) key) table)" for key
    using assms(3) by (induction T table rule: list_all2_induct) auto
  have entry: "rel_option (agrees b f g) (switch_entry P T key) (switch_entry P table key)" for key
    using find by (cases key) (auto simp: switch_entry_def option.rel_map elim: option.rel_mono_strong)
  have "agree b (case switch_entry P T key of Some e \<Rightarrow> f e s1 | None \<Rightarrow> f k s1)
      (case switch_entry P table key of Some e \<Rightarrow> g e s1 | None \<Rightarrow> g d s1)" for key s1
    using entry [of key] assms(2)
    by (cases "switch_entry P T key"; cases "switch_entry P table key") (auto intro: agreesD [where f = f and g = g])
  then show ?thesis unfolding eval_switch_def by (intro agree_bind_pair agree_args assms(1))
qed

section \<open>A node evaluates to what its tree means\<close>

lemma levels_child:
  assumes "c \<in> set (children e)" "\<And>g args. e \<noteq> ECall g args" "\<And>ss r. e \<noteq> EBlock ss r"
  shows "levels c < levels e"
proof -
  have "levels e = Suc (max_list (map levels (children e)))"
    using assms(2,3) by (subst levels.simps) (cases e; auto)
  moreover have "levels c \<le> max_list (map levels (children e))" using assms(1) by (intro max_list_ge) simp
  ultimately show ?thesis by simp
qed

lemma levels_arg: "a \<in> set args \<Longrightarrow> \<not> direct_operand a \<Longrightarrow> levels a < levels (ECall g args)"
  by (subst levels.simps [of "ECall g args"]) (auto simp: less_Suc_eq_le intro!: max_list_ge image_eqI [of _ _ a])

lemma levels_block [simp]:
  "levels (EBlock [] r) = levels r" "levels (EBlock ((x, e) # ss) r) = Suc (max (levels e) (levels (EBlock ss r)))"
  by (subst levels.simps, simp)+

lemma levels_pos: "0 < levels e"
proof (induction "size e" arbitrary: e rule: less_induct)
  case less
  show ?case
  proof (cases "\<exists>r. e = EBlock [] r")
    case True
    then show ?thesis using less by auto
  next
    case False
    have "0 < foldr (\<lambda>p n. Suc (max (levels (snd p)) n)) ss k" if "ss \<noteq> []" for ss :: "(u16 \<times> 'a opt_expr) list" and k
      using that by (cases ss) simp_all
    with False show ?thesis by (subst levels.simps) (cases e; auto)
  qed
qed

lemma reps_no_take: "reps p n e \<Longrightarrow> cp_node p n \<noteq> Some (NRegisterTake r)"
  by (induction rule: reps.induct) simp_all

lemma direct_operand_node: "reps p n e \<Longrightarrow> direct_operand e \<Longrightarrow>
  (\<exists>i. cp_node p n = Some (NConst i)) \<or> (\<exists>r. cp_node p n = Some (NRegister r))"
  by (induction rule: reps.induct) auto

lemma const_node: "reps p n e \<Longrightarrow> cp_node p n = Some (NConst i) \<Longrightarrow>
  \<exists>v. cp_constant p i = Some v \<and> (\<forall>s. eval E e s = Inr (v, s))"
  by (induction rule: reps.induct) auto

lemma register_node: "reps p n e \<Longrightarrow> cp_node p n = Some (NRegister r) \<Longrightarrow>
  direct_register e = Some r \<and> (\<forall>s. eval E e s = Inr (fst s r, s))"
  by (induction rule: reps.induct) auto

lemma direct_register_range: "direct_register e = Some r \<Longrightarrow> compactable E rc e \<Longrightarrow> r < rc"
proof (induction e rule: direct_register.induct)
  case (1 r')
  then show ?case using compactable_step [of E rc "ERegister r'"] by (simp add: node_ok_def)
next
  case (2 e)
  then show ?case using compactable_step [of E rc "EBlock [] e"] by simp
qed simp_all

lemma push_arg_const: "cp_node p n = Some (NConst i) \<Longrightarrow> push_arg p f n = (\<lambda>s. Inr (ArgConst i, s))"
  by (rule ext) (simp add: push_arg_def)

lemma push_arg_register: "cp_node p n = Some (NRegister r) \<Longrightarrow> push_arg p f n = (\<lambda>s. Inr (ArgRegister r, s))"
  by (rule ext) (simp add: push_arg_def)

lemma push_arg_value:
  assumes "\<And>i. cp_node p n \<noteq> Some (NConst i)" "\<And>r. cp_node p n \<noteq> Some (NRegister r)"
    and "\<And>r. cp_node p n \<noteq> Some (NRegisterTake r)"
  shows "push_arg p f n s = bind_res (f n s) (\<lambda>(v, s1). Inr (ArgValue v, s1))"
proof (cases "cp_node p n")
  case (Some node)
  then show ?thesis using assms unfolding push_arg_def by (cases node) simp_all
qed (simp add: push_arg_def)

lemma agree_error_bind: "agree b (Inl err) y \<Longrightarrow> agree b (Inl err) (bind_res y k)"
  by (cases y) (auto simp: agree_def)

lemma read_item_simps [simp]:
  "read_item p regs (ArgValue v) = Some v" "read_item p regs (ArgConst i) = cp_constant p i"
  "read_item p regs (ArgRegister r) = read_register p r regs" "read_item p regs (ArgRegisterTake r) = read_register p r regs"
  by (simp_all add: read_item_def)

text \<open>
  A function that keeps the contract sees in an arena window what it sees in an owned window
  of the same values, as long as no other slot reads a register that one slot moves; it
  changes moved registers only. \<open>S\<close> are the slots taken so far.
\<close>

definition unaliased :: "nat set \<Rightarrow> 'x arg_item list \<Rightarrow> bool" where
  "unaliased S items \<longleftrightarrow>
     (\<forall>i < length items. \<forall>j < length items. \<forall>r. i \<notin> S \<longrightarrow> j \<notin> S \<longrightarrow> i \<noteq> j \<longrightarrow> items ! i = ArgRegisterTake r \<longrightarrow>
        items ! j \<noteq> ArgRegister r \<and> items ! j \<noteq> ArgRegisterTake r)"

lemma take_item_other:
  assumes "take_item p regs a = Some (v, a', regs')" "\<And>r. a = ArgRegisterTake r \<Longrightarrow> b \<noteq> ArgRegister r \<and> b \<noteq> ArgRegisterTake r"
  shows "read_item p regs' b = read_item p regs b"
  using assms by (cases a; cases b) (auto simp: take_item_def read_item_def read_register_def)

lemma window_run_owned:
  assumes "linear_window prog S" "owned_run prog vs = Some (r, w)" "length items = length vs" "unaliased S items"
    and "\<And>i. i < length items \<Longrightarrow> i \<notin> S \<Longrightarrow> read_item p regs (items ! i) = Some (vs ! i)"
  shows "\<exists>regs'. window_run p prog items regs = Some (r, w, regs') \<and>
    (\<forall>x. ArgRegisterTake x \<notin> set items \<longrightarrow> regs' x = regs x)"
  using assms
proof (induction prog arbitrary: S vs items regs)
  case (WRead i f)
  have i: "i < length items" "i \<notin> S" "owned_run (f (vs ! i)) vs = Some (r, w)" "linear_window (f (vs ! i)) S"
    using WRead.prems(1-3) by (auto split: if_splits)
  then show ?case
    using WRead.IH [OF _ i(4,3) WRead.prems(3-5)] WRead.prems(5) [of i] by simp
next
  case (WTake i f)
  have i: "i < length items" "i \<notin> S" "owned_run (f (vs ! i)) (vs[i := VNull]) = Some (r, w)"
    "linear_window (f (vs ! i)) (insert i S)"
    using WTake.prems(1-3) by (auto split: if_splits)
  have rd: "read_item p regs (items ! i) = Some (vs ! i)" using WTake.prems(5) i by blast
  then obtain a regs' where t: "take_item p regs (items ! i) = Some (vs ! i, a, regs')"
    by (cases "items ! i") (auto simp: take_item_def read_item_def)
  have a: "\<And>x. a = ArgRegisterTake x \<Longrightarrow> ArgRegisterTake x \<in> set items"
    and same: "\<And>x. ArgRegisterTake x \<notin> set items \<Longrightarrow> regs' x = regs x"
    using t i(1) nth_mem [OF i(1)] by (cases "items ! i"; force simp: take_item_def)+
  have "unaliased (insert i S) (items[i := a])"
    using WTake.prems(4) unfolding unaliased_def by (auto simp: nth_list_update)
  moreover have "read_item p regs' (items[i := a] ! j) = Some (vs[i := VNull] ! j)"
    if "j < length (items[i := a])" "j \<notin> insert i S" for j
  proof -
    have "items ! i = ArgRegisterTake x \<Longrightarrow> items ! j \<noteq> ArgRegister x \<and> items ! j \<noteq> ArgRegisterTake x" for x
      using WTake.prems(4) that i unfolding unaliased_def by auto
    then have "read_item p regs' (items ! j) = read_item p regs (items ! j)" using take_item_other [OF t] by blast
    then show ?thesis using that WTake.prems(5) [of j] by simp
  qed
  ultimately obtain regs'' where w: "window_run p (f (vs ! i)) (items[i := a]) regs' = Some (r, w, regs'')"
    and keep: "\<forall>x. ArgRegisterTake x \<notin> set (items[i := a]) \<longrightarrow> regs'' x = regs' x"
    using WTake.IH [OF _ i(4,3), of "items[i := a]" regs'] WTake.prems(3) by auto
  have "regs'' x = regs x" if "ArgRegisterTake x \<notin> set items" for x
  proof -
    have "ArgRegisterTake x \<notin> set (items[i := a])" using that a set_update_subset_insert [of items i a] by blast
    then show ?thesis using keep same that by simp
  qed
  then show ?case using w t i(1) by simp
qed simp

lemma push_args_agree:
  assumes "list_all2 (reps p) ns es" "list_all2 (\<lambda>n e. \<not> direct_operand e \<longrightarrow> agrees b f (eval E) n e) ns es"
    and "\<forall>e \<in> set es. compactable E (cp_register_count p) e \<and> set (writes e) \<subseteq> W"
    and "\<forall>e \<in> set es. \<forall>r. direct_register e = Some r \<longrightarrow> r \<notin> W"
  shows "case eval_args (push_arg p f) ns s of
      Inl err \<Rightarrow> agree b (Inl err) (eval_args (eval E) es s)
    | Inr (items, s1) \<Rightarrow> \<exists>vs. eval_args (eval E) es s = Inr (vs, s1) \<and> those (map (read_item p (fst s1)) items) = Some vs \<and>
        (\<forall>r. ArgRegisterTake r \<notin> set items)"
  using assms
proof (induction ns es arbitrary: s rule: list_all2_induct)
  case (Cons n ns e es)
  have IH: "case eval_args (push_arg p f) ns s of
      Inl err \<Rightarrow> agree b (Inl err) (eval_args (eval E) es s)
    | Inr (items, s1) \<Rightarrow> \<exists>vs. eval_args (eval E) es s = Inr (vs, s1) \<and> those (map (read_item p (fst s1)) items) = Some vs \<and>
        (\<forall>r. ArgRegisterTake r \<notin> set items)" for s
    using Cons by simp
  have frame: "fst s1 r = fst s r" if "eval_args (eval E) es s = Inr (vs, s1)" "r \<notin> W" for r s s1 vs
  proof -
    have "\<forall>e \<in> set es. framed W (eval E) e" using Cons.prems(2) by (simp add: eval_framed)
    then have "kept W s (eval_args (eval E) es s)" by (rule kept_eval_args)
    then show ?thesis using that by (simp add: same_outside_def)
  qed
  consider (const) i where "cp_node p n = Some (NConst i)" | (register) r where "cp_node p n = Some (NRegister r)"
    | (nested) "\<And>i. cp_node p n \<noteq> Some (NConst i)" "\<And>r. cp_node p n \<noteq> Some (NRegister r)" by blast
  then show ?case
  proof cases
    case const
    then obtain v where "cp_constant p i = Some v" "\<And>s. eval E e s = Inr (v, s)" using const_node [OF Cons.hyps(1)] by blast
    then show ?thesis
      using IH [of s] push_arg_const [OF const, of f] by (auto intro: agree_error_bind split: sum.splits)
  next
    case register
    then have r: "direct_register e = Some r" "\<And>s. eval E e s = Inr (fst s r, s)" using register_node [OF Cons.hyps(1)] by blast+
    have "r < cp_register_count p" "r \<notin> W"
      using direct_register_range [OF r(1), of E] r(1) Cons.prems(2,3) by auto
    then show ?thesis
      using IH [of s] r(2) frame [of s _ _ r] push_arg_register [OF register, of f]
      by (auto simp: read_register_def intro: agree_error_bind split: sum.splits)
  next
    case nested
    then have "\<not> direct_operand e" using direct_operand_node [OF Cons.hyps(1)] by blast
    then have ag: "agree b (f n s) (eval E e s)" using Cons.prems(1) agreesD [of b f "eval E" n e s] by simp
    note v = push_arg_value [OF nested reps_no_take [OF Cons.hyps(1)], of f s]
    show ?thesis
    proof (cases "f n s")
      case (Inl err)
      then show ?thesis using ag v by (auto intro: agree_error_bind)
    next
      case (Inr r)
      obtain x s1 where r: "r = (x, s1)" by (metis surj_pair)
      have "push_arg p f n s = Inr (ArgValue x, s1)" using Inr r v by simp
      moreover have "eval E e s = Inr (x, s1)" using ag Inr r by (auto simp: agree_def)
      ultimately show ?thesis
        using IH [of s1] by (auto intro: agree_error_bind split: sum.splits)
    qed
  qed
qed simp

text \<open>Every function of the registry keeps the contract of its window.\<close>

definition windows_ok :: "('x, 'k, 'w) eval_env \<Rightarrow> bool" where
  "windows_ok E \<longleftrightarrow> list_all window_ok (env_registry E)"

lemma windows_okD:
  "windows_ok E \<Longrightarrow> get_by_ref (env_registry E) g = Some fn \<Longrightarrow> window_ok fn"
  by (auto simp: windows_ok_def list_all_iff get_by_ref_def split: if_splits)

lemma those_Some_nth:
  "those xs = Some ys \<longleftrightarrow> length xs = length ys \<and> (\<forall>i < length xs. xs ! i = Some (ys ! i))"
proof (induction xs arbitrary: ys)
  case (Cons x xs)
  then show ?case by (cases ys; cases x) (auto simp: nth_Cons split: nat.splits)
qed auto

lemma call_window:
  assumes "window_ok fn" "arity_ok fn (length vs)" "those (map (read_item p regs) items) = Some vs" "unaliased {} items"
  shows "\<exists>regs'. window_run p (fn_window fn (length items) k w) items regs =
      Some (fst (fn_evaluate fn vs k w), snd (fn_evaluate fn vs k w), regs') \<and>
      (\<forall>x. ArgRegisterTake x \<notin> set items \<longrightarrow> regs' x = regs x)"
proof -
  have len: "length items = length vs" and rd: "\<And>i. i < length items \<Longrightarrow> read_item p regs (items ! i) = Some (vs ! i)"
    using assms(3) by (auto simp: those_Some_nth)
  have "linear_window (fn_window fn (length items) k w) {}"
    "owned_run (fn_window fn (length items) k w) vs = Some (fst (fn_evaluate fn vs k w), snd (fn_evaluate fn vs k w))"
    using assms(1,2) len by (auto simp: window_ok_def)
  from window_run_owned [OF this len assms(4) rd] show ?thesis by blast
qed

lemma eval_args_length: "eval_args f es s = Inr (vs, s1) \<Longrightarrow> length vs = length es"
  by (induction es arbitrary: s vs) (auto simp: bind_res_Inr_iff)

lemma eval_call_agree:
  assumes "list_all2 (reps p) ns es" "list_all2 (\<lambda>n e. \<not> direct_operand e \<longrightarrow> agrees b f (eval E) n e) ns es"
    and "compactable E (cp_register_count p) (ECall g es)" "windows_ok E"
  shows "agree b (eval_call E p f g ns s) (eval E (ECall g es) s)"
proof -
  let ?W = "set (concat (map writes es))"
  have ok: "node_ok E (cp_register_count p) (ECall g es)" "\<forall>e \<in> set es. compactable E (cp_register_count p) e"
    using compactable_step [of E _ "ECall g es"] assms(3) by simp_all
  have sub: "\<forall>e \<in> set es. compactable E (cp_register_count p) e \<and> set (writes e) \<subseteq> ?W" using ok(2) by auto
  have dir: "\<forall>e \<in> set es. \<forall>r. direct_register e = Some r \<longrightarrow> r \<notin> ?W"
    using ok(1) unfolding node_ok_def by (auto simp: list_all_iff split: option.splits)
  note push = push_args_agree [OF assms(1,2) sub dir, of s]
  show ?thesis
  proof (cases "eval_args (push_arg p f) ns s")
    case (Inl err)
    then show ?thesis using push by (auto simp: eval_call_def intro: agree_error_bind)
  next
    case (Inr res)
    obtain items s1 where res: "res = (items, s1)" by (cases res) auto
    obtain vs where vs: "eval_args (eval E) es s = Inr (vs, s1)" "those (map (read_item p (fst s1)) items) = Some vs"
      and nt: "\<forall>r. ArgRegisterTake r \<notin> set items"
      using push Inr res by auto
    show ?thesis
    proof (cases "get_by_ref (env_registry E) g")
      case None
      then show ?thesis using Inr res vs by (simp add: eval_call_def call_function_def or_panic_def)
    next
      case (Some fn)
      have len: "length vs = length es" using vs(1) by (rule eval_args_length)
      have ar: "arity_ok fn (length vs)" using ok(1) Some by (simp add: node_ok_def len)
      have ua: "unaliased {} items" using nt nth_mem unfolding unaliased_def by metis
      obtain regs' where w: "window_run p (fn_window fn (length items) (env_context E) (snd s1)) items (fst s1) =
          Some (fst (fn_evaluate fn vs (env_context E) (snd s1)), snd (fn_evaluate fn vs (env_context E) (snd s1)), regs')"
        and keep: "\<forall>x. regs' x = fst s1 x"
        using call_window [OF windows_okD [OF assms(4) Some] ar vs(2) ua] nt by blast
      have "regs' = fst s1" using keep by blast
      then show ?thesis using Inr res vs Some w
        by (cases "fn_evaluate fn vs (env_context E) (snd s1)") (auto simp: eval_call_def call_function_def or_panic_def split: sum.splits)
    qed
  qed
qed

lemma eval_node_agreesI:
  assumes "cp_node p n = Some node"
    and "\<And>d s. agree (levels e \<le> Suc d) (eval_opt_node E p (eval_node E p d) node s) (eval E e s)"
  shows "agrees (levels e \<le> d) (eval_node E p d) (eval E) n e"
proof (cases d)
  case 0
  then show ?thesis using levels_pos [of e] by (simp add: agrees_def agree_def)
next
  case (Suc d')
  then show ?thesis using assms unfolding agrees_def by (simp add: or_panic_def)
qed

definition node_agrees :: "('x, 'k, 'w) eval_env \<Rightarrow> 'x compact_program \<Rightarrow> node_ref \<Rightarrow> 'x opt_expr \<Rightarrow> bool" where
  "node_agrees E p n e \<longleftrightarrow>
     (compactable E (cp_register_count p) e \<longrightarrow>
        (\<forall>d. agrees (levels e \<le> d) (eval_node E p d) (eval E) n e))"

lemma node_agreesD:
  "node_agrees E p n e \<Longrightarrow> compactable E (cp_register_count p) e \<Longrightarrow> (b \<Longrightarrow> levels e \<le> d) \<Longrightarrow>
   agrees b (eval_node E p d) (eval E) n e"
  by (rule agrees_mono [of "levels e \<le> d"]) (simp_all add: node_agrees_def)

lemma child_agrees:
  assumes "node_agrees E p n c" "compactable E (cp_register_count p) e" "c \<in> set (children e)"
    and "\<And>g args. e \<noteq> ECall g args" "\<And>ss r. e \<noteq> EBlock ss r"
  shows "agrees (levels e \<le> Suc d) (eval_node E p d) (eval E) n c"
  using assms(1)
proof (rule node_agreesD)
  show "compactable E (cp_register_count p) c" using assms(2,3) compactable_step by blast
  show "levels c \<le> d" if "levels e \<le> Suc d" using levels_child [OF assms(3-5)] that by simp
qed

lemma children_agree:
  assumes "list_all2 (\<lambda>n c. reps p n c \<and> node_agrees E p n c) ns cs" "compactable E (cp_register_count p) e"
    and "set cs \<subseteq> set (children e)" "\<And>g args. e \<noteq> ECall g args" "\<And>ss r. e \<noteq> EBlock ss r"
  shows "list_all2 (agrees (levels e \<le> Suc d) (eval_node E p d) (eval E)) ns cs"
  using assms(1,3)
proof (induction ns cs rule: list_all2_induct)
  case (Cons n ns c cs)
  then show ?case using child_agrees [of E p n c e d] assms(2,4,5) by simp
qed simp

lemma node_agreesI:
  assumes "cp_node p n = Some node"
    and "\<And>d s. compactable E (cp_register_count p) e \<Longrightarrow>
      agree (levels e \<le> Suc d) (eval_opt_node E p (eval_node E p d) node s) (eval E e s)"
  shows "node_agrees E p n e"
  unfolding node_agrees_def using eval_node_agreesI [OF assms(1)] assms(2) by blast

lemma pair_up_children:
  "list_all2 R ns (concat (map (\<lambda>(c, v). [c, v]) bs)) \<Longrightarrow>
   list_all2 (\<lambda>q q'. R (fst q) (fst q') \<and> R (snd q) (snd q')) (pair_up ns) bs"
  using pair_up_rel2 [of R ns "concat (map (\<lambda>(c, v). [c, v]) bs)"] by simp

lemma eval_node_correct:
  assumes "windows_ok E"
  shows "reps p n e \<Longrightarrow> node_agrees E p n e"
proof (induction rule: reps.induct)
  case (reps_const n i v)
  then show ?case by (intro node_agreesI [OF reps_const(1)]) (simp add: eval_opt_node_def or_panic_def)
next
  case (reps_register n r)
  show ?case
    by (rule node_agreesI [OF reps_register])
      (use compactable_step [of E "cp_register_count p" "ERegister r"] in
        \<open>simp add: eval_opt_node_def or_panic_def read_register_def node_ok_def\<close>)
next
  case (reps_source n f)
  show ?case by (rule node_agreesI [OF reps_source]) (simp add: eval_opt_node_def)
next
  case (reps_field n i e)
  have "\<not> compactable E (cp_register_count p) (EField e)"
    by (subst compactable_step) (simp add: node_ok_def)
  then show ?case by (simp add: node_agrees_def)
next
  case (reps_fields n sel)
  show ?case by (rule node_agreesI [OF reps_fields]) (simp add: eval_opt_node_def)
next
  case (reps_call n g sl refs es)
  show ?case
  proof (rule node_agreesI [OF reps_call(1)])
    fix d s
    assume ok: "compactable E (cp_register_count p) (ECall g es)"
    have sub: "\<forall>e \<in> set es. compactable E (cp_register_count p) e"
      using compactable_step [of E _ "ECall g es"] ok by simp
    have lv: "\<forall>e \<in> set es. \<not> direct_operand e \<longrightarrow> levels (ECall g es) \<le> Suc d \<longrightarrow> levels e \<le> d"
      using levels_arg [of _ es g] by fastforce
    have "list_all2 (\<lambda>n e. \<not> direct_operand e \<longrightarrow> agrees (levels (ECall g es) \<le> Suc d) (eval_node E p d) (eval E) n e) refs es"
      using reps_call.IH
      by (rule list.rel_mono_strong) (use sub lv in \<open>auto intro!: node_agreesD\<close>)
    moreover have "list_all2 (reps p) refs es" using reps_call.IH by (auto elim: list_all2_mono)
    ultimately have "agree (levels (ECall g es) \<le> Suc d) (eval_call E p (eval_node E p d) g refs s) (eval E (ECall g es) s)"
      using eval_call_agree ok assms by blast
    then show "agree (levels (ECall g es) \<le> Suc d) (eval_opt_node E p (eval_node E p d) (NCall g sl) s) (eval E (ECall g es) s)"
      using reps_call(2) by (simp add: eval_opt_node_def or_panic_def)
  qed
next
  case (reps_if n i j k c t e)
  show ?case
    by (rule node_agreesI [OF reps_if(1)])
      (use reps_if child_agrees [of E p _ _ "EIf c t e"] in \<open>simp add: eval_opt_node_def agree_if\<close>)
next
  case (reps_multi_if n sl k refs bs d)
  show ?case
  proof (rule node_agreesI [OF reps_multi_if(1)])
    fix dd s
    assume ok: "compactable E (cp_register_count p) (EMultiIf bs d)"
    let ?R = "agrees (levels (EMultiIf bs d) \<le> Suc dd) (eval_node E p dd) (eval E)"
    have "list_all2 ?R refs (concat (map (\<lambda>(c, v). [c, v]) bs))"
      by (rule children_agree [OF reps_multi_if.IH(1) ok]) auto
    moreover have "?R k d" by (rule child_agrees [OF reps_multi_if.IH(2) ok]) auto
    ultimately show "agree (levels (EMultiIf bs d) \<le> Suc dd) (eval_opt_node E p (eval_node E p dd) (NMultiIf sl k) s) (eval E (EMultiIf bs d) s)"
      using reps_multi_if(2) by (simp add: eval_opt_node_def or_panic_def agree_multi_if pair_up_children)
  qed
next
  case (reps_if_null n i j a b)
  show ?case
    by (rule node_agreesI [OF reps_if_null(1)])
      (use reps_if_null child_agrees [of E p _ _ "EIfNull a b"] in \<open>simp add: eval_opt_node_def agree_if_null\<close>)
next
  case (reps_null_if n i j a b)
  show ?case
    by (rule node_agreesI [OF reps_null_if(1)])
      (use reps_null_if child_agrees [of E p _ _ "ENullIf a b"] in \<open>simp add: eval_opt_node_def agree_null_if\<close>)
next
  case (reps_and n i j a b)
  show ?case
    by (rule node_agreesI [OF reps_and(1)])
      (use reps_and child_agrees [of E p _ _ "EAnd a b"] in \<open>simp add: eval_opt_node_def agree_and\<close>)
next
  case (reps_or n i j a b)
  show ?case
    by (rule node_agreesI [OF reps_or(1)])
      (use reps_or child_agrees [of E p _ _ "EOr a b"] in \<open>simp add: eval_opt_node_def agree_or\<close>)
next
  case (reps_interpolation n sl refs es)
  show ?case
    by (rule node_agreesI [OF reps_interpolation(1)])
      (use reps_interpolation(2) children_agree [OF reps_interpolation.IH] in
        \<open>simp add: eval_opt_node_def or_panic_def agree_interpolation\<close>)
next
  case (reps_object n ks sl refs es ids)
  have len: "length ids = length es" using reps_object.hyps(4) by (metis length_map)
  have refs: "length refs = length es" using reps_object.IH by (auto dest: list_all2_lengthD)
  have "map (cp_key_name p \<circ> fst) (zip ids refs) = map (cp_key_name p) ids"
    using len refs by (subst map_map [symmetric]) simp
  then have names: "those (map (cp_key_name p \<circ> fst) (zip ids refs)) = Some (map fst es)"
    unfolding reps_object.hyps(4) by (simp add: those_Some_iff list_all2_map1 list_all2_map2 list.rel_refl)
  show ?case
  proof (rule node_agreesI [OF reps_object(1)])
    fix d s
    assume ok: "compactable E (cp_register_count p) (EObject es)"
    have "list_all2 (agrees (levels (EObject es) \<le> Suc d) (eval_node E p d) (eval E)) refs (map snd es)"
      by (rule children_agree [OF reps_object.IH ok]) auto
    then have "agree (levels (EObject es) \<le> Suc d) (eval_args (eval_node E p d) refs s) (eval_args (eval E) (map snd es) s)"
      by (rule agree_args)
    then show "agree (levels (EObject es) \<le> Suc d) (eval_opt_node E p (eval_node E p d) (NObject ks sl) s) (eval E (EObject es) s)"
      using reps_object.hyps(2,3) len refs names by (auto simp: eval_opt_node_def or_panic_def intro!: agree_bind_pair)
  qed
next
  case (reps_array n sl refs es)
  show ?case
  proof (rule node_agreesI [OF reps_array(1)])
    fix d s
    assume ok: "compactable E (cp_register_count p) (EArray es)"
    have "list_all2 (agrees (levels (EArray es) \<le> Suc d) (eval_node E p d) (eval E)) refs es"
      by (rule children_agree [OF reps_array.IH ok]) auto
    then show "agree (levels (EArray es) \<le> Suc d) (eval_opt_node E p (eval_node E p d) (NArray sl) s) (eval E (EArray es) s)"
      using reps_array(2) by (auto simp: eval_opt_node_def or_panic_def intro!: agree_bind_pair agree_args)
  qed
next
  case (reps_switch n sl t k refs ins T table d)
  show ?case
  proof (rule node_agreesI [OF reps_switch(1)])
    fix dd s
    assume ok: "compactable E (cp_register_count p) (ESwitch ins table d)"
    let ?R = "agrees (levels (ESwitch ins table d) \<le> Suc dd) (eval_node E p dd) (eval E)"
    have ins: "list_all2 ?R refs ins" by (rule children_agree [OF reps_switch.IH(1) ok]) auto
    have d: "?R k d" by (rule child_agrees [OF reps_switch.IH(3) ok]) auto
    have "list_all2 (\<lambda>q q'. fst q = fst q' \<and> ?R (snd q) (snd q')) (table_map T) table"
      using reps_switch.IH(2)
    proof (rule list.rel_mono_strong)
      fix q q'
      assume q: "q' \<in> set table" "fst q = fst q' \<and> reps p (snd q) (snd q') \<and> node_agrees E p (snd q) (snd q')"
      then have "?R (snd q) (snd q')" by (intro child_agrees [OF _ ok]) auto
      with q show "fst q = fst q' \<and> ?R (snd q) (snd q')" by simp
    qed
    with ins d show "agree (levels (ESwitch ins table d) \<le> Suc dd) (eval_opt_node E p (eval_node E p dd) (NSwitch sl t k) s)
        (eval E (ESwitch ins table d) s)"
      using reps_switch.hyps(2,3) by (simp add: eval_opt_node_def or_panic_def agree_switch)
  qed
next
  case (reps_assert n i cls e)
  show ?case
    by (rule node_agreesI [OF reps_assert(1)])
      (use reps_assert child_agrees [of E p _ _ "ETypeAssert e cls YieldIdentity"] in \<open>simp add: eval_opt_node_def agree_type_assert\<close>)
next
  case (reps_assert_const n i cls j v e)
  show ?case
    by (rule node_agreesI [OF reps_assert_const(1)])
      (use reps_assert_const child_agrees [of E p _ _ "ETypeAssert e cls (YieldConst v)"] in
        \<open>simp add: eval_opt_node_def or_panic_def agree_type_assert\<close>)
next
  case (reps_block n r)
  have "compactable E (cp_register_count p) (EBlock [] r) \<Longrightarrow> compactable E (cp_register_count p) r"
    using compactable_step [of E _ "EBlock [] r"] by simp
  then show ?case using reps_block(2) by (auto simp: node_agrees_def agrees_def)
next
  case (reps_bind n x i b e ss r)
  show ?case
  proof (rule node_agreesI [OF reps_bind(1)])
    fix d s
    assume ok: "compactable E (cp_register_count p) (EBlock ((x, e) # ss) r)"
    then have x: "x < cp_register_count p" and e: "compactable E (cp_register_count p) e"
      and rest: "compactable E (cp_register_count p) (EBlock ss r)"
      using compactable_step [of E _ "EBlock ((x, e) # ss) r"] compactable_step [of _ _ "EBlock ss r"] by (auto simp: node_ok_def)
    let ?b = "levels (EBlock ((x, e) # ss) r) \<le> Suc d"
    have "agree ?b (eval_node E p d i s) (eval E e s)"
      by (rule agreesD [where f = "eval_node E p d"], rule node_agreesD [OF reps_bind.IH(1) e]) simp
    moreover have "agree ?b (eval_node E p d b s1) (eval E (EBlock ss r) s1)" for s1
      by (rule agreesD [where f = "eval_node E p d"], rule node_agreesD [OF reps_bind.IH(2) rest]) simp
    ultimately show "agree ?b (eval_opt_node E p (eval_node E p d) (NBind x i b) s) (eval E (EBlock ((x, e) # ss) r) s)"
      using x by (auto simp: eval_opt_node_def or_panic_def read_register_def intro!: agree_bind_pair)
  qed
qed

section \<open>Programs\<close>

definition shallow :: "'x opt_expr \<Rightarrow> bool" where
  "shallow e \<longleftrightarrow> levels e \<le> MAX_EXPR_DEPTH + 1"

lemma eval_statements_agree:
  assumes "list_all2 (\<lambda>q q'. fst q = fst q' \<and> reps p (snd q) (snd q')) ns ss" "reps p (cp_result p) r"
    and "\<forall>e \<in> insert r (snd ` set ss). compactable E (cp_register_count p) e \<and> (b \<longrightarrow> shallow e)"
    and "\<forall>x \<in> fst ` set ss. x < cp_register_count p" "windows_ok E"
  shows "agree b (eval_statements E p ns s) (eval_block (eval E) ss r s)"
  using assms(1,3,4)
proof (induction ns ss arbitrary: s rule: list_all2_induct)
  case Nil
  then have "agrees b (eval_node E p (MAX_EXPR_DEPTH + 1)) (eval E) (cp_result p) r"
    by (intro node_agreesD [OF eval_node_correct [OF assms(5,2)]]) (auto simp: shallow_def)
  then show ?case unfolding eval_statements.simps eval_block.simps by (rule agreesD)
next
  case (Cons q ns q' ss)
  obtain x n e where q: "q = (x, n)" "q' = (x, e)" "reps p n e" using Cons.hyps(1) by (cases q; cases q') auto
  have "agree b (eval_node E p (MAX_EXPR_DEPTH + 1) n s) (eval E e s)"
    using Cons.prems(1) q
    by (intro agreesD [where f = "eval_node E p (MAX_EXPR_DEPTH + 1)"] node_agreesD [OF eval_node_correct [OF assms(5)]])
      (auto simp: shallow_def)
  moreover have "x < cp_register_count p" using Cons.prems(2) q by simp
  moreover have "agree b (eval_statements E p ns s1) (eval_block (eval E) ss r s1)" for s1
    using Cons by simp
  ultimately show ?case
    unfolding q eval_statements.simps eval_block.simps
    by (auto simp: or_panic_def read_register_def intro!: agree_bind_pair)
qed

definition program_ok :: "('x, 'k, 'w) eval_env \<Rightarrow> 'x opt_program \<Rightarrow> bool" where
  "program_ok E prog \<longleftrightarrow>
     list_all (compactable E (prog_register_count prog)) (prog_result prog # map snd (prog_statements prog)) \<and>
     list_all (\<lambda>q. fst q < prog_register_count prog) (prog_statements prog)"

definition program_shallow :: "'x opt_program \<Rightarrow> bool" where
  "program_shallow prog \<longleftrightarrow> list_all shallow (prog_result prog # map snd (prog_statements prog))"

lemma evaluate_agree:
  assumes "list_all2 (\<lambda>q q'. fst q = fst q' \<and> reps p (snd q) (snd q')) (cp_statements p) (prog_statements prog)"
    and "reps p (cp_result p) (prog_result prog)" "cp_register_count p = prog_register_count prog"
    and "program_ok E prog" "windows_ok E"
  shows "agree (program_shallow prog) (evaluate E p w) (run_program E prog w)"
proof -
  have "agree (program_shallow prog) (eval_statements E p (cp_statements p) s)
      (eval_block (eval E) (prog_statements prog) (prog_result prog) s)" for s
    using assms(3-5) by (intro eval_statements_agree [OF assms(1,2)]) (auto simp: program_ok_def program_shallow_def list_all_iff)
  then show ?thesis unfolding evaluate_def run_program_def eval.simps by (intro agree_bind_pair) auto
qed

end
