(* ===== verification/CompactProps.thy ===== *)
theory CompactProps
  imports ArenaEval OptProps
begin

text \<open>
  Compaction is correct: the node that \<open>compact_expr\<close> returns represents the tree, so the
  compacted program evaluates to what the program means; and it succeeds for every program of
  at most \<open>u16::MAX\<close> nodes.
\<close>

section \<open>The invariant of the compactor\<close>

text \<open>The arenas are within their bounds and the deduplication maps agree with the pools.\<close>

definition compactor_inv :: "'x compactor \<Rightarrow> bool" where
  "compactor_inv c \<longleftrightarrow>
     length (st_nodes c) \<le> U16_MAX \<and> length (st_args c) \<le> U16_MAX \<and> length (st_key_runs c) \<le> U16_MAX \<and>
     (\<forall>k i. key_dedup c k = Some i \<longrightarrow> cp_key_name c i = Some k) \<and>
     (\<forall>p \<in> set (const_dedup c). cp_constant c (snd p) = Some (fst p))"

lemma compactor_create_inv [simp]: "compactor_inv compactor_create"
  by (simp add: compactor_inv_def compactor_create_def)

text \<open>A step of the compactor, and what its result is good for from then on.\<close>

definition steps :: "('a \<Rightarrow> 'x compactor \<Rightarrow> arena_error + 'r \<times> 'x compactor) \<Rightarrow> ('x compactor \<Rightarrow> 'r \<Rightarrow> 'a \<Rightarrow> bool) \<Rightarrow> 'a \<Rightarrow> bool" where
  "steps f Q e \<longleftrightarrow>
     (\<forall>c x c'. f e c = Inr (x, c') \<longrightarrow> compactor_inv c \<longrightarrow> compactor_inv c' \<and> store_grows c c' \<and> Q c' x e)"

definition lasting :: "('x compactor \<Rightarrow> 'r \<Rightarrow> 'a \<Rightarrow> bool) \<Rightarrow> bool" where
  "lasting Q \<longleftrightarrow> (\<forall>c c' x e. Q c x e \<longrightarrow> store_grows c c' \<longrightarrow> Q c' x e)"

lemma stepsI:
  "(\<And>c x c'. f e c = Inr (x, c') \<Longrightarrow> compactor_inv c \<Longrightarrow> compactor_inv c' \<and> store_grows c c' \<and> Q c' x e) \<Longrightarrow> steps f Q e"
  unfolding steps_def by blast

lemma stepsD:
  assumes "steps f Q e" "f e c = Inr (x, c')" "compactor_inv c"
  shows "compactor_inv c'" "store_grows c c'" "Q c' x e"
  using assms unfolding steps_def by blast+

lemma eval_args_steps:
  assumes "lasting Q"
  shows "\<forall>e \<in> set es. steps f Q e \<Longrightarrow> eval_args f es c = Inr (xs, c') \<Longrightarrow> compactor_inv c \<Longrightarrow>
    compactor_inv c' \<and> store_grows c c' \<and> list_all2 (Q c') xs es"
proof (induction es arbitrary: c xs)
  case (Cons e es)
  then obtain x c1 xs' where x: "f e c = Inr (x, c1)" "eval_args f es c1 = Inr (xs', c')" "xs = x # xs'"
    by (auto simp: bind_res_Inr_iff)
  have s: "steps f Q e" using Cons.prems by simp
  note st = stepsD [OF s x(1) Cons.prems(3)]
  have IH: "compactor_inv c'" "store_grows c1 c'" "list_all2 (Q c') xs' es" using Cons.IH [OF _ x(2) st(1)] Cons.prems(1) by auto
  have "Q c' x e" using assms st(3) IH(2) unfolding lasting_def by blast
  then show ?case using IH st(2) x(3) store_grows_trans by auto
qed simp

section \<open>Allocation and interning\<close>

lemma alloc_node_spec:
  assumes "alloc_node node c = Inr (n, c')" "compactor_inv c"
  shows "compactor_inv c'" "store_grows c c'" "cp_node c' n = Some node"
proof -
  obtain nodes where a: "arena_alloc (st_nodes c) node = Inr (n, nodes)" and c': "c' = c\<lparr>st_nodes := nodes\<rparr>"
    using assms(1) by (auto simp: alloc_node_def bind_res_Inr_iff)
  note sp = arena_alloc_spec [OF a]
  show "store_grows c c'" "cp_node c' n = Some node" using c' sp by (simp_all add: store_grows_def cp_node_def)
  show "compactor_inv c'"
    using assms(2) c' sp by (simp add: compactor_inv_def cp_key_name_def cp_constant_def)
qed

lemma push_pool:
  "length xs \<le> U16_MAX \<Longrightarrow> arena_get (xs @ [v]) (of_nat (length xs)) = Some v"
  by (simp add: arena_get_def unat_of_nat_u16)

lemma push_const_spec:
  assumes "push_const v c = Inr (i, c')" "compactor_inv c"
  shows "compactor_inv c'" "store_grows c c'" "cp_constant c' i = Some v"
proof -
  have c': "c' = c\<lparr>st_consts := st_consts c @ [v]\<rparr>" "i = of_nat (length (st_consts c))" "length (st_consts c) \<le> U16_MAX"
    using assms(1) by (auto simp: push_const_def split: if_splits)
  show "cp_constant c' i = Some v" using c' by (simp add: cp_constant_def push_pool)
  show g: "store_grows c c'" using c' by (simp add: store_grows_def)
  show "compactor_inv c'"
    using assms(2) store_grows_get(4,5) [OF g] unfolding compactor_inv_def by (auto simp: c'(1))
qed

text \<open>Connector values that compare equal are interchangeable.\<close>

definition exact_customs :: "'x prim_ops \<Rightarrow> bool" where
  "exact_customs P \<longleftrightarrow> (\<forall>a b. compare_scalar P (VCustom a) (VCustom b) = Some Equal \<longrightarrow> a = b)"

definition exact_kind :: "'x val \<Rightarrow> bool" where
  "exact_kind v = (case v of VFloat32 _ \<Rightarrow> False | VFloat64 _ \<Rightarrow> False | VDecimal _ \<Rightarrow> False | _ \<Rightarrow> True)"

lemma exact_dedup_key_Some:
  "exact_dedup_key P v = Some (d, k) \<longleftrightarrow> exact_kind v \<and> d = discriminant v \<and> (\<exists>a. canonicalise P v = Inr a \<and> k = [a])"
  by (cases v) (auto simp: exact_dedup_key_def exact_kind_def key_from_value_def key_single_def ok_option_def bind_res_def
    split: sum.splits)

lemma same_dedup_key_exact:
  assumes "same_dedup_key P v w" "exact_customs P"
  shows "v = w"
proof -
  obtain a b where ab: "canonicalise P v = Inr a" "canonicalise P w = Inr b" "eq_element P a b"
    and d: "discriminant v = discriminant w" "exact_kind v"
    using assms(1)
    by (auto simp: same_dedup_key_def exact_dedup_key_Some key_eq_def split: option.splits)
  have bytes: "cmp_list cmp_lin s t = Equal \<longleftrightarrow> s = t" for s t :: "nat list"
    using cmp_atD(1) [OF cmp_list_eq_at [of s cmp_lin]] by simp
  have str: "cmp_string s t = Equal \<longleftrightarrow> s = t" for s t
    by (rule cmp_atD(1) [OF cmp_string_at(1)])
  have custom: "compare_scalar P (VCustom x) (VCustom y) = Some Equal \<Longrightarrow> x = y" for x y
    using assms(2) by (auto simp: exact_customs_def)
  have "\<not> structural a" using ab(1) by (cases v) (auto simp: canonicalise_def structural_def split: if_splits)
  then have "eq_element P a b \<longleftrightarrow> (case compare_scalar P (widen P a) (widen P b) of Some ord \<Rightarrow> ord = Equal | None \<Rightarrow>
      (case a of VFloat64 f \<Rightarrow> (case b of VFloat64 g \<Rightarrow> f64_nan P f \<and> f64_nan P g | _ \<Rightarrow> False) | _ \<Rightarrow> False))"
    by (simp add: eq_element_def compare_values_scalar cmp_some_def)
  note eq = this [THEN iffD1, OF ab(3)]
  show ?thesis
  proof (cases "\<exists>x. v = VCustom x")
    case True
    then obtain x y where "v = VCustom x" "w = VCustom y" using d by (cases w) (auto simp: discriminant_def)
    then show ?thesis using eq ab custom [of x y]
      by (auto simp: canonicalise_def widen_def split: if_splits option.splits)
  next
    case False
    then show ?thesis
      using d ab(1,2) eq
      by (cases v; cases w; simp add: discriminant_def exact_kind_def;
          auto simp: canonicalise_def widen_def compare_scalar_def cmp_some_def bytes str split: if_splits)
  qed
qed

lemma intern_const_spec:
  assumes "intern_const P v c = Inr (i, c')" "compactor_inv c" "exact_customs P"
  shows "compactor_inv c'" "store_grows c c'" "cp_constant c' i = Some v"
proof -
  have "compactor_inv c' \<and> store_grows c c' \<and> cp_constant c' i = Some v"
  proof (cases "exact_dedup_key P v = None")
    case True
    then show ?thesis using assms push_const_spec [of v c i c'] by (simp add: intern_const_def)
  next
    case False
    show ?thesis
    proof (cases "find (\<lambda>p. same_dedup_key P (fst p) v) (const_dedup c)")
      case None
      then obtain c1 where c1: "push_const v c = Inr (i, c1)" and c': "c' = c1\<lparr>const_dedup := const_dedup c1 @ [(v, i)]\<rparr>"
        using assms(1) False by (auto simp: intern_const_def bind_res_Inr_iff)
      note sp = push_const_spec [OF c1 assms(2)]
      have "cp_constant c' j = cp_constant c1 j" "cp_key_name c' j = cp_key_name c1 j" for j
        by (simp_all add: c' cp_constant_def cp_key_name_def)
      then show ?thesis using sp by (auto simp: c' compactor_inv_def store_grows_def)
    next
      case (Some p)
      then have p: "p \<in> set (const_dedup c)" "same_dedup_key P (fst p) v" by (auto simp: find_Some_iff)
      then have "fst p = v" using same_dedup_key_exact assms(3) by blast
      moreover have "i = snd p" "c' = c" using assms(1) False Some by (auto simp: intern_const_def split: prod.splits)
      ultimately show ?thesis using assms(2) p(1) by (auto simp: compactor_inv_def)
    qed
  qed
  then show "compactor_inv c'" "store_grows c c'" "cp_constant c' i = Some v" by simp_all
qed

lemma intern_key_steps: "steps intern_key (\<lambda>c i k. cp_key_name c i = Some k) key"
proof (rule stepsI)
  fix c :: "'a compactor" and i c'
  assume i: "intern_key key c = Inr (i, c')" and inv: "compactor_inv c"
  show "compactor_inv c' \<and> store_grows c c' \<and> cp_key_name c' i = Some key"
  proof (cases "key_dedup c key")
    case None
    then have c': "c' = c\<lparr>st_key_pool := st_key_pool c @ [key], key_dedup := (key_dedup c)(key \<mapsto> i)\<rparr>"
      "i = of_nat (length (st_key_pool c))" "length (st_key_pool c) \<le> U16_MAX"
      using i by (auto simp: intern_key_def Let_def split: if_splits)
    have g: "store_grows c c'" by (simp add: c'(1) store_grows_def)
    have n: "cp_key_name c' i = Some key" using c'(3) by (simp add: c'(1,2) cp_key_name_def push_pool)
    have old: "\<And>k j. key_dedup c k = Some j \<Longrightarrow> cp_key_name c' j = Some k"
      "\<forall>p \<in> set (const_dedup c). cp_constant c' (snd p) = Some (fst p)"
      using inv store_grows_get(4,5) [OF g] unfolding compactor_inv_def by blast+
    have "\<forall>k j. key_dedup c' k = Some j \<longrightarrow> cp_key_name c' j = Some k" using n old(1) by (simp add: c'(1))
    then have "compactor_inv c'" using inv old(2) unfolding compactor_inv_def by (simp add: c'(1))
    with g n show ?thesis by simp
  next
    case (Some j)
    then show ?thesis using i inv by (auto simp: intern_key_def compactor_inv_def)
  qed
qed

lemma alloc_run_inv:
  assumes "alloc_run ids (st_key_runs c) = Inr (s, runs)" "compactor_inv c"
  shows "compactor_inv (c\<lparr>st_key_runs := runs\<rparr>)" "store_grows c (c\<lparr>st_key_runs := runs\<rparr>)"
    "cp_keys (c\<lparr>st_key_runs := runs\<rparr>) s = Some ids"
proof -
  have "length (st_key_runs c) \<le> U16_MAX" using assms(2) by (simp add: compactor_inv_def)
  with alloc_run_spec [OF assms(1)] alloc_run_bound [OF assms(1)] have
    r: "runs = st_key_runs c @ ids" "arena_get_slice runs s = Some ids" "length runs \<le> U16_MAX" by auto
  show "cp_keys (c\<lparr>st_key_runs := runs\<rparr>) s = Some ids" using r by (simp add: cp_keys_def)
  show "store_grows c (c\<lparr>st_key_runs := runs\<rparr>)" using r by (simp add: store_grows_def)
  show "compactor_inv (c\<lparr>st_key_runs := runs\<rparr>)"
    using assms(2) r by (simp add: compactor_inv_def cp_key_name_def cp_constant_def)
qed

lemma alloc_args_inv:
  assumes "alloc_run refs (st_args c) = Inr (s, args)" "compactor_inv c"
  shows "compactor_inv (c\<lparr>st_args := args\<rparr>)" "store_grows c (c\<lparr>st_args := args\<rparr>)"
    "cp_args (c\<lparr>st_args := args\<rparr>) s = Some refs"
proof -
  have "length (st_args c) \<le> U16_MAX" using assms(2) by (simp add: compactor_inv_def)
  with alloc_run_spec [OF assms(1)] alloc_run_bound [OF assms(1)] have
    r: "args = st_args c @ refs" "arena_get_slice args s = Some refs" "length args \<le> U16_MAX" by auto
  show "cp_args (c\<lparr>st_args := args\<rparr>) s = Some refs" using r by (simp add: cp_args_def)
  show "store_grows c (c\<lparr>st_args := args\<rparr>)" using r by (simp add: store_grows_def)
  show "compactor_inv (c\<lparr>st_args := args\<rparr>)"
    using assms(2) r by (simp add: compactor_inv_def cp_key_name_def cp_constant_def)
qed

lemma intern_keys_spec:
  assumes "intern_keys ks c = Inr (s, c')" "compactor_inv c"
  obtains ids where "compactor_inv c'" "store_grows c c'" "cp_keys c' s = Some ids" "map (cp_key_name c') ids = map Some ks"
proof -
  obtain ids c1 runs where e: "eval_args intern_key ks c = Inr (ids, c1)"
    and r: "alloc_run ids (st_key_runs c1) = Inr (s, runs)" and c': "c' = c1\<lparr>st_key_runs := runs\<rparr>"
    using assms(1) by (auto simp: intern_keys_def bind_res_Inr_iff)
  have l: "lasting (\<lambda>c i k. cp_key_name (c :: 'a compactor) i = Some k)"
    unfolding lasting_def using store_grows_get(4) by blast
  have 1: "compactor_inv c1" "store_grows c c1" "list_all2 (\<lambda>i k. cp_key_name c1 i = Some k) ids ks"
    using eval_args_steps [OF l _ e assms(2)] intern_key_steps by auto
  note 2 = alloc_run_inv [OF r 1(1), folded c']
  have "list_all2 (\<lambda>i k. cp_key_name c' i = Some k) ids ks"
    using 1(3) store_grows_get(4) [OF 2(2)] by (auto elim: list_all2_mono)
  then have "map (cp_key_name c') ids = map Some ks" by (induction ids ks rule: list_all2_induct) auto
  with 1 2 show thesis using that store_grows_trans by blast
qed

lemma push_table_spec:
  assumes "push_table t c = Inr (i, c')" "compactor_inv c"
  shows "compactor_inv c'" "store_grows c c'" "cp_switch_table c' i = Some t"
proof -
  have c': "c' = c\<lparr>st_tables := st_tables c @ [t]\<rparr>" "i = of_nat (length (st_tables c))" "length (st_tables c) \<le> U16_MAX"
    using assms(1) by (auto simp: push_table_def split: if_splits)
  then show "store_grows c c'" "cp_switch_table c' i = Some t" by (simp_all add: store_grows_def cp_switch_table_def push_pool)
  show "compactor_inv c'" using assms(2) by (simp add: c'(1) compactor_inv_def cp_key_name_def cp_constant_def)
qed

section \<open>Compaction represents the tree\<close>

lemma lasting_reps: "lasting (\<lambda>c n e. reps (c :: 'x compactor) n e)"
  unfolding lasting_def using reps_grows by blast

lemma compact_run_spec:
  assumes "compact_run (compact_expr P) es c = Inr (s, c')" "compactor_inv c" "\<forall>e \<in> set es. steps (compact_expr P) reps e"
  obtains refs where "compactor_inv c'" "store_grows c c'" "cp_args c' s = Some refs" "list_all2 (reps c') refs es"
    "spans c c' (zip refs es)"
proof -
  obtain refs c1 args where e: "eval_args (compact_expr P) es c = Inr (refs, c1)"
    and r: "alloc_run refs (st_args c1) = Inr (s, args)" and c': "c' = c1\<lparr>st_args := args\<rparr>"
    using assms(1) by (auto simp: compact_run_def bind_res_Inr_iff)
  have 1: "compactor_inv c1" "store_grows c c1" "list_all2 (reps c1) refs es"
    using eval_args_steps [OF lasting_reps assms(3) e assms(2)] by auto
  note 2 = alloc_args_inv [OF r 1(1), folded c']
  have "list_all2 (reps c') refs es" using 1(3) reps_grows [OF _ 2(2)] by (auto elim: list_all2_mono)
  moreover have "spans c c' (zip refs es)" by (rule spans_cong [OF eval_args_spans [OF e]]) (simp add: c')
  ultimately show thesis using that 1 2 store_grows_trans by blast
qed

lemma compact_binds_spec:
  "compact_binds (compact_expr P) us c body = Inr (n, c') \<Longrightarrow> compactor_inv c \<Longrightarrow>
   \<forall>e \<in> snd ` set us. steps (compact_expr P) reps e \<Longrightarrow> reps c body (EBlock ss r) \<Longrightarrow> unat body + 1 = length (st_nodes c) \<Longrightarrow>
   compactor_inv c' \<and> store_grows c c' \<and> reps c' n (EBlock (rev us @ ss) r)"
proof (induction us arbitrary: c body ss)
  case (Cons p us)
  obtain x e where p: "p = (x, e)" by fastforce
  then obtain v c1 body' c2 where v: "compact_expr P e c = Inr (v, c1)" and b: "alloc_node (NBind x v body) c1 = Inr (body', c2)"
    and rest: "compact_binds (compact_expr P) us c2 body' = Inr (n, c')"
    using Cons.prems(1) by (auto simp: bind_res_Inr_iff)
  have st: "steps (compact_expr P) reps e" using Cons.prems(3) p by simp
  note 1 = stepsD [OF st v Cons.prems(2)] and 2 = alloc_node_spec [OF b stepsD(1) [OF st v Cons.prems(2)]]
  have "reps c2 body' (EBlock ((x, e) # ss) r)"
    using 2(3) reps_grows [OF 1(3) 2(2)] reps_grows [OF Cons.prems(4) store_grows_trans [OF 1(2) 2(2)]]
      tiled_bind [OF Cons.prems(5) v b] by (rule reps_bind)
  moreover have "\<forall>e \<in> snd ` set us. steps (compact_expr P) reps e" using Cons.prems(3) by simp
  moreover have "unat body' + 1 = length (st_nodes c2)" using alloc_node_pos(2) [OF b] by simp
  ultimately have IH: "compactor_inv c'" "store_grows c2 c'" "reps c' n (EBlock (rev us @ (x, e) # ss) r)"
    using Cons.IH [OF rest 2(1)] by blast+
  have "store_grows c c'" using 1(2) 2(2) IH(2) store_grows_trans by blast
  then show ?case using IH p by simp
qed simp

lemma or_insert_distinct: "distinct_keys P entries \<Longrightarrow> or_insert_all P entries = entries"
proof -
  have "foldl (\<lambda>m p. if list_ex (\<lambda>q. key_eq P (fst q) (fst p)) m then m else m @ [p]) m ps = m @ ps"
    if "distinct_keys P (m @ ps)" for m ps :: "('a key \<times> node_ref) list"
    using that
  proof (induction ps arbitrary: m)
    case (Cons p ps)
    have "\<not> list_ex (\<lambda>q. key_eq P (fst q) (fst p)) m"
      using Cons.prems by (auto simp: distinct_keys_def sorted_wrt_append list_ex_iff)
    then show ?case using Cons.IH [of "m @ [p]"] Cons.prems by simp
  qed simp
  from this [of "[]" entries] show "distinct_keys P entries \<Longrightarrow> or_insert_all P entries = entries"
    by (simp add: or_insert_all_def)
qed

lemma distinct_keys_map: "map fst xs = map fst ys \<Longrightarrow> distinct_keys P xs \<longleftrightarrow> distinct_keys P ys"
proof -
  assume "map fst xs = map fst ys"
  then have "sorted_wrt (\<lambda>a b. \<not> key_eq P a b) (map fst xs) \<longleftrightarrow> sorted_wrt (\<lambda>a b. \<not> key_eq P a b) (map fst ys)" by simp
  then show ?thesis by (simp add: distinct_keys_def sorted_wrt_map)
qed

lemma leaf_steps:
  assumes "\<And>c. compact_expr P e c = alloc_node node c" "\<And>(c :: 'x compactor) n. cp_node c n = Some node \<Longrightarrow> reps c n e"
  shows "steps (compact_expr P) reps e"
  by (rule stepsI) (simp add: assms(1), blast intro: alloc_node_spec assms(2))

lemma unary_steps:
  assumes "\<And>c. compact_expr P e c = bind_res (compact_expr P a c) (\<lambda>(i, c1). alloc_node (mk i) c1)"
    and "steps (compact_expr P) reps a" "\<And>(c :: 'x compactor) n i. cp_node c n = Some (mk i) \<Longrightarrow> reps c i a \<Longrightarrow> tiled n e [(i, a)] \<Longrightarrow> reps c n e"
  shows "steps (compact_expr P) reps e"
proof (rule stepsI)
  fix c n c'
  assume whole: "compact_expr P e c = Inr (n, c')" and inv: "compactor_inv c"
  then obtain i c1 where i: "compact_expr P a c = Inr (i, c1)" "alloc_node (mk i) c1 = Inr (n, c')"
    using assms(1) by (auto simp: bind_res_Inr_iff)
  note 1 = stepsD [OF assms(2) i(1) inv]
  note 2 = alloc_node_spec [OF i(2) 1(1)]
  show "compactor_inv c' \<and> store_grows c c' \<and> reps c' n e"
    using 2 assms(3) [OF 2(3) reps_grows [OF 1(3) 2(2)] spans_tiled [OF whole i(2) compact_expr_spans [OF i(1)]]]
      store_grows_trans [OF 1(2) 2(2)] by blast
qed

lemma binary_steps:
  assumes "\<And>c. compact_expr P e c = bind_res (compact_expr P a c) (\<lambda>(i, c1). bind_res (compact_expr P b c1) (\<lambda>(j, c2). alloc_node (mk i j) c2))"
    and "steps (compact_expr P) reps a" "steps (compact_expr P) reps b"
    and "\<And>(c :: 'x compactor) n i j. cp_node c n = Some (mk i j) \<Longrightarrow> reps c i a \<Longrightarrow> reps c j b \<Longrightarrow>
      tiled n e [(i, a), (j, b)] \<Longrightarrow> reps c n e"
  shows "steps (compact_expr P) reps e"
proof (rule stepsI)
  fix c n c'
  assume whole: "compact_expr P e c = Inr (n, c')" and inv: "compactor_inv c"
  then obtain i c1 j c2 where i: "compact_expr P a c = Inr (i, c1)" and j: "compact_expr P b c1 = Inr (j, c2)"
    and n: "alloc_node (mk i j) c2 = Inr (n, c')"
    using assms(1) by (auto simp: bind_res_Inr_iff)
  note 1 = stepsD [OF assms(2) i inv]
  note 2 = stepsD [OF assms(3) j 1(1)]
  note 3 = alloc_node_spec [OF n 2(1)]
  have "tiled n e [(i, a), (j, b)]"
    using spans_tiled [OF whole n spans_append [OF compact_expr_spans [OF i] compact_expr_spans [OF j]]] by simp
  then have "reps c' n e"
    using assms(4) [OF 3(3)] reps_grows [OF 1(3) store_grows_trans [OF 2(2) 3(2)]] reps_grows [OF 2(3) 3(2)] by blast
  then show "compactor_inv c' \<and> store_grows c c' \<and> reps c' n e"
    using 3(1) store_grows_trans [OF 1(2) store_grows_trans [OF 2(2) 3(2)]] by blast
qed

lemma run_steps:
  assumes "\<And>c. compact_expr P e c = bind_res (compact_run (compact_expr P) es c) (\<lambda>(s, c1). alloc_node (mk s) c1)"
    and "\<forall>a \<in> set es. steps (compact_expr P) reps a"
    and "\<And>(c :: 'x compactor) n s refs. cp_node c n = Some (mk s) \<Longrightarrow> cp_args c s = Some refs \<Longrightarrow>
      list_all2 (reps c) refs es \<Longrightarrow> tiled n e (zip refs es) \<Longrightarrow> reps c n e"
  shows "steps (compact_expr P) reps e"
proof (rule stepsI)
  fix c n c'
  assume whole: "compact_expr P e c = Inr (n, c')" and inv: "compactor_inv c"
  then obtain s c1 where s: "compact_run (compact_expr P) es c = Inr (s, c1)" and n: "alloc_node (mk s) c1 = Inr (n, c')"
    using assms(1) by (auto simp: bind_res_Inr_iff)
  obtain refs where 1: "compactor_inv c1" "store_grows c c1" "cp_args c1 s = Some refs" "list_all2 (reps c1) refs es"
    "spans c c1 (zip refs es)"
    by (rule compact_run_spec [OF s inv assms(2)])
  note 2 = alloc_node_spec [OF n 1(1)]
  have "list_all2 (reps c') refs es" using 1(4) reps_grows [OF _ 2(2)] by (auto elim: list_all2_mono)
  then have "reps c' n e" using assms(3) [OF 2(3) store_grows_get(2) [OF 2(2) 1(3)]] spans_tiled [OF whole n 1(5)] by blast
  then show "compactor_inv c' \<and> store_grows c c' \<and> reps c' n e"
    using 2(1) store_grows_trans [OF 1(2) 2(2)] by blast
qed

lemma object_steps:
  assumes "\<forall>a \<in> set (map snd es). steps (compact_expr P) reps a"
  shows "steps (compact_expr P) reps (EObject es)"
proof (rule stepsI)
  fix c n c'
  assume whole: "compact_expr P (EObject es) c = Inr (n, c')" and inv: "compactor_inv c"
  from this(1) obtain s c1 ks c2 where s: "compact_run (compact_expr P) (map snd es) c = Inr (s, c1)"
    and k: "intern_keys (map fst es) c1 = Inr (ks, c2)" and n: "alloc_node (NObject ks s) c2 = Inr (n, c')"
    by (auto simp: bind_res_Inr_iff)
  obtain refs where 1: "compactor_inv c1" "store_grows c c1" "cp_args c1 s = Some refs" "list_all2 (reps c1) refs (map snd es)"
    "spans c c1 (zip refs (map snd es))"
    by (rule compact_run_spec [OF s inv assms])
  obtain ids where 2: "compactor_inv c2" "store_grows c1 c2" "cp_keys c2 ks = Some ids"
    "map (cp_key_name c2) ids = map Some (map fst es)"
    by (rule intern_keys_spec [OF k 1(1)])
  note 3 = alloc_node_spec [OF n 2(1)]
  have g: "store_grows c1 c'" using 2(2) 3(2) store_grows_trans by blast
  have "list_all2 (reps c') refs (map snd es)" using 1(4) reps_grows [OF _ g] by (rule list_all2_mono)
  moreover have "map (cp_key_name c') ids = map (\<lambda>p. Some (fst p)) es"
    using 2(4) by (intro key_names_grow [OF 3(2)]) (simp add: comp_def)
  moreover have "tiled n (EObject es) (zip refs (map snd es))"
    using allots_spans [OF intern_keys_nodes [OF k] 1(5)] by (rule spans_tiled [OF whole n])
  ultimately have "reps c' n (EObject es)"
    using 3(3) store_grows_get(2) [OF g 1(3)] store_grows_get(3) [OF 3(2) 2(3)] reps_object by blast
  then show "compactor_inv c' \<and> store_grows c c' \<and> reps c' n (EObject es)"
    using 3(1) store_grows_trans [OF 1(2) g] by blast
qed

lemma switch_steps:
  assumes "\<forall>a \<in> set (ins @ map snd table @ [d]). steps (compact_expr P) reps a" "distinct_keys P table"
  shows "steps (compact_expr P) reps (ESwitch ins table d)"
proof (rule stepsI)
  fix c n c'
  assume whole: "compact_expr P (ESwitch ins table d) c = Inr (n, c')" and inv: "compactor_inv c"
  from this(1) obtain refs c1 k c2 s c3 t c4 where r: "eval_args (compact_expr P) (map snd table) c = Inr (refs, c1)"
    and k: "compact_expr P d c1 = Inr (k, c2)" and s: "compact_run (compact_expr P) ins c2 = Inr (s, c3)"
    and t: "push_table \<lparr>table_map = or_insert_all P (zip (map fst table) refs), table_key_arity = length ins mod 256\<rparr> c3 = Inr (t, c4)"
    and n: "alloc_node (NSwitch s t k) c4 = Inr (n, c')"
    by (auto simp: bind_res_Inr_iff)
  have 1: "compactor_inv c1" "store_grows c c1" "list_all2 (reps c1) refs (map snd table)"
    using eval_args_steps [OF lasting_reps _ r inv] assms(1) by auto
  have sd: "steps (compact_expr P) reps d" using assms(1) by auto
  note 2 = stepsD [OF sd k 1(1)]
  have ins: "\<forall>a \<in> set ins. steps (compact_expr P) reps a" using assms(1) by auto
  obtain irefs where 3: "compactor_inv c3" "store_grows c2 c3" "cp_args c3 s = Some irefs" "list_all2 (reps c3) irefs ins"
    "spans c2 c3 (zip irefs ins)"
    by (rule compact_run_spec [OF s 2(1) ins])
  note 4 = push_table_spec [OF t 3(1)]
  note 5 = alloc_node_spec [OF n 4(1)]
  have g3: "store_grows c3 c'" using 4(2) 5(2) store_grows_trans by blast
  have g2: "store_grows c2 c'" using 3(2) g3 store_grows_trans by blast
  have g1: "store_grows c1 c'" using 2(2) g2 store_grows_trans by blast
  have len: "length refs = length table" using 1(3) by (auto dest: list_all2_lengthD)
  have "distinct_keys P (zip (map fst table) refs)"
    using assms(2) distinct_keys_map [of "zip (map fst table) refs" table P] len by simp
  then have "or_insert_all P (zip (map fst table) refs) = zip (map fst table) refs" by (rule or_insert_distinct)
  moreover have "list_all2 (reps c') refs (map snd table)" using 1(3) reps_grows [OF _ g1] by (rule list_all2_mono)
  then have "list_all2 (\<lambda>q q'. fst q = fst q' \<and> reps c' (snd q) (snd q')) (zip (map fst table) refs) table"
    using len by (auto simp: list_all2_conv_all_nth)
  moreover have "list_all2 (reps c') irefs ins" using 3(4) reps_grows [OF _ g3] by (rule list_all2_mono)
  moreover have "tiled n (ESwitch ins table d) (zip (map snd (zip (map fst table) refs)) (map snd table) @ [(k, d)] @ zip irefs ins)"
  proof -
    have "spans c c3 (zip refs (map snd table) @ [(k, d)] @ zip irefs ins)"
      by (rule spans_append [OF eval_args_spans [OF r] spans_append [OF compact_expr_spans [OF k] 3(5)]])
    from spans_tiled [OF whole n allots_spans [OF push_table_nodes [OF t] this]] show ?thesis using len by simp
  qed
  ultimately have "reps c' n (ESwitch ins table d)"
    by (intro reps_switch [OF 5(3) store_grows_get(2) [OF g3 3(3)] _ store_grows_get(6) [OF 5(2) 4(3)] _ reps_grows [OF 2(3) g2]])
      simp_all
  then show "compactor_inv c' \<and> store_grows c c' \<and> reps c' n (ESwitch ins table d)"
    using 5(1) store_grows_trans [OF 1(2) g1] by blast
qed

lemma if_steps:
  assumes "\<forall>a \<in> set [a, t, e]. steps (compact_expr P) reps a"
  shows "steps (compact_expr P) reps (EIf a t e)"
proof (rule stepsI)
  fix c n c'
  assume whole: "compact_expr P (EIf a t e) c = Inr (n, c')" and inv: "compactor_inv c"
  from this(1) obtain i c1 j c2 k c3 where i: "compact_expr P a c = Inr (i, c1)" and j: "compact_expr P t c1 = Inr (j, c2)"
    and k: "compact_expr P e c2 = Inr (k, c3)" and n: "alloc_node (NIf i j k) c3 = Inr (n, c')"
    by (auto simp: bind_res_Inr_iff)
  have st: "steps (compact_expr P) reps a" "steps (compact_expr P) reps t" "steps (compact_expr P) reps e"
    using assms by simp_all
  note 1 = stepsD [OF st(1) i inv]
  note 2 = stepsD [OF st(2) j 1(1)]
  note 3 = stepsD [OF st(3) k 2(1)]
  note 4 = alloc_node_spec [OF n 3(1)]
  have g2: "store_grows c2 c'" using 3(2) 4(2) store_grows_trans by blast
  have g1: "store_grows c1 c'" using 2(2) g2 store_grows_trans by blast
  have "tiled n (EIf a t e) ([(i, a)] @ [(j, t)] @ [(k, e)])"
    by (intro spans_tiled [OF whole n] spans_append) (rule compact_expr_spans [OF i] compact_expr_spans [OF j] compact_expr_spans [OF k])+
  then have "tiled n (EIf a t e) [(i, a), (j, t), (k, e)]" by simp
  from reps_if [OF 4(3) reps_grows [OF 1(3) g1] reps_grows [OF 2(3) g2] reps_grows [OF 3(3) 4(2)] this]
  show "compactor_inv c' \<and> store_grows c c' \<and> reps c' n (EIf a t e)"
    using 4(1) store_grows_trans [OF 1(2) g1] by blast
qed

lemma multi_if_steps:
  assumes "\<forall>a \<in> set (concat (map (\<lambda>(a, v). [a, v]) bs)). steps (compact_expr P) reps a" "steps (compact_expr P) reps d"
  shows "steps (compact_expr P) reps (EMultiIf bs d)"
proof (rule stepsI)
  fix c n c'
  assume whole: "compact_expr P (EMultiIf bs d) c = Inr (n, c')" and inv: "compactor_inv c"
  from this(1) obtain s c1 k c2 where s: "compact_run (compact_expr P) (concat (map (\<lambda>(a, v). [a, v]) bs)) c = Inr (s, c1)"
    and k: "compact_expr P d c1 = Inr (k, c2)" and n: "alloc_node (NMultiIf s k) c2 = Inr (n, c')"
    by (auto simp: bind_res_Inr_iff)
  obtain refs where 1: "compactor_inv c1" "store_grows c c1" "cp_args c1 s = Some refs"
    "list_all2 (reps c1) refs (concat (map (\<lambda>(a, v). [a, v]) bs))"
    "spans c c1 (zip refs (concat (map (\<lambda>(a, v). [a, v]) bs)))"
    by (rule compact_run_spec [OF s inv assms(1)])
  note 2 = stepsD [OF assms(2) k 1(1)]
  note 3 = alloc_node_spec [OF n 2(1)]
  have g: "store_grows c1 c'" using 2(2) 3(2) store_grows_trans by blast
  have "list_all2 (reps c') refs (concat (map (\<lambda>(a, v). [a, v]) bs))" using 1(4) reps_grows [OF _ g] by (rule list_all2_mono)
  from reps_multi_if [OF 3(3) store_grows_get(2) [OF g 1(3)] this reps_grows [OF 2(3) 3(2)]
    spans_tiled [OF whole n spans_append [OF 1(5) compact_expr_spans [OF k]]]]
  show "compactor_inv c' \<and> store_grows c c' \<and> reps c' n (EMultiIf bs d)"
    using 3(1) store_grows_trans [OF 1(2) g] by blast
qed

lemma const_steps:
  assumes "exact_customs P"
  shows "steps (compact_expr P) reps (EConst v)"
proof (rule stepsI)
  fix c n c'
  assume "compact_expr P (EConst v) c = Inr (n, c')" and inv: "compactor_inv c"
  then obtain i c1 where i: "intern_const P v c = Inr (i, c1)" and n: "alloc_node (NConst i) c1 = Inr (n, c')"
    by (auto simp: bind_res_Inr_iff)
  note 1 = intern_const_spec [OF i inv assms]
  note 2 = alloc_node_spec [OF n 1(1)]
  show "compactor_inv c' \<and> store_grows c c' \<and> reps c' n (EConst v)"
    using 2(1) store_grows_trans [OF 1(2) 2(2)] reps_const [OF 2(3) store_grows_get(5) [OF 2(2) 1(3)]] by blast
qed

lemma assert_steps:
  assumes "exact_customs P" "steps (compact_expr P) reps e"
  shows "steps (compact_expr P) reps (ETypeAssert e cls y)"
proof (rule stepsI)
  fix c n c'
  assume whole: "compact_expr P (ETypeAssert e cls y) c = Inr (n, c')" and inv: "compactor_inv c"
  from this(1) obtain i c1 cy c2 where i: "compact_expr P e c = Inr (i, c1)" and y: "compact_on_present P y c1 = Inr (cy, c2)"
    and n: "alloc_node (NTypeAssert i cls cy) c2 = Inr (n, c')"
    by (auto simp: bind_res_Inr_iff)
  note 1 = stepsD [OF assms(2) i inv]
  note tiled = spans_tiled [OF whole n allots_spans [OF compact_on_present_nodes [OF y] compact_expr_spans [OF i]]]
  show "compactor_inv c' \<and> store_grows c c' \<and> reps c' n (ETypeAssert e cls y)"
  proof (cases y)
    case YieldIdentity
    with y have cy: "cy = CYieldIdentity" "c2 = c1" by (simp_all add: compact_on_present_def)
    note 2 = alloc_node_spec [OF n [unfolded cy] 1(1)]
    show ?thesis
      using 2(1) store_grows_trans [OF 1(2) 2(2)] reps_assert [OF 2(3) reps_grows [OF 1(3) 2(2)] tiled [unfolded YieldIdentity]] YieldIdentity by blast
  next
    case (YieldConst v)
    with y obtain j where j: "intern_const P v c1 = Inr (j, c2)" and cy: "cy = CYieldConst j"
      by (auto simp: compact_on_present_def bind_res_Inr_iff)
    note 2 = intern_const_spec [OF j 1(1) assms(1)]
    note 3 = alloc_node_spec [OF n [unfolded cy] 2(1)]
    have g: "store_grows c1 c'" using 2(2) 3(2) store_grows_trans by blast
    show ?thesis
      using 3(1) store_grows_trans [OF 1(2) g] YieldConst
        reps_assert_const [OF 3(3) store_grows_get(5) [OF 3(2) 2(3)] reps_grows [OF 1(3) g] tiled [unfolded YieldConst]] by blast
  qed
qed

lemma block_steps:
  assumes "\<forall>a \<in> insert r (snd ` set ss). steps (compact_expr P) reps a"
  shows "steps (compact_expr P) reps (EBlock ss r)"
proof (rule stepsI)
  fix c n c'
  assume "compact_expr P (EBlock ss r) c = Inr (n, c')" and inv: "compactor_inv c"
  then obtain body c1 where b: "compact_expr P r c = Inr (body, c1)" and n: "compact_binds (compact_expr P) (rev ss) c1 body = Inr (n, c')"
    by (auto simp: bind_res_Inr_iff)
  have sr: "steps (compact_expr P) reps r" using assms by simp
  note 1 = stepsD [OF sr b inv]
  have "compactor_inv c' \<and> store_grows c1 c' \<and> reps c' n (EBlock (rev (rev ss) @ []) r)"
    by (rule compact_binds_spec [OF n 1(1) _ reps_block [OF 1(3)] compact_expr_root [OF b]]) (use assms in simp)
  then show "compactor_inv c' \<and> store_grows c c' \<and> reps c' n (EBlock ss r)"
    using store_grows_trans [OF 1(2)] by auto
qed

lemma compact_expr_steps:
  assumes "exact_customs (env_prim E)"
  shows "compactable E rc e \<Longrightarrow> steps (compact_expr (env_prim E)) reps e"
proof (induction e rule: measure_induct_rule [where f = size])
  case (less e)
  have ok: "node_ok E rc e" and sub: "\<forall>c \<in> set (children e). steps (compact_expr (env_prim E)) reps c"
    using less compactable_step [of E rc e] children_size by blast+
  show ?case
  proof (cases e)
    case (EMultiIf bs d)
    then show ?thesis using sub by (auto intro!: multi_if_steps)
  next
    case (ESwitch ins table d)
    then show ?thesis using sub ok by (auto intro!: switch_steps simp: node_ok_def)
  qed (use sub ok in \<open>auto intro!: const_steps [OF assms] assert_steps [OF assms] block_steps if_steps object_steps
     intro: leaf_steps unary_steps binary_steps run_steps reps.intros simp: node_ok_def\<close>)
qed

section \<open>Programs\<close>

text \<open>The compacted program represents the program it was made from.\<close>

definition represents :: "'x compact_program \<Rightarrow> 'x opt_program \<Rightarrow> bool" where
  "represents cp prog \<longleftrightarrow>
     list_all2 (\<lambda>q q'. fst q = fst q' \<and> reps cp (snd q) (snd q')) (cp_statements cp) (prog_statements prog) \<and>
     reps cp (cp_result cp) (prog_result prog) \<and> cp_register_count cp = prog_register_count prog \<and>
     sorted_wrt (\<lambda>q q'. seg (fst q) (snd q) \<inter> seg (fst q') (snd q') = {})
       (zip (map snd (cp_statements cp)) (map snd (prog_statements prog)) @ [(cp_result cp, prog_result prog)])"

lemma compact_represents:
  assumes "compact (env_prim E) prog = Inr cp" "program_ok E prog" "exact_customs (env_prim E)"
  shows "represents cp prog"
proof -
  obtain refs c1 result c2 where r: "eval_args (compact_expr (env_prim E)) (map snd (prog_statements prog)) compactor_create = Inr (refs, c1)"
    and e: "compact_expr (env_prim E) (prog_result prog) c1 = Inr (result, c2)"
    and cp: "cp_statements cp = zip (map fst (prog_statements prog)) refs" "cp_result cp = result"
      "cp_register_count cp = prog_register_count prog"
    and st: "st_nodes cp = st_nodes c2" "st_args cp = st_args c2" "st_key_runs cp = st_key_runs c2"
      "st_key_pool cp = st_key_pool c2" "st_consts cp = st_consts c2" "st_tables cp = st_tables c2"
    using assms(1) by (auto simp: compact_def bind_res_Inr_iff)
  have steps: "\<forall>e \<in> set (prog_result prog # map snd (prog_statements prog)). steps (compact_expr (env_prim E)) reps e"
    using assms(2) compact_expr_steps [OF assms(3)] unfolding program_ok_def list_all_iff by blast
  have 1: "compactor_inv c1" "list_all2 (reps c1) refs (map snd (prog_statements prog))"
    using eval_args_steps [OF lasting_reps _ r] steps by auto
  have sr: "steps (compact_expr (env_prim E)) reps (prog_result prog)" using steps by simp
  note 2 = stepsD [OF sr e 1(1)]
  have g: "store_grows c2 cp" by (simp add: store_grows_def st)
  have g1: "store_grows c1 cp" using 2(2) g by (rule store_grows_trans)
  have "list_all2 (reps cp) refs (map snd (prog_statements prog))" using 1(2) reps_grows [OF _ g1] by (rule list_all2_mono)
  moreover from this have "length refs = length (prog_statements prog)" by (auto dest: list_all2_lengthD)
  moreover have "spans compactor_create c2 (zip refs (map snd (prog_statements prog)) @ [(result, prog_result prog)])"
    using eval_args_spans [OF r] compact_expr_spans [OF e] by (rule spans_append)
  ultimately show ?thesis
    using reps_grows [OF 2(3) g] unfolding represents_def cp spans_def by (auto simp: list_all2_conv_all_nth)
qed

text \<open>
  C33: Compaction preserves meaning. The arena program that \<open>Compactor::compact\<close> produces, run by
  the arena evaluator with its inline operands, register file, interned constants and hash
  tables, returns on every row exactly the result (value or error) of the tree program, or
  stops with \<open>NestingTooDeep\<close> when the tree is deeper than the evaluator's limit. Hypotheses: what the
  converter guarantees of a program (\<open>program_ok\<close>: registers in range, a register passed to a
  call not bound inside the call, arities in range, no \<open>Field\<close> node left, distinct switch
  keys), connector values that compare equal are interchangeable (\<open>exact_customs\<close>), and
  functions keep the contract of their argument window (\<open>windows_ok\<close>).
\<close>

theorem compact_correct:
  assumes "compact (env_prim E) prog = Inr cp" "program_ok E prog" "exact_customs (env_prim E)" "windows_ok E"
  shows "evaluate E cp w = run_program E prog w \<or> \<not> program_shallow prog \<and> evaluate E cp w = Inl NestingTooDeep"
  using evaluate_agree [of cp prog E w] compact_represents [OF assms(1-3)] assms(2,4)
  unfolding represents_def agree_def by blast

lemma two_values: "length vs = 2 \<longleftrightarrow> (\<exists>a b. vs = [a, b])"
  by (auto simp: numeral_2_eq_2 length_Suc_conv)

lemma builtin_windows: "window_ok not_func" "window_ok (equals_func P)" "window_ok (divide_func P A)"
proof -
  show "window_ok not_func"
    by (auto simp: window_ok_def arity_ok_def not_func_def not_window_def length_Suc_conv le_Suc_eq)
  show "window_ok (equals_func P)"
    by (auto simp: window_ok_def arity_ok_def equals_func_def equals_window_def two_values dest!: order.antisym)
  have "divide_evaluate P A [a, b] = Inr VNull" if "is_null a \<or> is_null b" for a b
    using that by (simp add: divide_evaluate_def)
  then show "window_ok (divide_func P A)"
    by (auto simp: window_ok_def arity_ok_def divide_func_def divide_window_def two_values dest!: order.antisym)
qed

lemma windows_ok_row: "windows_ok (row_env row)"
  by (simp add: windows_ok_def row_env_def builtins_def builtin_windows)

text \<open>\<open>{ r0 = 7; [ifnull(r0, x), r0 == 7, 7] }\<close>, whose equal constants share a slot.\<close>

definition compact_sample :: "num_payload opt_program" where
  "compact_sample =
     \<lparr> prog_statements = [(0, EConst (VInt64 7))],
       prog_result = EArray [EIfNull (ERegister 0) (ESourceField ''x''),
         ECall 1 [ERegister 0, EConst (VInt64 7)], EConst (VInt64 7)],
       prog_register_count = 1 \<rparr>"

lemma exact_customs_num_ops: "exact_customs num_ops"
  by (auto simp: exact_customs_def compare_scalar_def num_ops_def split: if_splits num_payload.splits)

lemma compact_sample_compacts: "\<exists>cp. compact num_ops compact_sample = Inr cp \<and> length (st_consts cp) = 1 \<and> length (st_nodes cp) = 9"
  by (simp add: compact_sample_def compact_def compactor_create_def intern_const_def push_const_def alloc_node_def
    compact_run_def arena_alloc_def alloc_run_def open_slice_def slice_push_def U16_MAX_def exact_dedup_key_def
    same_dedup_key_def key_from_value_def key_single_def ok_option_def canonicalise_def key_eq_def eq_element_def compare_values_scalar cmp_some_def)

lemma compact_sample_ok: "program_ok (row_env row) compact_sample" "program_shallow compact_sample"
  by (simp_all add: compact_sample_def program_ok_def program_shallow_def compactable_def scan.simps node_ok_def writes.simps arity_ok_def row_env_def equals_func_def
    shallow_def levels.simps max_list_def MAX_EXPR_DEPTH_def)

theorem compact_correct_witness:
  "\<exists>cp. compact num_ops compact_sample = Inr cp \<and> length (st_consts cp) = 1 \<and>
     evaluate (row_env (\<lambda>_. VNull)) cp () = Inr (VArray [VInt64 7, VBool True, VInt64 7], ())"
proof -
  let ?E = "row_env (\<lambda>_. VNull)"
  have P: "env_prim ?E = num_ops" by (simp add: row_env_def)
  obtain cp where cp: "compact num_ops compact_sample = Inr cp" "length (st_consts cp) = 1"
    using compact_sample_compacts by blast
  have "evaluate ?E cp () = run_program ?E compact_sample ()"
    using compact_correct [of ?E compact_sample cp "()"] cp(1) compact_sample_ok exact_customs_num_ops windows_ok_row P by auto
  also have "\<dots> = Inr (VArray [VInt64 7, VBool True, VInt64 7], ())"
    by (simp add: run_program_def compact_sample_def row_env_def eval_if_null_def call_function_def equals_func_def
      equals_evaluate_def fun_upd_def values_equal_def compare_values_scalar cmp_some_def)
  finally show ?thesis using cp by blast
qed

end
