(* ===== verification/CompactSize.thy ===== *)
theory CompactSize
  imports CompactProps
begin

text \<open>
  When compaction succeeds: exactly when the program has at most \<open>u16::MAX\<close> arena nodes. The
  argument arena, the key runs, the key pool, the constant pool and the switch tables never
  fill up before the node arena does.
\<close>

section \<open>The arena nodes of a program\<close>

definition program_size :: "'x opt_program \<Rightarrow> nat" where
  "program_size prog = sum_list (map arena_size (map snd (prog_statements prog))) + arena_size (prog_result prog)"

section \<open>Room\<close>

text \<open>Every other table is at most as long as the node arena.\<close>

definition room :: "'x compactor \<Rightarrow> bool" where
  "room c \<longleftrightarrow>
     length (st_args c) \<le> length (st_nodes c) \<and> length (st_key_runs c) \<le> length (st_nodes c) \<and>
     length (st_key_pool c) \<le> length (st_nodes c) \<and> length (st_consts c) \<le> length (st_nodes c) \<and>
     length (st_tables c) \<le> length (st_nodes c)"

text \<open>A step allocates \<open>n\<close> nodes and leaves \<open>a\<close> argument slots and \<open>k\<close> key slots unused of as many.\<close>

definition fills :: "nat \<Rightarrow> nat \<Rightarrow> nat \<Rightarrow> 'x compactor \<Rightarrow> 'x compactor \<Rightarrow> bool" where
  "fills a k n c c' \<longleftrightarrow>
     length (st_nodes c') = length (st_nodes c) + n \<and> length (st_args c') + a \<le> length (st_args c) + n \<and>
     length (st_key_runs c') + k \<le> length (st_key_runs c) + n \<and> length (st_key_pool c') + k \<le> length (st_key_pool c) + n \<and>
     length (st_consts c') \<le> length (st_consts c) + n \<and> length (st_tables c') \<le> length (st_tables c) + n"

definition fits :: "('a \<Rightarrow> 'x compactor \<Rightarrow> arena_error + 'r \<times> 'x compactor) \<Rightarrow> ('a \<Rightarrow> nat) \<Rightarrow> 'a \<Rightarrow> bool" where
  "fits f N e \<longleftrightarrow>
     (\<forall>c. room c \<longrightarrow> length (st_nodes c) + N e \<le> U16_MAX \<longrightarrow> (\<exists>x c'. f e c = Inr (x, c') \<and> fills 1 1 (N e) c c'))"

lemma room_fills: "room c \<Longrightarrow> fills a k n c c' \<Longrightarrow> room c'"
  by (auto simp: room_def fills_def)

lemma fitsD:
  assumes "fits f N e" "room c" "length (st_nodes c) + N e \<le> U16_MAX"
  obtains x c' where "f e c = Inr (x, c')" "fills 1 1 (N e) c c'"
  using assms unfolding fits_def by blast

lemma fits_args:
  "\<forall>e \<in> set es. fits f N e \<Longrightarrow> room c \<Longrightarrow> length (st_nodes c) + sum_list (map N es) \<le> U16_MAX \<Longrightarrow>
   \<exists>xs c'. eval_args f es c = Inr (xs, c') \<and> length xs = length es \<and> fills (length es) (length es) (sum_list (map N es)) c c'"
proof (induction es arbitrary: c)
  case (Cons e es)
  then have e: "fits f N e" and le: "length (st_nodes c) + N e \<le> U16_MAX" by simp_all
  obtain x c1 where 1: "f e c = Inr (x, c1)" "fills 1 1 (N e) c c1" by (rule fitsD [OF e Cons.prems(2) le])
  have "length (st_nodes c1) + sum_list (map N es) \<le> U16_MAX" using 1(2) Cons.prems(3) by (simp add: fills_def)
  then obtain xs c' where 2: "eval_args f es c1 = Inr (xs, c')" "length xs = length es"
    "fills (length es) (length es) (sum_list (map N es)) c1 c'"
    using Cons.IH [of c1] Cons.prems(1) room_fills [OF Cons.prems(2) 1(2)] by auto
  moreover have "fills (length (e # es)) (length (e # es)) (sum_list (map N (e # es))) c c'"
    using 1(2) 2(3) by (auto simp: fills_def)
  ultimately show ?case using 1(1) by simp
qed (simp add: fills_def)

lemma alloc_node_fits: "length (st_nodes c) < U16_MAX \<Longrightarrow> \<exists>n. alloc_node node c = Inr (n, c\<lparr>st_nodes := st_nodes c @ [node]\<rparr>)"
  using arena_alloc_ok [of "st_nodes c" node] by (auto simp: alloc_node_def)

lemma run_fits:
  assumes "\<forall>e \<in> set es. fits f N e" "room c" "length (st_nodes c) + sum_list (map N es) \<le> U16_MAX"
  obtains s c' where "compact_run f es c = Inr (s, c')" "fills 0 (length es) (sum_list (map N es)) c c'"
proof -
  obtain xs c1 where 1: "eval_args f es c = Inr (xs, c1)" "length xs = length es"
    "fills (length es) (length es) (sum_list (map N es)) c c1"
    using fits_args [OF assms] by blast
  have "length (st_args c1) + length xs \<le> U16_MAX" using assms(2,3) 1(2,3) by (auto simp: fills_def room_def)
  then obtain s where "alloc_run xs (st_args c1) = Inr (s, st_args c1 @ xs)" using alloc_run_ok by blast
  then have "compact_run f es c = Inr (s, c1\<lparr>st_args := st_args c1 @ xs\<rparr>)" using 1(1) by (simp add: compact_run_def)
  moreover have "fills 0 (length es) (sum_list (map N es)) c (c1\<lparr>st_args := st_args c1 @ xs\<rparr>)"
    using 1(2,3) by (simp add: fills_def)
  ultimately show thesis by (rule that)
qed

lemma push_const_fits: "length (st_consts c) \<le> U16_MAX \<Longrightarrow> \<exists>i. push_const v c = Inr (i, c\<lparr>st_consts := st_consts c @ [v]\<rparr>)"
  by (simp add: push_const_def)

lemma intern_const_fits:
  assumes "room c" "length (st_nodes c) \<le> U16_MAX"
  shows "\<exists>i c'. intern_const P v c = Inr (i, c') \<and> st_nodes c' = st_nodes c \<and> st_args c' = st_args c \<and>
    st_key_runs c' = st_key_runs c \<and> st_key_pool c' = st_key_pool c \<and> st_tables c' = st_tables c \<and>
    length (st_consts c') \<le> Suc (length (st_consts c))"
proof -
  have "length (st_consts c) \<le> U16_MAX" using assms by (simp add: room_def)
  then obtain i where "push_const v c = Inr (i, c\<lparr>st_consts := st_consts c @ [v]\<rparr>)" using push_const_fits by blast
  then show ?thesis by (auto simp: intern_const_def split: option.splits)
qed

lemma intern_key_fits:
  assumes "length (st_key_pool c) \<le> U16_MAX"
  shows "\<exists>i c'. intern_key key c = Inr (i, c') \<and> st_nodes c' = st_nodes c \<and> st_args c' = st_args c \<and>
    st_key_runs c' = st_key_runs c \<and> st_consts c' = st_consts c \<and> st_tables c' = st_tables c \<and>
    length (st_key_pool c') \<le> Suc (length (st_key_pool c))"
  using assms by (auto simp: intern_key_def Let_def split: option.splits)

lemma intern_key_list_fits:
  "length (st_key_pool c) + length ks \<le> U16_MAX \<Longrightarrow>
   \<exists>ids c'. eval_args intern_key ks c = Inr (ids, c') \<and> length ids = length ks \<and> st_nodes c' = st_nodes c \<and>
     st_args c' = st_args c \<and> st_key_runs c' = st_key_runs c \<and> st_consts c' = st_consts c \<and> st_tables c' = st_tables c \<and>
     length (st_key_pool c') \<le> length (st_key_pool c) + length ks"
proof (induction ks arbitrary: c)
  case (Cons k ks)
  then obtain i c1 where 1: "intern_key k c = Inr (i, c1)" "st_nodes c1 = st_nodes c" "st_args c1 = st_args c"
    "st_key_runs c1 = st_key_runs c" "st_consts c1 = st_consts c" "st_tables c1 = st_tables c"
    "length (st_key_pool c1) \<le> Suc (length (st_key_pool c))"
    using intern_key_fits [of c k] by auto
  have "length (st_key_pool c1) + length ks \<le> U16_MAX" using 1(7) Cons.prems by simp
  from Cons.IH [OF this] show ?case using 1 by fastforce
qed simp

lemma intern_keys_fits:
  assumes "room c" "fills 0 (length ks) n c c1" "length (st_nodes c) + n \<le> U16_MAX"
  shows "\<exists>s c'. intern_keys ks c1 = Inr (s, c') \<and> fills 0 0 n c c'"
proof -
  have le: "length (st_key_pool c1) + length ks \<le> U16_MAX" "length (st_key_runs c1) + length ks \<le> U16_MAX"
    using assms by (auto simp: room_def fills_def)
  obtain ids c2 where 1: "eval_args intern_key ks c1 = Inr (ids, c2)" "length ids = length ks" "st_nodes c2 = st_nodes c1"
    "st_args c2 = st_args c1" "st_key_runs c2 = st_key_runs c1" "st_consts c2 = st_consts c1" "st_tables c2 = st_tables c1"
    "length (st_key_pool c2) \<le> length (st_key_pool c1) + length ks"
    using intern_key_list_fits [OF le(1)] by blast
  obtain s where "alloc_run ids (st_key_runs c2) = Inr (s, st_key_runs c2 @ ids)"
    using alloc_run_ok [of "st_key_runs c2" ids] le(2) 1 by auto
  then have "intern_keys ks c1 = Inr (s, c2\<lparr>st_key_runs := st_key_runs c2 @ ids\<rparr>)" using 1(1) by (simp add: intern_keys_def)
  moreover have "fills 0 0 n c (c2\<lparr>st_key_runs := st_key_runs c2 @ ids\<rparr>)" using 1 assms(2) by (simp add: fills_def)
  ultimately show ?thesis by blast
qed

section \<open>Success\<close>

lemma alloc_last:
  assumes "fills 0 0 n c c1" "length (st_nodes c) + Suc n \<le> U16_MAX"
  shows "\<exists>r c'. alloc_node node c1 = Inr (r, c') \<and> fills 1 1 (Suc n) c c'"
proof -
  have "length (st_nodes c1) < U16_MAX" using assms by (simp add: fills_def)
  then show ?thesis using alloc_node_fits [of c1 node] assms(1) by (auto simp: fills_def)
qed

lemma fills_trans: "fills a k n c c1 \<Longrightarrow> fills a' k' n' c1 c2 \<Longrightarrow> fills (a + a') (k + k') (n + n') c c2"
  by (auto simp: fills_def)

lemma fills_weaken: "fills a k n c c' \<Longrightarrow> fills 0 0 n c c'"
  by (auto simp: fills_def)

lemma leaf_fits: "(\<And>c. compact_expr P e c = alloc_node node c) \<Longrightarrow> arena_size e = 1 \<Longrightarrow> fits (compact_expr P) arena_size e"
  using alloc_last [of 0 c c node for c :: "'a compactor"] by (auto simp: fits_def fills_def)

lemma args_fits:
  fixes P :: "'x prim_ops"
  assumes "\<And>c. compact_expr P e c = bind_res (eval_args (compact_expr P) es c) (\<lambda>(xs, c1). alloc_node (mk xs) c1)"
    and "\<forall>a \<in> set es. fits (compact_expr P) arena_size a" "arena_size e = Suc (sum_list (map arena_size es))"
  shows "fits (compact_expr P) arena_size e"
  unfolding fits_def assms(3)
proof (intro allI impI)
  fix c :: "'x compactor"
  assume r: "room c" and le: "length (st_nodes c) + Suc (sum_list (map arena_size es)) \<le> U16_MAX"
  then obtain xs c1 where 1: "eval_args (compact_expr P) es c = Inr (xs, c1)"
    "fills (length es) (length es) (sum_list (map arena_size es)) c c1"
    using fits_args [OF assms(2) r] by auto
  from alloc_last [OF fills_weaken [OF 1(2)] le, of "mk xs"] 1(1)
  show "\<exists>n c'. compact_expr P e c = Inr (n, c') \<and> fills 1 1 (Suc (sum_list (map arena_size es))) c c'"
    unfolding assms(1) by auto
qed

lemma run_node_fits:
  fixes P :: "'x prim_ops"
  assumes "\<And>c. compact_expr P e c = bind_res (compact_run (compact_expr P) es c) (\<lambda>(s, c1). alloc_node (mk s) c1)"
    and "\<forall>a \<in> set es. fits (compact_expr P) arena_size a" "arena_size e = Suc (sum_list (map arena_size es))"
  shows "fits (compact_expr P) arena_size e"
  unfolding fits_def assms(3)
proof (intro allI impI)
  fix c :: "'x compactor"
  assume r: "room c" and le: "length (st_nodes c) + Suc (sum_list (map arena_size es)) \<le> U16_MAX"
  then have le': "length (st_nodes c) + sum_list (map arena_size es) \<le> U16_MAX" by simp
  obtain s c1 where 1: "compact_run (compact_expr P) es c = Inr (s, c1)" "fills 0 (length es) (sum_list (map arena_size es)) c c1"
    by (rule run_fits [OF assms(2) r le'])
  from alloc_last [OF fills_weaken [OF 1(2)] le, of "mk s"] 1(1)
  show "\<exists>n c'. compact_expr P e c = Inr (n, c') \<and> fills 1 1 (Suc (sum_list (map arena_size es))) c c'"
    unfolding assms(1) by auto
qed

lemma if_fits:
  assumes "\<forall>a \<in> set [a, t, e]. fits (compact_expr P) arena_size a"
  shows "fits (compact_expr P) arena_size (EIf a t e)"
  by (rule args_fits [OF _ assms, where mk = "\<lambda>xs. NIf (xs ! 0) (xs ! 1) (xs ! 2)"])
    (auto simp: bind_res_def arena_size.simps [of "EIf a t e"] split: sum.splits)

lemma object_fits:
  fixes P :: "'x prim_ops"
  assumes "\<forall>a \<in> set (map snd es). fits (compact_expr P) arena_size a"
  shows "fits (compact_expr P) arena_size (EObject es)"
  unfolding fits_def
proof (intro allI impI)
  fix c :: "'x compactor"
  let ?n = "sum_list (map arena_size (map snd es))"
  assume r: "room c" and "length (st_nodes c) + arena_size (EObject es) \<le> U16_MAX"
  then have le: "length (st_nodes c) + Suc ?n \<le> U16_MAX" by (simp add: arena_size.simps [of "EObject es"])
  then have le': "length (st_nodes c) + ?n \<le> U16_MAX" by simp
  obtain s c1 where 1: "compact_run (compact_expr P) (map snd es) c = Inr (s, c1)" "fills 0 (length (map snd es)) ?n c c1"
    by (rule run_fits [OF assms r le'])
  then have "fills 0 (length (map fst es)) ?n c c1" by simp
  from intern_keys_fits [OF r this le'] obtain ks c2 where 2: "intern_keys (map fst es) c1 = Inr (ks, c2)" "fills 0 0 ?n c c2"
    by blast
  from alloc_last [OF 2(2) le, of "NObject ks s"] 1(1) 2(1)
  show "\<exists>n c'. compact_expr P (EObject es) c = Inr (n, c') \<and> fills 1 1 (arena_size (EObject es)) c c'"
    by (auto simp: arena_size.simps [of "EObject es"])
qed

lemma multi_if_fits:
  fixes P :: "'x prim_ops"
  assumes "\<forall>a \<in> set (concat (map (\<lambda>(a, v). [a, v]) bs)). fits (compact_expr P) arena_size a" "fits (compact_expr P) arena_size d"
  shows "fits (compact_expr P) arena_size (EMultiIf bs d)"
  unfolding fits_def
proof (intro allI impI)
  fix c :: "'x compactor"
  let ?es = "concat (map (\<lambda>(a, v). [a, v]) bs)"
  let ?n = "sum_list (map arena_size ?es)"
  assume r: "room c" and "length (st_nodes c) + arena_size (EMultiIf bs d) \<le> U16_MAX"
  then have le: "length (st_nodes c) + Suc (?n + arena_size d) \<le> U16_MAX" by (simp add: arena_size.simps [of "EMultiIf bs d"])
  then have le': "length (st_nodes c) + ?n \<le> U16_MAX" by simp
  obtain s c1 where 1: "compact_run (compact_expr P) ?es c = Inr (s, c1)" "fills 0 (length ?es) ?n c c1"
    by (rule run_fits [OF assms(1) r le'])
  have "length (st_nodes c1) + arena_size d \<le> U16_MAX" using 1(2) le by (simp add: fills_def)
  then obtain k c2 where 2: "compact_expr P d c1 = Inr (k, c2)" "fills 1 1 (arena_size d) c1 c2"
    using fitsD [OF assms(2) room_fills [OF r 1(2)]] by blast
  from alloc_last [OF fills_weaken [OF fills_trans [OF 1(2) 2(2)]] le, of "NMultiIf s k"] 1(1) 2(1)
  show "\<exists>n c'. compact_expr P (EMultiIf bs d) c = Inr (n, c') \<and> fills 1 1 (arena_size (EMultiIf bs d)) c c'"
    by (auto simp: arena_size.simps [of "EMultiIf bs d"])
qed

lemma push_table_fits:
  "length (st_tables c) \<le> U16_MAX \<Longrightarrow> \<exists>i. push_table t c = Inr (i, c\<lparr>st_tables := st_tables c @ [t]\<rparr>)"
  by (simp add: push_table_def)

lemma switch_fits:
  fixes P :: "'x prim_ops"
  assumes "\<forall>a \<in> set (ins @ map snd table @ [d]). fits (compact_expr P) arena_size a"
  shows "fits (compact_expr P) arena_size (ESwitch ins table d)"
  unfolding fits_def
proof (intro allI impI)
  fix c :: "'x compactor"
  let ?b = "sum_list (map arena_size (map snd table))" and ?i = "sum_list (map arena_size ins)"
  have ar: "arena_size (ESwitch ins table d) = Suc (?b + arena_size d + ?i)" by (simp add: arena_size.simps [of "ESwitch ins table d"])
  assume r: "room c" and "length (st_nodes c) + arena_size (ESwitch ins table d) \<le> U16_MAX"
  then have le: "length (st_nodes c) + Suc (?b + arena_size d + ?i) \<le> U16_MAX" by (simp only: ar)
  have sub: "\<forall>a \<in> set (map snd table). fits (compact_expr P) arena_size a" "fits (compact_expr P) arena_size d"
    "\<forall>a \<in> set ins. fits (compact_expr P) arena_size a"
    using assms by simp_all
  obtain refs c1 where 1: "eval_args (compact_expr P) (map snd table) c = Inr (refs, c1)"
    "fills (length table) (length table) ?b c c1"
    using fits_args [OF sub(1) r] le by auto
  have "length (st_nodes c1) + arena_size d \<le> U16_MAX" using 1(2) le by (simp add: fills_def)
  then obtain k c2 where 2: "compact_expr P d c1 = Inr (k, c2)" "fills 1 1 (arena_size d) c1 c2"
    using fitsD [OF sub(2) room_fills [OF r 1(2)]] by blast
  note f2 = fills_trans [OF 1(2) 2(2)]
  have le2: "length (st_nodes c2) + ?i \<le> U16_MAX" using f2 le by (simp add: fills_def)
  obtain s c3 where 3: "compact_run (compact_expr P) ins c2 = Inr (s, c3)" "fills 0 (length ins) ?i c2 c3"
    by (rule run_fits [OF sub(3) room_fills [OF r f2] le2])
  note f3 = fills_trans [OF f2 3(2)]
  let ?t = "\<lparr>table_map = or_insert_all P (zip (map fst table) refs), table_key_arity = length ins mod 256\<rparr>"
  have "length (st_tables c3) \<le> U16_MAX" "length (st_nodes c3) < U16_MAX" using f3 r le by (auto simp: fills_def room_def)
  then obtain t n where 4: "push_table ?t c3 = Inr (t, c3\<lparr>st_tables := st_tables c3 @ [?t]\<rparr>)"
    "alloc_node (NSwitch s t k) (c3\<lparr>st_tables := st_tables c3 @ [?t]\<rparr>) =
       Inr (n, c3\<lparr>st_tables := st_tables c3 @ [?t], st_nodes := st_nodes c3 @ [NSwitch s t k]\<rparr>)"
    using push_table_fits [of c3 ?t] alloc_node_fits [of "c3\<lparr>st_tables := st_tables c3 @ [?t]\<rparr>"] by fastforce
  show "\<exists>n c'. compact_expr P (ESwitch ins table d) c = Inr (n, c') \<and> fills 1 1 (arena_size (ESwitch ins table d)) c c'"
    using 1(1) 2(1) 3(1) 4 f3 unfolding ar by (auto simp: fills_def)
qed

lemma intern_last:
  assumes "room c" "fills 0 0 n c c1" "length (st_nodes c) + Suc n \<le> U16_MAX" "room c1"
  shows "\<exists>i c2 r c'. intern_const P v c1 = Inr (i, c2) \<and> alloc_node (mk i) c2 = Inr (r, c') \<and> fills 1 1 (Suc n) c c'"
proof -
  have "length (st_nodes c1) < U16_MAX" using assms(2,3) by (simp add: fills_def)
  moreover obtain i c2 where 1: "intern_const P v c1 = Inr (i, c2)" "st_nodes c2 = st_nodes c1" "st_args c2 = st_args c1"
    "st_key_runs c2 = st_key_runs c1" "st_key_pool c2 = st_key_pool c1" "st_tables c2 = st_tables c1"
    "length (st_consts c2) \<le> Suc (length (st_consts c1))"
    using intern_const_fits [OF assms(4)] calculation by (meson less_imp_le)
  ultimately obtain r where "alloc_node (mk i) c2 = Inr (r, c2\<lparr>st_nodes := st_nodes c2 @ [mk i]\<rparr>)"
    using alloc_node_fits [of c2 "mk i"] by auto
  moreover have "fills 1 1 (Suc n) c (c2\<lparr>st_nodes := st_nodes c2 @ [mk i]\<rparr>)" using 1 assms(2) by (simp add: fills_def)
  ultimately show ?thesis using 1(1) by blast
qed

lemma const_fits: "fits (compact_expr P) arena_size (EConst v)"
  unfolding fits_def
proof (intro allI impI)
  fix c :: "'a compactor"
  assume r: "room c" "length (st_nodes c) + arena_size (EConst v) \<le> U16_MAX"
  then obtain i c2 n c' where "intern_const P v c = Inr (i, c2)" "alloc_node (NConst i) c2 = Inr (n, c')" "fills 1 1 (Suc 0) c c'"
    using intern_last [of c 0 c P v NConst] by (auto simp: fills_def arena_size.simps [of "EConst v"])
  then show "\<exists>n c'. compact_expr P (EConst v) c = Inr (n, c') \<and> fills 1 1 (arena_size (EConst v)) c c'"
    by (simp add: arena_size.simps [of "EConst v"])
qed

lemma assert_fits:
  fixes P :: "'x prim_ops"
  assumes "fits (compact_expr P) arena_size e"
  shows "fits (compact_expr P) arena_size (ETypeAssert e cls y)"
  unfolding fits_def
proof (intro allI impI)
  fix c :: "'x compactor"
  have ar: "arena_size (ETypeAssert e cls y) = Suc (arena_size e)" by (simp add: arena_size.simps [of "ETypeAssert e cls y"])
  assume r: "room c" and "length (st_nodes c) + arena_size (ETypeAssert e cls y) \<le> U16_MAX"
  then have le: "length (st_nodes c) + Suc (arena_size e) \<le> U16_MAX" by (simp only: ar)
  obtain i c1 where 1: "compact_expr P e c = Inr (i, c1)" "fills 1 1 (arena_size e) c c1"
    using fitsD [OF assms r] le by auto
  note f1 = fills_weaken [OF 1(2)]
  show "\<exists>n c'. compact_expr P (ETypeAssert e cls y) c = Inr (n, c') \<and> fills 1 1 (arena_size (ETypeAssert e cls y)) c c'"
  proof (cases y)
    case YieldIdentity
    then show ?thesis using alloc_last [OF f1 le, of "NTypeAssert i cls CYieldIdentity"] 1(1)
      unfolding ar by (auto simp: compact_on_present_def)
  next
    case (YieldConst v)
    then show ?thesis using intern_last [OF r f1 le room_fills [OF r f1], of P v "\<lambda>j. NTypeAssert i cls (CYieldConst j)"] 1(1)
      unfolding ar by (fastforce simp: compact_on_present_def)
  qed
qed

lemma binds_fits:
  "\<forall>e \<in> snd ` set ss. fits f N e \<Longrightarrow> room c \<Longrightarrow> length (st_nodes c) + (length ss + sum_list (map N (map snd ss))) \<le> U16_MAX \<Longrightarrow>
   \<exists>n c'. compact_binds f ss c body = Inr (n, c') \<and> fills 0 0 (length ss + sum_list (map N (map snd ss))) c c'"
proof (induction ss arbitrary: c body)
  case (Cons p ss)
  obtain x e where p: "p = (x, e)" by fastforce
  let ?m = "length ss + sum_list (map N (map snd ss))"
  have e: "fits f N e" and le: "length (st_nodes c) + Suc (N e + ?m) \<le> U16_MAX" using Cons.prems p by simp_all
  obtain v c1 where 1: "f e c = Inr (v, c1)" "fills 1 1 (N e) c c1" using fitsD [OF e Cons.prems(2)] le by auto
  obtain b c2 where 2: "alloc_node (NBind x v body) c1 = Inr (b, c2)" "fills 1 1 (Suc (N e)) c c2"
    using alloc_last [OF fills_weaken [OF 1(2)], of "NBind x v body"] le by auto
  have "length (st_nodes c2) + ?m \<le> U16_MAX" using 2(2) le by (simp add: fills_def)
  then obtain n c' where 3: "compact_binds f ss c2 b = Inr (n, c')" "fills 0 0 ?m c2 c'"
    using Cons.IH [of c2 b] Cons.prems(1) room_fills [OF Cons.prems(2) 2(2)] by auto
  have "fills 0 0 (Suc (N e) + ?m) c c'" using fills_weaken [OF fills_trans [OF 2(2) 3(2)]] .
  then show ?case using 1(1) 2(1) 3(1) p by (simp add: add.assoc add.left_commute)
qed (simp add: fills_def)

lemma block_fits:
  fixes P :: "'x prim_ops"
  assumes "\<forall>a \<in> insert r (snd ` set ss). fits (compact_expr P) arena_size a"
  shows "fits (compact_expr P) arena_size (EBlock ss r)"
  unfolding fits_def
proof (intro allI impI)
  fix c :: "'x compactor"
  let ?m = "length (rev ss) + sum_list (map arena_size (map snd (rev ss)))"
  have ar: "arena_size (EBlock ss r) = arena_size r + ?m"
    by (simp add: arena_size.simps [of "EBlock ss r"] rev_map [symmetric] sum_list_rev)
  assume rm: "room c" and "length (st_nodes c) + arena_size (EBlock ss r) \<le> U16_MAX"
  then have le: "length (st_nodes c) + (arena_size r + ?m) \<le> U16_MAX" by (simp only: ar)
  have r: "fits (compact_expr P) arena_size r" using assms by simp
  obtain b c1 where 1: "compact_expr P r c = Inr (b, c1)" "fills 1 1 (arena_size r) c c1" using fitsD [OF r rm] le by auto
  have "length (st_nodes c1) + ?m \<le> U16_MAX" using 1(2) le by (simp add: fills_def)
  then obtain n c' where 2: "compact_binds (compact_expr P) (rev ss) c1 b = Inr (n, c')" "fills 0 0 ?m c1 c'"
    using binds_fits [of "rev ss" "compact_expr P" arena_size c1 b] assms room_fills [OF rm 1(2)] by auto
  show "\<exists>n c'. compact_expr P (EBlock ss r) c = Inr (n, c') \<and> fills 1 1 (arena_size (EBlock ss r)) c c'"
    using 1(1) 2(1) fills_trans [OF 1(2) 2(2)] unfolding ar by simp
qed

lemma compact_expr_fits: "fits (compact_expr P) arena_size e"
proof (induction e rule: measure_induct_rule [where f = size])
  case (less e)
  have sub: "\<forall>c \<in> set (children e). fits (compact_expr P) arena_size c" using less children_size by blast
  have ar: "arena_size e = (case e of EBlock ss _ \<Rightarrow> length ss | _ \<Rightarrow> 1) + sum_list (map arena_size (children e))"
    by (rule arena_size.simps)
  show ?case
  proof (cases e)
    case (EField x)
    then show ?thesis using sub ar
      by (intro args_fits [of P e "[x]" "\<lambda>xs. NField (xs ! 0)"]) (auto simp: bind_res_def split: sum.splits)
  next
    case (EIfNull x y)
    then show ?thesis using sub ar
      by (intro args_fits [of P e "[x, y]" "\<lambda>xs. NIfNull (xs ! 0) (xs ! 1)"]) (auto simp: bind_res_def split: sum.splits)
  next
    case (ENullIf x y)
    then show ?thesis using sub ar
      by (intro args_fits [of P e "[x, y]" "\<lambda>xs. NNullIf (xs ! 0) (xs ! 1)"]) (auto simp: bind_res_def split: sum.splits)
  next
    case (EAnd x y)
    then show ?thesis using sub ar
      by (intro args_fits [of P e "[x, y]" "\<lambda>xs. NAnd (xs ! 0) (xs ! 1)"]) (auto simp: bind_res_def split: sum.splits)
  next
    case (EOr x y)
    then show ?thesis using sub ar
      by (intro args_fits [of P e "[x, y]" "\<lambda>xs. NOr (xs ! 0) (xs ! 1)"]) (auto simp: bind_res_def split: sum.splits)
  next
    case (EMultiIf bs d)
    then show ?thesis using sub by (auto intro!: multi_if_fits)
  qed (use sub ar in \<open>auto intro!: const_fits assert_fits block_fits if_fits object_fits switch_fits intro: leaf_fits run_node_fits\<close>)
qed

section \<open>Success and failure\<close>

lemma compactor_create_room: "room compactor_create" "length (st_nodes compactor_create) = 0"
  by (simp_all add: room_def compactor_create_def)

lemma compact_fits:
  fixes P :: "'x prim_ops"
  assumes "program_size prog \<le> U16_MAX"
  shows "\<exists>cp. compact P prog = Inr cp"
proof -
  let ?ss = "map snd (prog_statements prog)"
  obtain refs c1 where 1: "eval_args (compact_expr P) ?ss compactor_create = Inr (refs, c1)"
    "fills (length ?ss) (length ?ss) (sum_list (map arena_size ?ss)) compactor_create c1"
    using fits_args [of ?ss "compact_expr P" arena_size compactor_create] compact_expr_fits compactor_create_room assms
    unfolding program_size_def by (metis add.left_neutral add_leD1)
  have "length (st_nodes c1) + arena_size (prog_result prog) \<le> U16_MAX"
    using 1(2) assms by (simp add: fills_def program_size_def compactor_create_room(2))
  then obtain n c2 where "compact_expr P (prog_result prog) c1 = Inr (n, c2)"
    using fitsD [OF compact_expr_fits room_fills [OF compactor_create_room(1) 1(2)]] by blast
  with 1(1) show ?thesis by (simp add: compact_def)
qed

lemma compact_nodes:
  assumes "compact P prog = Inr cp"
  shows "length (st_nodes cp) = program_size prog" "program_size prog \<le> U16_MAX"
proof -
  obtain refs c1 n c2 where 1: "eval_args (compact_expr P) (map snd (prog_statements prog)) compactor_create = Inr (refs, c1)"
    "compact_expr P (prog_result prog) c1 = Inr (n, c2)" "st_nodes cp = st_nodes c2"
    using assms by (auto simp: compact_def bind_res_Inr_iff)
  have "allots (program_size prog) compactor_create c2"
    unfolding program_size_def by (rule allots_trans [OF eval_args_allots [OF compact_expr_allots 1(1)] compact_expr_allots [OF 1(2)]])
  then show "length (st_nodes cp) = program_size prog" "program_size prog \<le> U16_MAX"
    using 1(3) unfolding allots_def compactor_create_room(2) by simp_all
qed


end
