(* ===== verification/LiveSet.thy ===== *)
theory LiveSet
  imports Prelude
begin

text \<open>
  The set of live registers of the move annotator (\<open>LiveSet\<close> in
  \<open>crates/expr/optimize/src/engines/move_annotator.rs\<close>): one bit per register, in 64-bit words.
  An index past the words panics (\<open>None\<close>). The annotator relies on the locale \<open>register_set\<close>
  only; the bit set is shown to provide it.
\<close>

unbundle bit_operations_syntax

type_synonym live_set = "u64 list"

definition live_new :: "u16 \<Rightarrow> live_set" where
  "live_new register_count = replicate ((unat register_count + 63) div 64) 0"

definition live_position :: "u16 \<Rightarrow> nat \<times> nat" where
  "live_position register = (unat register div 64, unat register mod 64)"

definition live_contains :: "live_set \<Rightarrow> u16 \<Rightarrow> bool option" where
  "live_contains words register =
     (let (w, b) = live_position register
      in if w < length words then Some (words ! w AND push_bit b 1 \<noteq> 0) else None)"

definition live_insert :: "live_set \<Rightarrow> u16 \<Rightarrow> live_set option" where
  "live_insert words register =
     (let (w, b) = live_position register
      in if w < length words then Some (words[w := words ! w OR push_bit b 1]) else None)"

definition live_remove :: "live_set \<Rightarrow> u16 \<Rightarrow> live_set option" where
  "live_remove words register =
     (let (w, b) = live_position register
      in if w < length words then Some (words[w := words ! w AND NOT (push_bit b 1)]) else None)"

text \<open>\<open>union_with\<close>: over the words both sets have.\<close>

fun live_union :: "live_set \<Rightarrow> live_set \<Rightarrow> live_set" where
  "live_union (a # words) (b # other) = (a OR b) # live_union words other"
| "live_union words other = words"

section \<open>The contract\<close>

locale register_set =
  fixes limit :: u16 and is_set :: "'s \<Rightarrow> bool" and members :: "'s \<Rightarrow> u16 set"
    and empty_set :: 's and contains :: "'s \<Rightarrow> u16 \<Rightarrow> bool option"
    and add :: "'s \<Rightarrow> u16 \<Rightarrow> 's option" and delete :: "'s \<Rightarrow> u16 \<Rightarrow> 's option" and join :: "'s \<Rightarrow> 's \<Rightarrow> 's"
  assumes empty_ok: "is_set empty_set" "members empty_set = {}"
    and contains_ok: "is_set s \<Longrightarrow> r < limit \<Longrightarrow> contains s r = Some (r \<in> members s)"
    and add_ok: "is_set s \<Longrightarrow> r < limit \<Longrightarrow> \<exists>s'. add s r = Some s' \<and> is_set s' \<and> members s' = insert r (members s)"
    and delete_ok: "is_set s \<Longrightarrow> r < limit \<Longrightarrow> \<exists>s'. delete s r = Some s' \<and> is_set s' \<and> members s' = members s - {r}"
    and join_ok: "is_set s \<Longrightarrow> is_set t \<Longrightarrow> is_set (join s t)" "is_set s \<Longrightarrow> is_set t \<Longrightarrow> members (join s t) = members s \<union> members t"
begin

lemma delete_undoes_add:
  assumes "is_set s" "r < limit" "r \<notin> members s"
  shows "\<exists>s' s''. add s r = Some s' \<and> delete s' r = Some s'' \<and> members s'' = members s"
proof -
  obtain s' where s': "add s r = Some s'" "is_set s'" "members s' = insert r (members s)" using add_ok assms by blast
  moreover obtain s'' where "delete s' r = Some s''" "members s'' = members s' - {r}" using delete_ok assms(2) s'(2) by blast
  ultimately show ?thesis using assms(3) by auto
qed

end

section \<open>The bit set keeps it\<close>

definition live_invar :: "u16 \<Rightarrow> live_set \<Rightarrow> bool" where
  "live_invar register_count words \<longleftrightarrow> length words = (unat register_count + 63) div 64"

definition live_members :: "live_set \<Rightarrow> u16 set" where
  "live_members words = {r. unat r div 64 < length words \<and> bit (words ! (unat r div 64)) (unat r mod 64)}"

lemma mask_bit: "b < 64 \<Longrightarrow> bit (push_bit b 1 :: u64) j \<longleftrightarrow> j = b"
  by (auto simp: bit_exp_iff)

lemma and_mask_zero:
  fixes w :: u64
  assumes "b < 64"
  shows "w AND push_bit b 1 \<noteq> 0 \<longleftrightarrow> bit w b"
proof
  show "bit w b" if "w AND push_bit b 1 \<noteq> 0"
  proof (rule ccontr)
    assume "\<not> bit w b"
    then have "w AND push_bit b 1 = 0" by (intro bit_eqI) (use mask_bit [OF assms] in \<open>auto simp: bit_and_iff simp del: push_bit_of_1\<close>)
    with that show False by simp
  qed
  show "w AND push_bit b 1 \<noteq> 0" if "bit w b"
  proof
    assume "w AND push_bit b 1 = 0"
    then have "\<not> bit (w AND push_bit b 1) b" by simp
    then show False using that mask_bit [OF assms] by (simp add: bit_and_iff)
  qed
qed

lemma or_mask_bit: "b < 64 \<Longrightarrow> bit (w OR push_bit b 1) j \<longleftrightarrow> bit w j \<or> j = b" for w :: u64
  using mask_bit [of b j] by (simp only: bit_or_iff)

lemma and_not_mask_bit: "b < 64 \<Longrightarrow> bit (w AND NOT (push_bit b 1)) j \<longleftrightarrow> bit w j \<and> j \<noteq> b" for w :: u64
  using mask_bit [of b j] bit_imp_le_length [of w j] by (auto simp: bit_and_iff bit_not_iff)

lemma live_in_range: "r < rc \<Longrightarrow> live_invar rc words \<Longrightarrow> unat r div 64 < length words"
  unfolding live_invar_def word_less_nat_alt by simp

lemma same_bit: "unat r div 64 = unat s div 64 \<Longrightarrow> unat r mod 64 = unat s mod 64 \<Longrightarrow> r = s" for r s :: u16
  by (metis div_mult_mod_eq word_unat_eq_iff)

lemma live_union_length [simp]: "length (live_union words other) = length words"
  by (induction words other rule: live_union.induct) auto

lemma live_union_nth: "length words = length other \<Longrightarrow> i < length words \<Longrightarrow> live_union words other ! i = words ! i OR other ! i"
proof (induction words other arbitrary: i rule: live_union.induct)
  case (1 a words b other)
  then show ?case by (cases i) auto
qed auto

lemma live_insert_members:
  assumes "r < rc" "live_invar rc words"
  shows "\<exists>words'. live_insert words r = Some words' \<and> live_invar rc words' \<and> live_members words' = insert r (live_members words)"
proof -
  have r: "unat r div 64 < length words" by (rule live_in_range [OF assms])
  have "bit (words[unat r div 64 := words ! (unat r div 64) OR push_bit (unat r mod 64) 1] ! (unat s div 64)) (unat s mod 64) \<longleftrightarrow>
      s = r \<or> bit (words ! (unat s div 64)) (unat s mod 64)" if "unat s div 64 < length words" for s
    using that same_bit [of s r] by (cases "unat r div 64 = unat s div 64") (auto simp: or_mask_bit simp del: push_bit_of_1)
  then show ?thesis using r assms(2)
    by (auto simp: live_insert_def live_position_def live_invar_def live_members_def)
qed

lemma live_remove_members:
  assumes "r < rc" "live_invar rc words"
  shows "\<exists>words'. live_remove words r = Some words' \<and> live_invar rc words' \<and> live_members words' = live_members words - {r}"
proof -
  have r: "unat r div 64 < length words" by (rule live_in_range [OF assms])
  have "bit (words[unat r div 64 := words ! (unat r div 64) AND NOT (push_bit (unat r mod 64) 1)] ! (unat s div 64)) (unat s mod 64) \<longleftrightarrow>
      s \<noteq> r \<and> bit (words ! (unat s div 64)) (unat s mod 64)" if "unat s div 64 < length words" for s
    using that same_bit [of s r] by (cases "unat r div 64 = unat s div 64") (auto simp: and_not_mask_bit simp del: push_bit_of_1)
  then show ?thesis using r assms(2)
    by (auto simp: live_remove_def live_position_def live_invar_def live_members_def)
qed

interpretation live: register_set rc "live_invar rc" live_members "live_new rc" live_contains live_insert live_remove live_union for rc
proof
  show "live_invar rc (live_new rc)" by (simp add: live_invar_def live_new_def)
  show "live_members (live_new rc) = {}" by (auto simp: live_members_def live_new_def)
  show "live_contains words r = Some (r \<in> live_members words)" if "live_invar rc words" "r < rc" for words r
    using live_in_range [OF that(2,1)] by (simp add: live_contains_def live_position_def live_members_def and_mask_zero
      del: push_bit_of_1)
  show "\<exists>s'. live_insert words r = Some s' \<and> live_invar rc s' \<and> live_members s' = insert r (live_members words)"
    if "live_invar rc words" "r < rc" for words r
    using live_insert_members that by blast
  show "\<exists>s'. live_remove words r = Some s' \<and> live_invar rc s' \<and> live_members s' = live_members words - {r}"
    if "live_invar rc words" "r < rc" for words r
    using live_remove_members that by blast
  show "live_invar rc (live_union s t)" if "live_invar rc s" "live_invar rc t" for s t
    using that by (simp add: live_invar_def)
  show "live_members (live_union s t) = live_members s \<union> live_members t" if "live_invar rc s" "live_invar rc t" for s t
    using that by (auto simp: live_invar_def live_members_def live_union_nth bit_simps)
qed

end
