(* ===== verification/MoveAnnot.thy ===== *)
theory MoveAnnot
  imports CompactProps LiveSet
begin

text \<open>
  The move annotator (\<open>engines/move_annotator.rs\<close>): a backward liveness analysis over the arena
  program that turns the last read of a register into a move (\<open>RegisterTake\<close>). \<open>None\<close> is a
  panic (an index out of range) or the end of the fuel; fuel counts the nesting of calls.
\<close>

section \<open>The annotator\<close>

text \<open>\<open>count_register_reads\<close>; a \<open>u32\<close> count cannot overflow over at most 65535 nodes.\<close>

fun count_all :: "('n \<Rightarrow> nat list \<Rightarrow> nat list option) \<Rightarrow> 'n list \<Rightarrow> nat list \<Rightarrow> nat list option" where
  "count_all f [] counts = Some counts"
| "count_all f (n # ns) counts = Option.bind (f n counts) (count_all f ns)"

definition count_node ::
  "'x compact_program \<Rightarrow> (node_ref \<Rightarrow> nat list \<Rightarrow> nat list option) \<Rightarrow> opt_node \<Rightarrow> nat list \<Rightarrow> nat list option" where
  "count_node p f node counts =
     (let count_one = (\<lambda>r. if unat r < length counts then Some (counts[unat r := counts ! unat r + 1]) else None)
      in case node of
        NRegister r \<Rightarrow> count_one r
      | NRegisterTake r \<Rightarrow> count_one r
      | NConst _ \<Rightarrow> Some counts
      | NSourceField _ \<Rightarrow> Some counts
      | NFields _ \<Rightarrow> Some counts
      | NField i \<Rightarrow> f i counts
      | NTypeAssert i _ _ \<Rightarrow> f i counts
      | NCall _ sl \<Rightarrow> Option.bind (cp_args p sl) (\<lambda>refs. count_all f refs counts)
      | NInterpolation sl \<Rightarrow> Option.bind (cp_args p sl) (\<lambda>refs. count_all f refs counts)
      | NArray sl \<Rightarrow> Option.bind (cp_args p sl) (\<lambda>refs. count_all f refs counts)
      | NObject _ sl \<Rightarrow> Option.bind (cp_args p sl) (\<lambda>refs. count_all f refs counts)
      | NNullIf a b \<Rightarrow> count_all f [a, b] counts
      | NAnd a b \<Rightarrow> count_all f [a, b] counts
      | NOr a b \<Rightarrow> count_all f [a, b] counts
      | NIfNull a b \<Rightarrow> count_all f [a, b] counts
      | NIf a b c \<Rightarrow> count_all f [a, b, c] counts
      | NMultiIf sl d \<Rightarrow> Option.bind (cp_args p sl) (\<lambda>refs. count_all f (refs @ [d]) counts)
      | NSwitch sl t d \<Rightarrow>
          Option.bind (cp_args p sl) (\<lambda>refs. Option.bind (cp_switch_table p t) (\<lambda>table.
            count_all f (refs @ map snd (table_map table) @ [d]) counts))
      | NBind _ v b \<Rightarrow> count_all f [v, b] counts)"

fun count_register_reads :: "'x compact_program \<Rightarrow> nat \<Rightarrow> node_ref \<Rightarrow> nat list \<Rightarrow> nat list option" where
  "count_register_reads p 0 n counts = None"
| "count_register_reads p (Suc k) n counts =
     Option.bind (cp_node p n) (\<lambda>node. count_node p (count_register_reads p k) node counts)"

text \<open>The live registers and the reads to turn into moves, threaded backward.\<close>

type_synonym annotation = "live_set \<times> node_ref list"

text \<open>\<open>analyze_sequential\<close>: the children in reverse order of execution.\<close>

fun analyze_sequential :: "('n \<Rightarrow> annotation \<Rightarrow> annotation option) \<Rightarrow> 'n list \<Rightarrow> annotation \<Rightarrow> annotation option" where
  "analyze_sequential f [] a = Some a"
| "analyze_sequential f (n # ns) a = Option.bind (analyze_sequential f ns a) (f n)"

text \<open>The aliasing guard of \<open>analyze_call_args\<close>.\<close>

fun keep_aliased :: "'x compact_program \<Rightarrow> nat list \<Rightarrow> node_ref list \<Rightarrow> live_set \<Rightarrow> live_set option" where
  "keep_aliased p counts [] live = Some live"
| "keep_aliased p counts (n # ns) live =
     Option.bind (cp_node p n) (\<lambda>node.
       let keep = (\<lambda>r. if unat r < length counts
                       then if counts ! unat r \<ge> 2 then live_insert live r else Some live
                       else None)
       in Option.bind (case node of NRegister r \<Rightarrow> keep r | NRegisterTake r \<Rightarrow> keep r | _ \<Rightarrow> Some live)
            (keep_aliased p counts ns))"

definition analyze_call_args ::
  "'x compact_program \<Rightarrow> (node_ref \<Rightarrow> nat list \<Rightarrow> nat list option) \<Rightarrow> (node_ref \<Rightarrow> annotation \<Rightarrow> annotation option) \<Rightarrow>
   node_ref list \<Rightarrow> annotation \<Rightarrow> annotation option" where
  "analyze_call_args p cnt f refs a =
     Option.bind (count_all cnt refs (replicate (unat (cp_register_count p)) 0)) (\<lambda>counts.
       Option.bind (keep_aliased p counts refs (fst a)) (\<lambda>live.
         analyze_sequential f refs (live, snd a)))"

text \<open>The chain of a \<open>multiIf\<close>, from the last pair to the first.\<close>

fun analyze_pairs ::
  "(node_ref \<Rightarrow> annotation \<Rightarrow> annotation option) \<Rightarrow> live_set \<Rightarrow> (node_ref \<times> node_ref) list \<Rightarrow> annotation \<Rightarrow> annotation option" where
  "analyze_pairs f live [] a = Some a"
| "analyze_pairs f live ((c, v) # bs) a =
     Option.bind (analyze_pairs f live bs a) (\<lambda>(carry, taken).
       Option.bind (f v (live, taken)) (\<lambda>(after_value, taken'). f c (live_union after_value carry, taken')))"

text \<open>The arms of a \<open>switch\<close>.\<close>

fun analyze_arms ::
  "(node_ref \<Rightarrow> annotation \<Rightarrow> annotation option) \<Rightarrow> live_set \<Rightarrow> node_ref list \<Rightarrow> annotation \<Rightarrow> annotation option" where
  "analyze_arms f live [] a = Some a"
| "analyze_arms f live (n # ns) (arms, taken) =
     Option.bind (f n (live, taken)) (\<lambda>(after_branch, taken'). analyze_arms f live ns (live_union arms after_branch, taken'))"

definition analyze_node ::
  "'x compact_program \<Rightarrow> (node_ref \<Rightarrow> nat list \<Rightarrow> nat list option) \<Rightarrow> (node_ref \<Rightarrow> annotation \<Rightarrow> annotation option) \<Rightarrow>
   opt_node \<Rightarrow> node_ref \<Rightarrow> annotation \<Rightarrow> annotation option" where
  "analyze_node p cnt f node n a =
     (case node of
        NRegister r \<Rightarrow>
          Option.bind (live_contains (fst a) r) (\<lambda>known.
            Option.bind (live_insert (fst a) r) (\<lambda>live. Some (live, if known then snd a else snd a @ [n])))
      | NRegisterTake r \<Rightarrow> Option.bind (live_insert (fst a) r) (\<lambda>live. Some (live, snd a))
      | NConst _ \<Rightarrow> Some a
      | NSourceField _ \<Rightarrow> Some a
      | NFields _ \<Rightarrow> Some a
      | NField i \<Rightarrow> f i a
      | NTypeAssert i _ _ \<Rightarrow> f i a
      | NCall _ sl \<Rightarrow> Option.bind (cp_args p sl) (\<lambda>refs. analyze_call_args p cnt f refs a)
      | NInterpolation sl \<Rightarrow> Option.bind (cp_args p sl) (\<lambda>refs. analyze_sequential f refs a)
      | NObject _ sl \<Rightarrow> Option.bind (cp_args p sl) (\<lambda>refs. analyze_sequential f refs a)
      | NArray sl \<Rightarrow> Option.bind (cp_args p sl) (\<lambda>refs. analyze_sequential f refs a)
      | NNullIf v s \<Rightarrow> analyze_sequential f [v, s] a
      | NAnd l r \<Rightarrow> analyze_sequential f [l, r] a
      | NOr l r \<Rightarrow> analyze_sequential f [l, r] a
      | NIfNull v d \<Rightarrow> analyze_sequential f [v, d] a
      | NIf c t e \<Rightarrow>
          Option.bind (f t a) (\<lambda>(after_then, taken).
            Option.bind (f e (fst a, taken)) (\<lambda>(after_else, taken'). f c (live_union after_then after_else, taken')))
      | NMultiIf sl d \<Rightarrow>
          Option.bind (cp_args p sl) (\<lambda>refs.
            Option.bind (f d a) (\<lambda>(carry, taken). analyze_pairs f (fst a) (pair_up refs) (carry, taken)))
      | NSwitch sl t d \<Rightarrow>
          Option.bind (cp_args p sl) (\<lambda>refs. Option.bind (cp_switch_table p t) (\<lambda>table.
            Option.bind (f d a) (\<lambda>(arms, taken).
              Option.bind (analyze_arms f (fst a) (map snd (table_map table)) (arms, taken)) (analyze_sequential f refs))))
      | NBind r v b \<Rightarrow>
          Option.bind (f b a) (\<lambda>(after_body, taken).
            Option.bind (live_remove after_body r) (\<lambda>live. f v (live, taken))))"

fun analyze :: "'x compact_program \<Rightarrow> nat \<Rightarrow> node_ref \<Rightarrow> annotation \<Rightarrow> annotation option" where
  "analyze p 0 n a = None"
| "analyze p (Suc k) n a =
     Option.bind (cp_node p n) (\<lambda>node. analyze_node p (count_register_reads p k) (analyze p k) node n a)"

text \<open>The statements from the last to the first, each after what follows it.\<close>

fun analyze_statements :: "'x compact_program \<Rightarrow> nat \<Rightarrow> (u16 \<times> node_ref) list \<Rightarrow> annotation \<Rightarrow> annotation option" where
  "analyze_statements p k [] a = Some a"
| "analyze_statements p k ((r, n) # ss) a =
     Option.bind (analyze_statements p k ss a) (\<lambda>a1.
       Option.bind (analyze p k n a1) (\<lambda>(live, taken). Option.bind (live_remove live r) (\<lambda>live'. Some (live', taken))))"

definition flip_node :: "opt_node list \<Rightarrow> node_ref \<Rightarrow> opt_node list" where
  "flip_node nodes n =
     (case arena_get nodes n of Some (NRegister r) \<Rightarrow> nodes[unat n := NRegisterTake r] | _ \<Rightarrow> nodes)"

definition annotate :: "nat \<Rightarrow> 'x compact_program \<Rightarrow> 'x compact_program option" where
  "annotate k p =
     (if cp_register_count p = 0 then Some p
      else Option.bind (analyze p k (cp_result p) (live_new (cp_register_count p), [])) (\<lambda>a.
        Option.bind (analyze_statements p k (cp_statements p) a) (\<lambda>(_, to_take).
          Some (p\<lparr>st_nodes := foldl flip_node (st_nodes p) to_take\<rparr>))))"

end
