(* ===== verification/MoveSim.thy ===== *)
theory MoveSim
  imports MoveAnnot
begin

text \<open>
  Two runs of an arena program that differ in dead registers only: the run with moves against
  the run without. The evaluation combinators keep the relation.
\<close>

section \<open>Related outcomes\<close>

text \<open>The states agree on the registers \<open>L\<close>.\<close>

definition sim :: "u16 set \<Rightarrow> ('x, 'w) eval_state \<Rightarrow> ('x, 'w) eval_state \<Rightarrow> bool" where
  "sim L s s' \<longleftrightarrow> snd s = snd s' \<and> (\<forall>r \<in> L. fst s r = fst s' r)"

definition osim :: "u16 set \<Rightarrow> eval_error + 'v \<times> ('x, 'w) eval_state \<Rightarrow> eval_error + 'v \<times> ('x, 'w) eval_state \<Rightarrow> bool" where
  "osim L out out' \<longleftrightarrow>
     (case (out, out') of
        (Inl a, Inl b) \<Rightarrow> a = b
      | (Inr (v, s), Inr (v', s')) \<Rightarrow> v = v' \<and> sim L s s'
      | _ \<Rightarrow> False)"

text \<open>From states that agree on \<open>L'\<close>, related outcomes that agree on \<open>L\<close>.\<close>

definition csim :: "u16 set \<Rightarrow> u16 set \<Rightarrow> ('n \<Rightarrow> ('x, 'w) eval_state \<Rightarrow> eval_error + 'v \<times> ('x, 'w) eval_state) \<Rightarrow>
    ('n \<Rightarrow> ('x, 'w) eval_state \<Rightarrow> eval_error + 'v \<times> ('x, 'w) eval_state) \<Rightarrow> 'n \<Rightarrow> bool" where
  "csim L' L f g n \<longleftrightarrow> (\<forall>s s'. sim L' s s' \<longrightarrow> osim L (f n s) (g n s'))"

lemma sim_mono: "sim L s s' \<Longrightarrow> M \<subseteq> L \<Longrightarrow> sim M s s'"
  by (auto simp: sim_def)

lemma osim_simps [simp]:
  "osim L (Inl a) (Inl b) \<longleftrightarrow> a = b" "\<not> osim L (Inl a) (Inr r)" "\<not> osim L (Inr r) (Inl a)"
  "osim L (Inr (v, s)) (Inr (v', s')) \<longleftrightarrow> v = v' \<and> sim L s s'"
  by (simp_all add: osim_def split: prod.split)

lemma osim_mono: "osim L out out' \<Longrightarrow> M \<subseteq> L \<Longrightarrow> osim M out out'"
  by (cases out; cases out') (auto simp: sim_mono split: prod.splits)

lemma csimD: "csim L' L f g n \<Longrightarrow> sim M s s' \<Longrightarrow> L' \<subseteq> M \<Longrightarrow> osim L (f n s) (g n s')"
  unfolding csim_def using sim_mono by blast

lemma csimI: "(\<And>s s'. sim L' s s' \<Longrightarrow> osim L (f n s) (g n s')) \<Longrightarrow> csim L' L f g n"
  unfolding csim_def by blast

lemma csim_mono: "csim L' L f g n \<Longrightarrow> L' \<subseteq> M' \<Longrightarrow> M \<subseteq> L \<Longrightarrow> csim M' M f g n"
  unfolding csim_def using sim_mono osim_mono by blast

lemma osim_bind:
  assumes "osim M out out'" "\<And>v s s'. sim M s s' \<Longrightarrow> osim L (k (v, s)) (k' (v, s'))"
  shows "osim L (bind_res out k) (bind_res out' k')"
  using assms(1)
proof (cases out; cases out')
  fix a b
  assume "out = Inr a" "out' = Inr b"
  then show ?thesis using assms by (cases a; cases b) auto
qed auto

lemma osim_case_tri:
  "osim L a a' \<Longrightarrow> osim L b b' \<Longrightarrow> osim L c c' \<Longrightarrow> osim L d d' \<Longrightarrow>
   osim L (case t of TriTrue \<Rightarrow> a | TriFalse \<Rightarrow> b | TriNull \<Rightarrow> c | TriOther \<Rightarrow> d)
     (case t of TriTrue \<Rightarrow> a' | TriFalse \<Rightarrow> b' | TriNull \<Rightarrow> c' | TriOther \<Rightarrow> d')"
  by (cases t) simp_all

lemma osim_combine: "sim L s s' \<Longrightarrow> osim L (combine_bool ctx v s) (combine_bool ctx v s')"
  by (auto simp: combine_bool_def split: tri.split)

section \<open>The combinators\<close>

text \<open>A run of nodes evaluated in order, the last one leaving \<open>L\<close>.\<close>

fun chain :: "u16 set \<Rightarrow> u16 set \<Rightarrow> ('n \<Rightarrow> ('x, 'w) eval_state \<Rightarrow> eval_error + 'v \<times> ('x, 'w) eval_state) \<Rightarrow>
    ('n \<Rightarrow> ('x, 'w) eval_state \<Rightarrow> eval_error + 'v \<times> ('x, 'w) eval_state) \<Rightarrow> 'n list \<Rightarrow> bool" where
  "chain L' L f g [] \<longleftrightarrow> L \<subseteq> L'"
| "chain L' L f g (n # ns) \<longleftrightarrow> (\<exists>M. csim L' M f g n \<and> L \<subseteq> M \<and> chain M L f g ns)"

lemma chain_one: "chain L' L f g [n] \<Longrightarrow> csim L' L f g n"
  by (auto intro: csim_mono)

lemma chain_two: "chain L' L f g [a, b] \<Longrightarrow> \<exists>M. csim L' M f g a \<and> csim M L f g b \<and> L \<subseteq> M"
  by (auto intro: csim_mono)

lemma chain_mono: "chain M' L f g ns \<Longrightarrow> M' \<subseteq> L' \<Longrightarrow> chain L' L f g ns"
  by (cases ns) (auto intro: csim_mono)

lemma chain_args: "chain L' L f g ns \<Longrightarrow> sim L' s s' \<Longrightarrow> osim L (eval_args f ns s) (eval_args g ns s')"
proof (induction ns arbitrary: L' s s')
  case (Cons n ns)
  then obtain M where M: "csim L' M f g n" "chain M L f g ns" by auto
  show ?case
    unfolding eval_args.simps
    by (rule osim_bind [OF csimD [OF M(1) Cons.prems(2)]])
      (auto intro!: osim_bind [OF Cons.IH [OF M(2)]])
qed (auto intro: sim_mono)

lemma chain_interpolation:
  "chain L' L f g ns \<Longrightarrow> sim L' s s' \<Longrightarrow> osim L (eval_interpolation render f ns acc s) (eval_interpolation render g ns acc s')"
proof (induction ns arbitrary: L' s s' acc)
  case (Cons n ns)
  then obtain M where M: "csim L' M f g n" "chain M L f g ns" by auto
  show ?case
    unfolding eval_interpolation.simps
    by (rule osim_bind [OF csimD [OF M(1) Cons.prems(2)]]) (auto simp: Let_def intro!: Cons.IH [OF M(2)])
qed (auto intro: sim_mono)

lemma csim_if:
  assumes "csim L' M f g c" "csim M L f g t" "csim M L f g e"
  shows "csim L' L (\<lambda>_. eval_if f c t e) (\<lambda>_. eval_if g c t e) n"
  unfolding eval_if_def
  by (rule csimI, rule osim_bind [OF csimD [OF assms(1)]]) (auto intro!: osim_case_tri csimD [OF assms(2)] csimD [OF assms(3)])

text \<open>Both operands in sequence; the second one may be skipped.\<close>

lemma csim_and:
  assumes "csim L' M f g a" "csim M L f g b" "L \<subseteq> M"
  shows "csim L' L (\<lambda>_. eval_and f a b) (\<lambda>_. eval_and g a b) n"
proof (rule csimI)
  fix s s' :: "('b, 'c) eval_state"
  assume s: "sim L' s s'"
  have b: "osim L (f b t) (g b t')" if "sim M t t'" for t t' using csimD [OF assms(2) that] by blast
  show "osim L (eval_and f a b s) (eval_and g a b s')"
    unfolding eval_and_def
    by (rule osim_bind [OF csimD [OF assms(1) s]])
      (auto intro!: osim_case_tri osim_bind [OF b] osim_combine intro: sim_mono [OF _ assms(3)])
qed

lemma csim_or:
  assumes "csim L' M f g a" "csim M L f g b" "L \<subseteq> M"
  shows "csim L' L (\<lambda>_. eval_or f a b) (\<lambda>_. eval_or g a b) n"
proof (rule csimI)
  fix s s' :: "('b, 'c) eval_state"
  assume s: "sim L' s s'"
  have b: "osim L (f b t) (g b t')" if "sim M t t'" for t t' using csimD [OF assms(2) that] by blast
  show "osim L (eval_or f a b s) (eval_or g a b s')"
    unfolding eval_or_def
    by (rule osim_bind [OF csimD [OF assms(1) s]])
      (auto intro!: osim_case_tri osim_bind [OF b] osim_combine intro: sim_mono [OF _ assms(3)])
qed

lemma csim_if_null:
  assumes "csim L' M f g a" "csim M L f g b" "L \<subseteq> M"
  shows "csim L' L (\<lambda>_. eval_if_null f a b) (\<lambda>_. eval_if_null g a b) n"
  unfolding eval_if_null_def
  by (rule csimI, rule osim_bind [OF csimD [OF assms(1)]])
    (auto intro: csimD [OF assms(2)] sim_mono [OF _ assms(3)])

lemma csim_null_if:
  assumes "csim L' M f g a" "csim M L f g b"
  shows "csim L' L (\<lambda>_. eval_null_if P f a b) (\<lambda>_. eval_null_if P g a b) n"
  unfolding eval_null_if_def
  by (rule csimI, rule osim_bind [OF csimD [OF assms(1)]])
    (auto intro!: osim_bind [OF csimD [OF assms(2)]])

lemma csim_type_assert:
  assumes "csim L' L f g a"
  shows "csim L' L (\<lambda>_. eval_type_assert f a cls y) (\<lambda>_. eval_type_assert g a cls y) n"
  unfolding eval_type_assert_def
  by (rule csimI, rule osim_bind [OF csimD [OF assms]]) (auto split: option.split bool.split)

text \<open>The chain of a \<open>multiIf\<close>: a condition leaves what its value and the rest need.\<close>

fun chain_pairs :: "u16 set \<Rightarrow> u16 set \<Rightarrow> ('n \<Rightarrow> ('x, 'w) eval_state \<Rightarrow> ('x, 'w) outcome) \<Rightarrow>
    ('n \<Rightarrow> ('x, 'w) eval_state \<Rightarrow> ('x, 'w) outcome) \<Rightarrow> ('n \<times> 'n) list \<Rightarrow> 'n \<Rightarrow> bool" where
  "chain_pairs L' L f g [] d \<longleftrightarrow> csim L' L f g d"
| "chain_pairs L' L f g ((c, v) # bs) d \<longleftrightarrow> (\<exists>M. csim L' M f g c \<and> csim M L f g v \<and> chain_pairs M L f g bs d)"

lemma csim_multi_if: "chain_pairs L' L f g bs d \<Longrightarrow> sim L' s s' \<Longrightarrow> osim L (eval_multi_if f bs d s) (eval_multi_if g bs d s')"
proof (induction bs arbitrary: L' s s')
  case (Cons b bs)
  obtain c v where b: "b = (c, v)" by fastforce
  then obtain M where M: "csim L' M f g c" "csim M L f g v" "chain_pairs M L f g bs d" using Cons.prems(1) by auto
  show ?case
    unfolding b eval_multi_if.simps
    by (rule osim_bind [OF csimD [OF M(1) Cons.prems(2)]])
      (auto intro!: osim_case_tri csimD [OF M(2)] Cons.IH [OF M(3)])
qed (auto intro: csimD)

lemma csim_switch:
  assumes "chain L' M f g ins" "\<forall>v \<in> set (d # map snd table). csim M L f g v" "sim L' s s'"
  shows "osim L (eval_switch P f ins table d s) (eval_switch P g ins table d s')"
  unfolding eval_switch_def
proof (rule osim_bind [OF chain_args [OF assms(1,3)]])
  fix vs and t t' :: "('b, 'c) eval_state"
  assume t: "sim M t t'"
  have "osim L (f v t) (g v t')" if "v \<in> set (d # map snd table)" for v using csimD [OF assms(2) [rule_format, OF that] t] by blast
  moreover have "v \<in> snd ` set table" if "switch_entry P table (switch_key P vs) = Some v" for v
    using switch_entry_in [OF that] by force
  ultimately show "osim L (case (vs, t) of (vs, s1) \<Rightarrow> case switch_entry P table (switch_key P vs) of None \<Rightarrow> f d s1 | Some e \<Rightarrow> f e s1)
      (case (vs, t') of (vs, s1) \<Rightarrow> case switch_entry P table (switch_key P vs) of None \<Rightarrow> g d s1 | Some e \<Rightarrow> g e s1)"
    by (auto split: option.splits)
qed

end
