(* ===== verification/MoveProps.thy ===== *)
theory MoveProps
  imports MoveSim
begin

text \<open>
  The annotator is correct: turning the reads it finds into moves changes no result. The
  proof follows the analysis: the registers live after a node are those two runs must agree
  on, whatever the moves left in the others.
\<close>

section \<open>Registers of a tree\<close>

text \<open>The registers that a tree reads.\<close>

function reads :: "'x opt_expr \<Rightarrow> u16 list" where
  "reads e = (case e of ERegister r \<Rightarrow> [r] | _ \<Rightarrow> []) @ concat (map reads (children e))"
  by pat_completeness auto
termination
  by (relation "measure size") (auto simp: children_size)

declare reads.simps [simp del]

lemma reads_child: "c \<in> set (children e) \<Longrightarrow> set (reads c) \<subseteq> set (reads e)"
  by (subst (2) reads.simps) auto

lemma reads_node: "(\<And>r. e \<noteq> ERegister r) \<Longrightarrow> reads e = concat (map reads (children e))"
  by (subst reads.simps) (cases e; auto)

lemma writes_node: "(\<And>ss r. e \<noteq> EBlock ss r) \<Longrightarrow> writes e = concat (map writes (children e))"
  by (subst writes.simps) (cases e; auto)

text \<open>
  Registers are assigned once: what a block binds in one child of a node is not read in
  another child.
\<close>

definition children_scoped :: "'x opt_expr \<Rightarrow> bool" where
  "children_scoped e \<longleftrightarrow>
     sorted_wrt (\<lambda>a b. list_all (\<lambda>r. r \<notin> set (reads b)) (writes a) \<and> list_all (\<lambda>r. r \<notin> set (reads a)) (writes b)) (children e)"

definition scoped :: "'x opt_expr \<Rightarrow> bool" where
  "scoped e \<longleftrightarrow> \<not> scan (\<lambda>n. \<not> children_scoped n) e"

lemma scoped_step: "scoped e \<longleftrightarrow> children_scoped e \<and> (\<forall>c \<in> set (children e). scoped c)"
  unfolding scoped_def by (subst scan.simps) (auto simp: list_ex_iff)

text \<open>Trees whose writes and reads do not meet, either way.\<close>

definition apart :: "'x opt_expr \<Rightarrow> 'x opt_expr \<Rightarrow> bool" where
  "apart a b \<longleftrightarrow> set (writes a) \<inter> set (reads b) = {} \<and> set (writes b) \<inter> set (reads a) = {}"

lemma children_scoped_apart: "children_scoped e \<longleftrightarrow> sorted_wrt apart (children e)"
proof -
  have "(\<lambda>a b. list_all (\<lambda>r. r \<notin> set (reads b)) (writes a) \<and> list_all (\<lambda>r. r \<notin> set (reads a)) (writes b)) =
      (apart :: 'a opt_expr \<Rightarrow> 'a opt_expr \<Rightarrow> bool)"
    by (intro ext) (auto simp: apart_def list_all_iff)
  then show ?thesis by (simp add: children_scoped_def)
qed

section \<open>Counting reads\<close>

definition counts_ok :: "nat \<Rightarrow> (node_ref \<Rightarrow> nat list \<Rightarrow> nat list option) \<Rightarrow> node_ref \<Rightarrow> 'x opt_expr \<Rightarrow> bool" where
  "counts_ok m f n e \<longleftrightarrow>
     (\<forall>counts. length counts = m \<longrightarrow>
        (\<exists>counts'. f n counts = Some counts' \<and> length counts' = m \<and>
           (\<forall>r. unat r < m \<longrightarrow> counts' ! unat r = counts ! unat r + count_list (reads e) r)))"

lemma count_all_reads:
  assumes "list_all2 (counts_ok m f) ns es" "length counts = m"
  shows "\<exists>counts'. count_all f ns counts = Some counts' \<and> length counts' = m \<and>
    (\<forall>r. unat r < m \<longrightarrow> counts' ! unat r = counts ! unat r + count_list (concat (map reads es)) r)"
  using assms
proof (induction ns es arbitrary: counts rule: list_all2_induct)
  case (Cons n ns e es)
  obtain c1 where c1: "f n counts = Some c1" "length c1 = m"
    "\<forall>r. unat r < m \<longrightarrow> c1 ! unat r = counts ! unat r + count_list (reads e) r"
    using Cons.hyps(1) Cons.prems unfolding counts_ok_def by blast
  obtain c2 where "count_all f ns c1 = Some c2" "length c2 = m"
    "\<forall>r. unat r < m \<longrightarrow> c2 ! unat r = c1 ! unat r + count_list (concat (map reads es)) r"
    using Cons.IH [OF c1(2)] by blast
  then show ?case using c1 by simp
qed simp

text \<open>A node whose children are all counted, in the order of the tree or another.\<close>

lemma counts_okI:
  assumes "\<And>counts. g n counts = count_all f ns counts" "list_all2 (counts_ok m f) ns es"
    and "\<And>r. count_list (reads e) r = count_list (concat (map reads es)) r"
  shows "counts_ok m g n e"
  unfolding counts_ok_def assms(1,3) using count_all_reads [OF assms(2)] by blast

lemma counts_ok_leaf: "(\<And>counts. g n counts = Some counts) \<Longrightarrow> reads e = [] \<Longrightarrow> counts_ok m g n e"
  by (simp add: counts_ok_def)

lemma counts_ok_register:
  assumes "cp_node p n = Some (NRegister r)" "unat r < m"
  shows "counts_ok m (count_register_reads p (Suc k)) n (ERegister r)"
  unfolding counts_ok_def
proof (intro allI impI)
  fix counts :: "nat list"
  assume "length counts = m"
  then have "count_register_reads p (Suc k) n counts = Some (counts[unat r := counts ! unat r + 1])"
    using assms by (simp add: count_node_def Let_def)
  moreover have "counts[unat r := counts ! unat r + 1] ! unat x = counts ! unat x + count_list (reads (ERegister r)) x" if "unat x < m" for x
    using that \<open>length counts = m\<close> by (subst reads.simps) (auto simp: nth_list_update word_unat_eq_iff)
  ultimately show "\<exists>counts'. count_register_reads p (Suc k) n counts = Some counts' \<and> length counts' = m \<and>
      (\<forall>x. unat x < m \<longrightarrow> counts' ! unat x = counts ! unat x + count_list (reads (ERegister r)) x)"
    using \<open>length counts = m\<close> by auto
qed

definition counted :: "'x compact_program \<Rightarrow> node_ref \<Rightarrow> 'x opt_expr \<Rightarrow> bool" where
  "counted p n e \<longleftrightarrow>
     ((\<forall>r \<in> set (reads e). r < cp_register_count p) \<longrightarrow>
        (\<forall>k > size e. counts_ok (unat (cp_register_count p)) (count_register_reads p k) n e))"

lemma counted_step:
  assumes "\<And>counts k. count_register_reads p (Suc k) n counts = count_all (count_register_reads p k) ns counts"
    and "list_all2 (counted p) ns es" "\<forall>c \<in> set es. size c < size e" "\<And>r. count_list (reads e) r = count_list (concat (map reads es)) r"
  shows "counted p n e"
  unfolding counted_def
proof (intro allI impI)
  fix k
  assume range: "\<forall>r \<in> set (reads e). r < cp_register_count p" and k: "size e < k"
  then obtain k' where k': "k = Suc k'" by (cases k) auto
  have "set (reads e) = set (concat (map reads es))" using assms(4) by (metis count_list_0_iff subsetI subset_antisym)
  then have sub: "set (reads c) \<subseteq> set (reads e)" if "c \<in> set es" for c using that by auto
  have "counts_ok (unat (cp_register_count p)) (count_register_reads p k') m c" if c: "counted p m c" "c \<in> set es" for m c
  proof -
    have "\<forall>r \<in> set (reads c). r < cp_register_count p" "size c < k'" using sub [OF c(2)] range assms(3) c(2) k k' by auto
    then show ?thesis using c(1) unfolding counted_def by blast
  qed
  then have "list_all2 (counts_ok (unat (cp_register_count p)) (count_register_reads p k')) ns es"
    using assms(2) by (auto simp: list_all2_conv_all_nth)
  from counts_okI [where g = "count_register_reads p k" and f = "count_register_reads p k'", OF _ this assms(4)]
  show "counts_ok (unat (cp_register_count p)) (count_register_reads p k) n e"
    using assms(1) k' by simp
qed

lemma count_all_Nil [simp]: "count_all f [] = Some"
  by (rule ext) simp

lemma counted_leaf: "(\<And>counts k. count_register_reads p (Suc k) n counts = Some counts) \<Longrightarrow> reads e = [] \<Longrightarrow> counted p n e"
  by (rule counted_step [where ns = "[]" and es = "[]"]) simp_all

lemma reads_block_bind: "reads (EBlock ((x, e) # ss) r) = reads e @ reads (EBlock ss r)" "reads (EBlock [] r) = reads r"
  by (simp_all add: reads_node)

lemma counted_list: "list_all2 (\<lambda>n e. reps p n e \<and> counted p n e) ns es \<Longrightarrow> list_all2 (counted p) ns es"
  by (erule list_all2_mono) simp

lemma count_reads_correct: "reps p n e \<Longrightarrow> counted p n e"
proof (induction rule: reps.induct)
  case (reps_register n r)
  show ?case
    unfolding counted_def
  proof (intro allI impI)
    fix k
    assume "\<forall>x \<in> set (reads (ERegister r)). x < cp_register_count p" "size (ERegister r :: 'a opt_expr) < k"
    then show "counts_ok (unat (cp_register_count p)) (count_register_reads p k) n (ERegister r)"
      using counts_ok_register [OF reps_register] by (cases k) (auto simp: reads.simps [of "ERegister r"] word_less_nat_alt)
  qed
next
  case (reps_const n i v)
  show ?case by (rule counted_leaf) (simp_all add: reps_const count_node_def reads_node)
next
  case (reps_source n f)
  show ?case by (rule counted_leaf) (simp_all add: reps_source count_node_def reads_node)
next
  case (reps_fields n sel)
  show ?case by (rule counted_leaf) (simp_all add: reps_fields count_node_def reads_node)
next
  case (reps_field n i e)
  show ?case by (rule counted_step [where ns = "[i]" and es = "[e]"]) (simp_all add: reps_field count_node_def reads_node)
next
  case (reps_call n g sl refs es)
  show ?case
    by (rule counted_step [where ns = refs and es = es])
      (use reps_call.hyps(1,2) children_size [of _ "ECall g es"] counted_list [OF reps_call.IH] in \<open>simp_all add: count_node_def reads_node\<close>)
next
  case (reps_interpolation n sl refs es)
  show ?case
    by (rule counted_step [where ns = refs and es = es])
      (use reps_interpolation.hyps(1,2) children_size [of _ "EInterpolation es"] counted_list [OF reps_interpolation.IH] in
        \<open>simp_all add: count_node_def reads_node\<close>)
next
  case (reps_array n sl refs es)
  show ?case
    by (rule counted_step [where ns = refs and es = es])
      (use reps_array.hyps(1,2) children_size [of _ "EArray es"] counted_list [OF reps_array.IH] in
        \<open>simp_all add: count_node_def reads_node\<close>)
next
  case (reps_object n ks sl refs es ids)
  show ?case
    by (rule counted_step [where ns = refs and es = "map snd es"])
      (use reps_object.hyps(1,2) children_size [of _ "EObject es"] counted_list [OF reps_object.IH] in
        \<open>simp_all add: count_node_def reads_node\<close>)
next
  case (reps_if n i j k c t e)
  show ?case
    by (rule counted_step [where ns = "[i, j, k]" and es = "[c, t, e]"]) (simp_all add: reps_if count_node_def reads_node)
next
  case (reps_if_null n i j a b)
  show ?case by (rule counted_step [where ns = "[i, j]" and es = "[a, b]"]) (simp_all add: reps_if_null count_node_def reads_node)
next
  case (reps_null_if n i j a b)
  show ?case by (rule counted_step [where ns = "[i, j]" and es = "[a, b]"]) (simp_all add: reps_null_if count_node_def reads_node)
next
  case (reps_and n i j a b)
  show ?case by (rule counted_step [where ns = "[i, j]" and es = "[a, b]"]) (simp_all add: reps_and count_node_def reads_node)
next
  case (reps_or n i j a b)
  show ?case by (rule counted_step [where ns = "[i, j]" and es = "[a, b]"]) (simp_all add: reps_or count_node_def reads_node)
next
  case (reps_multi_if n sl k refs bs d)
  show ?case
    by (rule counted_step [where ns = "refs @ [k]" and es = "children (EMultiIf bs d)"])
      (use reps_multi_if.hyps(1,2) reps_multi_if.IH(2) children_size [of _ "EMultiIf bs d"] counted_list [OF reps_multi_if.IH(1)] in
        \<open>simp_all add: count_node_def reads_node list_all2_appendI\<close>)
next
  case (reps_switch n sl t k refs ins T table d)
  have "list_all2 (counted p) (map snd (table_map T)) (map snd table)"
    using reps_switch.IH(2) by (simp add: list_all2_map1 list_all2_map2 list_all2_mono)
  then show ?case
    by (intro counted_step [where ns = "refs @ map snd (table_map T) @ [k]" and es = "children (ESwitch ins table d)"])
      (use reps_switch.hyps(1-3) reps_switch.IH(3) children_size [of _ "ESwitch ins table d"] counted_list [OF reps_switch.IH(1)] in
        \<open>simp_all add: count_node_def reads_node list_all2_appendI\<close>)
next
  case (reps_assert n i cls e)
  show ?case by (rule counted_step [where ns = "[i]" and es = "[e]"]) (simp_all add: reps_assert count_node_def reads_node)
next
  case (reps_assert_const n i cls j v e)
  show ?case by (rule counted_step [where ns = "[i]" and es = "[e]"]) (simp_all add: reps_assert_const count_node_def reads_node)
next
  case (reps_block n r)
  then show ?case by (auto simp: counted_def counts_ok_def reads_block_bind)
next
  case (reps_bind n x i b e ss r)
  show ?case
    by (rule counted_step [where ns = "[i, b]" and es = "[e, EBlock ss r]"]) (simp_all add: reps_bind count_node_def reads_block_bind)
qed

section \<open>Steps of the analysis\<close>

text \<open>\<open>q\<close> is \<open>p\<close> with the reads in \<open>T\<close> turned into moves.\<close>

definition flipped :: "node_ref set \<Rightarrow> 'x compact_program \<Rightarrow> 'x compact_program \<Rightarrow> bool" where
  "flipped T p q \<longleftrightarrow>
     (\<forall>n. cp_node q n = map_option (\<lambda>node. case node of NRegister r \<Rightarrow> if n \<in> T then NRegisterTake r else NRegister r | _ \<Rightarrow> node) (cp_node p n)) \<and>
     (\<forall>sl. cp_args q sl = cp_args p sl) \<and> (\<forall>sl. cp_keys q sl = cp_keys p sl) \<and> (\<forall>i. cp_key_name q i = cp_key_name p i) \<and>
     (\<forall>i. cp_constant q i = cp_constant p i) \<and> (\<forall>i. cp_switch_table q i = cp_switch_table p i) \<and>
     cp_register_count q = cp_register_count p"

lemma flipped_get:
  assumes "flipped T p q"
  shows "cp_args q = cp_args p" "cp_keys q = cp_keys p" "cp_key_name q = cp_key_name p" "cp_constant q = cp_constant p"
    "cp_switch_table q = cp_switch_table p" "cp_register_count q = cp_register_count p"
  using assms unfolding flipped_def by auto

text \<open>On the indices \<open>S\<close>, the moves are the marked reads; the marked reads are registers there.\<close>

definition marks :: "node_ref set \<Rightarrow> nat set \<Rightarrow> node_ref list \<Rightarrow> bool" where
  "marks T S new \<longleftrightarrow> (\<forall>m. unat m \<in> S \<longrightarrow> (m \<in> T \<longleftrightarrow> m \<in> set new))"

definition placed :: "'x compact_program \<Rightarrow> nat set \<Rightarrow> node_ref list \<Rightarrow> bool" where
  "placed p S new \<longleftrightarrow> (\<forall>m \<in> set new. unat m \<in> S \<and> (\<exists>r. cp_node p m = Some (NRegister r)))"

text \<open>
  A step of the analysis over the nodes \<open>S\<close>, which read \<open>R\<close> and bind \<open>W\<close>. When two runs must agree
  on \<open>L\<close> afterwards, and the part of \<open>L\<close> not known to be live is foreign to the nodes, it is
  enough that they agree before on \<open>L\<close> and on what is read and live there: then \<open>C\<close> relates them.
\<close>

definition moved ::
  "'x compact_program \<Rightarrow> nat set \<Rightarrow> u16 set \<Rightarrow> u16 set \<Rightarrow> (annotation \<Rightarrow> annotation option) \<Rightarrow>
   ('x compact_program \<Rightarrow> u16 set \<Rightarrow> u16 set \<Rightarrow> bool) \<Rightarrow> bool" where
  "moved p S R W act C \<longleftrightarrow>
     (\<forall>live tt. live_invar (cp_register_count p) live \<longrightarrow> live_members live \<inter> W = {} \<longrightarrow>
        (\<exists>live' new. act (live, tt) = Some (live', tt @ new) \<and> live_invar (cp_register_count p) live' \<and>
           live_members live \<subseteq> live_members live' \<and> live_members live' \<subseteq> live_members live \<union> R \<and> placed p S new \<and>
           (\<forall>q T L. flipped T p q \<longrightarrow> marks T S new \<longrightarrow> (L - live_members live) \<inter> (R \<union> W) = {} \<longrightarrow>
              C q (L \<union> R \<inter> live_members live') L)))"

lemma movedI:
  assumes "\<And>live tt. live_invar (cp_register_count p) live \<Longrightarrow> live_members live \<inter> W = {} \<Longrightarrow>
    \<exists>live' new. act (live, tt) = Some (live', tt @ new) \<and> live_invar (cp_register_count p) live' \<and>
      live_members live \<subseteq> live_members live' \<and> live_members live' \<subseteq> live_members live \<union> R \<and> placed p S new \<and>
      (\<forall>q T L. flipped T p q \<longrightarrow> marks T S new \<longrightarrow> (L - live_members live) \<inter> (R \<union> W) = {} \<longrightarrow>
         C q (L \<union> R \<inter> live_members live') L)"
  shows "moved p S R W act C"
  unfolding moved_def using assms by blast

lemma movedE:
  assumes "moved p S R W act C" "live_invar (cp_register_count p) live" "live_members live \<inter> W = {}"
  obtains live' new where "act (live, tt) = Some (live', tt @ new)" "live_invar (cp_register_count p) live'"
    "live_members live \<subseteq> live_members live'" "live_members live' \<subseteq> live_members live \<union> R" "placed p S new"
    "\<And>q T L. flipped T p q \<Longrightarrow> marks T S new \<Longrightarrow> (L - live_members live) \<inter> (R \<union> W) = {} \<Longrightarrow> C q (L \<union> R \<inter> live_members live') L"
proof -
  from assms obtain live' new where "act (live, tt) = Some (live', tt @ new)" "live_invar (cp_register_count p) live'"
    "live_members live \<subseteq> live_members live'" "live_members live' \<subseteq> live_members live \<union> R" "placed p S new"
    "\<forall>q T L. flipped T p q \<longrightarrow> marks T S new \<longrightarrow> (L - live_members live) \<inter> (R \<union> W) = {} \<longrightarrow> C q (L \<union> R \<inter> live_members live') L"
    unfolding moved_def by meson
  then show thesis by (intro that) blast+
qed

lemma moved_mono:
  assumes "moved p S R W act C" "S \<subseteq> S'" "\<And>q T L' L. flipped T p q \<Longrightarrow> C q L' L \<Longrightarrow> C' q L' L" "\<And>a. act' a = act a"
  shows "moved p S' R W act' C'"
proof (rule movedI)
  fix live tt
  assume live: "live_invar (cp_register_count p) live" "live_members live \<inter> W = {}"
  obtain live' new where 1: "act (live, tt) = Some (live', tt @ new)" "live_invar (cp_register_count p) live'"
    "live_members live \<subseteq> live_members live'" "live_members live' \<subseteq> live_members live \<union> R" "placed p S new"
    and C: "\<And>q T L. flipped T p q \<Longrightarrow> marks T S new \<Longrightarrow> (L - live_members live) \<inter> (R \<union> W) = {} \<Longrightarrow> C q (L \<union> R \<inter> live_members live') L"
    by (rule movedE [OF assms(1) live, of tt]) blast
  have "placed p S' new" using 1(5) assms(2) unfolding placed_def by blast
  moreover have "marks T S new" if "marks T S' new" for T using that assms(2) unfolding marks_def by blast
  ultimately show "\<exists>live' new. act' (live, tt) = Some (live', tt @ new) \<and> live_invar (cp_register_count p) live' \<and>
      live_members live \<subseteq> live_members live' \<and> live_members live' \<subseteq> live_members live \<union> R \<and> placed p S' new \<and>
      (\<forall>q T L. flipped T p q \<longrightarrow> marks T S' new \<longrightarrow> (L - live_members live) \<inter> (R \<union> W) = {} \<longrightarrow> C' q (L \<union> R \<inter> live_members live') L)"
    using 1(1-4) C assms(3) unfolding assms(4) by (intro exI [of _ live'] exI [of _ new]) blast
qed

lemma marks_split:
  assumes "marks T (S1 \<union> S2) (new2 @ new1)" "placed p S1 new1" "placed p S2 new2" "S1 \<inter> S2 = {}"
  shows "marks T S1 new1" "marks T S2 new2"
  using assms unfolding marks_def placed_def by (auto; blast)+

lemma placed_append: "placed p S1 new1 \<Longrightarrow> placed p S2 new2 \<Longrightarrow> placed p (S1 \<union> S2) (new2 @ new1)"
  unfolding placed_def by auto

text \<open>The second step runs first: what comes later in the program is analyzed before.\<close>

lemma moved_seq:
  assumes "moved p S1 R1 W1 act1 C1" "moved p S2 R2 W2 act2 C2" "S1 \<inter> S2 = {}" "R2 \<inter> W1 = {}"
    and "\<And>q T M' L' M L. flipped T p q \<Longrightarrow> C1 q M' M \<Longrightarrow> M' \<subseteq> L' \<Longrightarrow> C2 q M L \<Longrightarrow> L \<subseteq> M \<Longrightarrow> C q L' L"
  shows "moved p (S1 \<union> S2) (R1 \<union> R2) (W1 \<union> W2) (\<lambda>a. Option.bind (act2 a) act1) C"
proof (rule movedI)
  fix live tt
  assume live: "live_invar (cp_register_count p) live" "live_members live \<inter> (W1 \<union> W2) = {}"
  let ?A = live_members
  have live2: "?A live \<inter> W2 = {}" using live(2) by blast
  obtain live2 new2 where 2: "act2 (live, tt) = Some (live2, tt @ new2)" "live_invar (cp_register_count p) live2"
    "?A live \<subseteq> ?A live2" "?A live2 \<subseteq> ?A live \<union> R2" "placed p S2 new2"
    and C2: "\<And>q T L. flipped T p q \<Longrightarrow> marks T S2 new2 \<Longrightarrow> (L - ?A live) \<inter> (R2 \<union> W2) = {} \<Longrightarrow> C2 q (L \<union> R2 \<inter> ?A live2) L"
    by (rule movedE [OF assms(2) live(1) live2, of tt]) blast
  have live1: "?A live2 \<inter> W1 = {}" using 2(4) live(2) assms(4) by blast
  obtain live1 new1 where 1: "act1 (live2, tt @ new2) = Some (live1, (tt @ new2) @ new1)" "live_invar (cp_register_count p) live1"
    "?A live2 \<subseteq> ?A live1" "?A live1 \<subseteq> ?A live2 \<union> R1" "placed p S1 new1"
    and C1: "\<And>q T L. flipped T p q \<Longrightarrow> marks T S1 new1 \<Longrightarrow> (L - ?A live2) \<inter> (R1 \<union> W1) = {} \<Longrightarrow> C1 q (L \<union> R1 \<inter> ?A live1) L"
    by (rule movedE [OF assms(1) 2(2) live1, of "tt @ new2"]) blast
  have "C q (L \<union> (R1 \<union> R2) \<inter> ?A live1) L"
    if f: "flipped T p q" and m: "marks T (S1 \<union> S2) (new2 @ new1)" and L: "(L - ?A live) \<inter> (R1 \<union> R2 \<union> (W1 \<union> W2)) = {}" for q T L
  proof -
    note m12 = marks_split [OF m 1(5) 2(5) assms(3)]
    have "(L - ?A live) \<inter> (R2 \<union> W2) = {}" "(L \<union> R2 \<inter> ?A live2 - ?A live2) \<inter> (R1 \<union> W1) = {}" using L 2(3) by blast+
    note c = C2 [OF f m12(2) this(1)] C1 [OF f m12(1) this(2)]
    show ?thesis by (rule assms(5) [OF f c(2) _ c(1)]) (use 1(3) in blast)+
  qed
  note C = this
  have bound: "?A live1 \<subseteq> ?A live \<union> (R1 \<union> R2)" using 1(4) 2(4) by blast
  have act: "Option.bind (act2 (live, tt)) act1 = Some (live1, tt @ (new2 @ new1))" using 1(1) 2(1) by simp
  show "\<exists>live' new. Option.bind (act2 (live, tt)) act1 = Some (live', tt @ new) \<and> live_invar (cp_register_count p) live' \<and>
      ?A live \<subseteq> ?A live' \<and> ?A live' \<subseteq> ?A live \<union> (R1 \<union> R2) \<and> placed p (S1 \<union> S2) new \<and>
      (\<forall>q T L. flipped T p q \<longrightarrow> marks T (S1 \<union> S2) new \<longrightarrow> (L - ?A live) \<inter> (R1 \<union> R2 \<union> (W1 \<union> W2)) = {} \<longrightarrow>
         C q (L \<union> (R1 \<union> R2) \<inter> ?A live') L)"
    by (intro exI [of _ live1] exI [of _ "new2 @ new1"] conjI allI impI)
      ((fact act 1(2) order_trans [OF 2(3) 1(3)] bound placed_append [OF 1(5) 2(5)])+, rule C)
qed

text \<open>Two exclusive arms, each followed by the same code.\<close>

lemma moved_join:
  assumes "moved p S1 R1 W1 act1 C1" "moved p S2 R2 W2 act2 C2" "S1 \<inter> S2 = {}"
    and "\<And>l1 l2. live_invar (cp_register_count p) l1 \<Longrightarrow> live_invar (cp_register_count p) l2 \<Longrightarrow>
      live_invar (cp_register_count p) (un l1 l2) \<and> live_members (un l1 l2) = live_members l1 \<union> live_members l2"
    and "\<And>q T M1 M2 L' L. flipped T p q \<Longrightarrow> C1 q M1 L \<Longrightarrow> M1 \<subseteq> L' \<Longrightarrow> C2 q M2 L \<Longrightarrow> M2 \<subseteq> L' \<Longrightarrow> C q L' L"
  shows "moved p (S1 \<union> S2) (R1 \<union> R2) (W1 \<union> W2)
    (\<lambda>(live, tt). Option.bind (act2 (live, tt)) (\<lambda>(l2, tt2). Option.bind (act1 (live, tt2)) (\<lambda>(l1, tt1). Some (un l1 l2, tt1)))) C"
proof (rule movedI)
  fix live tt
  assume live: "live_invar (cp_register_count p) live" "live_members live \<inter> (W1 \<union> W2) = {}"
  let ?A = live_members
  have live12: "?A live \<inter> W1 = {}" "?A live \<inter> W2 = {}" using live(2) by blast+
  obtain live2 new2 where 2: "act2 (live, tt) = Some (live2, tt @ new2)" "live_invar (cp_register_count p) live2"
    "?A live \<subseteq> ?A live2" "?A live2 \<subseteq> ?A live \<union> R2" "placed p S2 new2"
    and C2: "\<And>q T L. flipped T p q \<Longrightarrow> marks T S2 new2 \<Longrightarrow> (L - ?A live) \<inter> (R2 \<union> W2) = {} \<Longrightarrow> C2 q (L \<union> R2 \<inter> ?A live2) L"
    by (rule movedE [OF assms(2) live(1) live12(2), of tt]) blast
  obtain live1 new1 where 1: "act1 (live, tt @ new2) = Some (live1, (tt @ new2) @ new1)" "live_invar (cp_register_count p) live1"
    "?A live \<subseteq> ?A live1" "?A live1 \<subseteq> ?A live \<union> R1" "placed p S1 new1"
    and C1: "\<And>q T L. flipped T p q \<Longrightarrow> marks T S1 new1 \<Longrightarrow> (L - ?A live) \<inter> (R1 \<union> W1) = {} \<Longrightarrow> C1 q (L \<union> R1 \<inter> ?A live1) L"
    by (rule movedE [OF assms(1) live(1) live12(1), of "tt @ new2"]) blast
  let ?u = "un live1 live2"
  have u: "live_invar (cp_register_count p) ?u" "?A ?u = ?A live1 \<union> ?A live2" using assms(4) [OF 1(2) 2(2)] by blast+
  have bounds: "?A live \<subseteq> ?A ?u" "?A ?u \<subseteq> ?A live \<union> (R1 \<union> R2)" using 1(3,4) 2(3,4) u(2) by blast+
  have "C q (L \<union> (R1 \<union> R2) \<inter> ?A ?u) L"
    if f: "flipped T p q" and m: "marks T (S1 \<union> S2) (new2 @ new1)" and L: "(L - ?A live) \<inter> (R1 \<union> R2 \<union> (W1 \<union> W2)) = {}" for q T L
  proof -
    note m12 = marks_split [OF m 1(5) 2(5) assms(3)]
    have "(L - ?A live) \<inter> (R1 \<union> W1) = {}" "(L - ?A live) \<inter> (R2 \<union> W2) = {}" using L by blast+
    note c = C1 [OF f m12(1) this(1)] C2 [OF f m12(2) this(2)]
    show ?thesis by (rule assms(5) [OF f c(1) _ c(2)]) (use u(2) in blast)+
  qed
  note C = this
  have act: "(case (live, tt) of (live, tt) \<Rightarrow>
      Option.bind (act2 (live, tt)) (\<lambda>(l2, tt2). Option.bind (act1 (live, tt2)) (\<lambda>(l1, tt1). Some (un l1 l2, tt1)))) = Some (?u, tt @ (new2 @ new1))"
    using 1(1) 2(1) by simp
  show "\<exists>live' new. (case (live, tt) of (live, tt) \<Rightarrow>
      Option.bind (act2 (live, tt)) (\<lambda>(l2, tt2). Option.bind (act1 (live, tt2)) (\<lambda>(l1, tt1). Some (un l1 l2, tt1)))) = Some (live', tt @ new) \<and>
      live_invar (cp_register_count p) live' \<and> ?A live \<subseteq> ?A live' \<and> ?A live' \<subseteq> ?A live \<union> (R1 \<union> R2) \<and> placed p (S1 \<union> S2) new \<and>
      (\<forall>q T L. flipped T p q \<longrightarrow> marks T (S1 \<union> S2) new \<longrightarrow> (L - ?A live) \<inter> (R1 \<union> R2 \<union> (W1 \<union> W2)) = {} \<longrightarrow>
         C q (L \<union> (R1 \<union> R2) \<inter> ?A live') L)"
    by (intro exI [of _ ?u] exI [of _ "new2 @ new1"] conjI allI impI)
      ((fact act u(1) bounds placed_append [OF 1(5) 2(5)])+, rule C)
qed

lemma union_either:
  assumes "live_invar rc l1" "live_invar rc l2"
  shows "live_invar rc (live_union l1 l2) \<and> live_members (live_union l1 l2) = live_members l1 \<union> live_members l2"
    "live_invar rc (live_union l2 l1) \<and> live_members (live_union l2 l1) = live_members l1 \<union> live_members l2"
  using live.join_ok [of rc] assms by blast+

section \<open>Nodes\<close>

lemma bind_case: "Option.bind x f = (case x of None \<Rightarrow> None | Some y \<Rightarrow> f y)"
  by (cases x) simp_all

definition movable :: "('x, 'k, 'w) eval_env \<Rightarrow> 'x compact_program \<Rightarrow> nat \<Rightarrow> node_ref \<Rightarrow> 'x opt_expr \<Rightarrow> bool" where
  "movable E p k n e \<longleftrightarrow>
     moved p (seg n e) (set (reads e)) (set (writes e)) (analyze p k n)
       (\<lambda>q L' L. \<forall>d. csim L' L (eval_node E p d) (eval_node E q d) n)"

abbreviation segs :: "(node_ref \<times> 'x opt_expr) list \<Rightarrow> nat set" where
  "segs qs \<equiv> \<Union>q \<in> set qs. seg (fst q) (snd q)"

lemma movable_seqI:
  assumes "list_all2 (movable E p k) ns es" "sorted_wrt (\<lambda>q q'. seg (fst q) (snd q) \<inter> seg (fst q') (snd q') = {}) (zip ns es)"
    and "sorted_wrt apart es"
  shows "moved p (segs (zip ns es)) (set (concat (map reads es))) (set (concat (map writes es))) (analyze_sequential (analyze p k) ns)
    (\<lambda>q L' L. \<forall>d. chain L' L (eval_node E p d) (eval_node E q d) ns)"
  using assms
proof (induction ns es rule: list_all2_induct)
  case Nil
  show ?case by (rule movedI) (auto simp: placed_def)
next
  case (Cons n ns e es)
  have IH: "moved p (segs (zip ns es)) (set (concat (map reads es))) (set (concat (map writes es))) (analyze_sequential (analyze p k) ns)
      (\<lambda>q L' L. \<forall>d. chain L' L (eval_node E p d) (eval_node E q d) ns)"
    using Cons by simp
  have "seg n e \<inter> segs (zip ns es) = {}" using Cons.prems(1) by auto
  moreover have "set (concat (map reads es)) \<inter> set (writes e) = {}" using Cons.prems(2) by (auto simp: apart_def)
  ultimately have "moved p (seg n e \<union> segs (zip ns es)) (set (reads e) \<union> set (concat (map reads es)))
      (set (writes e) \<union> set (concat (map writes es))) (\<lambda>a. Option.bind (analyze_sequential (analyze p k) ns a) (analyze p k n))
      (\<lambda>q L' L. \<forall>d. chain L' L (eval_node E p d) (eval_node E q d) (n # ns))"
    by (rule moved_seq [OF Cons.hyps(1) [unfolded movable_def] IH]) (auto intro: csim_mono)
  moreover have "analyze_sequential (analyze p k) (n # ns) = (\<lambda>a. Option.bind (analyze_sequential (analyze p k) ns a) (analyze p k n))"
    by (rule ext) simp
  ultimately show ?case by (simp only: zip_Cons_Cons list.map concat.simps set_append list.set UN_insert fst_conv snd_conv)
qed

lemma node_sim:
  assumes "cp_node p n = Some node" "\<And>r. node \<noteq> NRegister r" "flipped T p q"
    and "\<And>d. csim L' L (\<lambda>_. eval_opt_node E p (eval_node E p d) node) (\<lambda>_. eval_opt_node E q (eval_node E q d) node) n"
  shows "csim L' L (eval_node E p d) (eval_node E q d) n"
proof (cases d)
  case (Suc d')
  have "(case node of NRegister r \<Rightarrow> if n \<in> T then NRegisterTake r else NRegister r | _ \<Rightarrow> node) = node"
    using assms(2) by (cases node) auto
  then have "cp_node q n = Some node" using assms(1,3) unfolding flipped_def by simp
  then show ?thesis using assms(4) [of d'] assms(1) Suc unfolding csim_def by (simp add: or_panic_def)
qed (simp add: csim_def)

lemma tiled_segs: "tiled n e qs \<Longrightarrow> segs qs \<subseteq> seg n e"
  unfolding tiled_def list_all_iff seg_def [of n e] by fastforce

lemma movable_node:
  assumes "cp_node p n = Some node" "\<And>r. node \<noteq> NRegister r" "moved p S R W act C"
    and "S \<subseteq> seg n e" "set (reads e) = R" "set (writes e) = W" "\<And>a. analyze p (Suc k) n a = act a"
    and "\<And>q T L' L d. flipped T p q \<Longrightarrow> C q L' L \<Longrightarrow>
      csim L' L (\<lambda>_. eval_opt_node E p (eval_node E p d) node) (\<lambda>_. eval_opt_node E q (eval_node E q d) node) n"
  shows "movable E p (Suc k) n e"
  unfolding movable_def assms(5,6)
proof (rule moved_mono [OF assms(3,4) _ assms(7)])
  fix q T L' L
  assume "flipped T p q" "C q L' L"
  then show "\<forall>d. csim L' L (eval_node E p d) (eval_node E q d) n"
    using node_sim [OF assms(1,2) \<open>flipped T p q\<close>] assms(8) by blast
qed

lemma movable_run:
  assumes "cp_node p n = Some node" "\<And>r. node \<noteq> NRegister r" "list_all2 (movable E p k) ns es"
    and "tiled n e (zip ns es)" "children_scoped e" "children e = es" "\<And>r. e \<noteq> ERegister r" "\<And>ss r. e \<noteq> EBlock ss r"
    and "\<And>a. analyze p (Suc k) n a = analyze_sequential (analyze p k) ns a"
    and "\<And>q T L' L d. flipped T p q \<Longrightarrow> chain L' L (eval_node E p d) (eval_node E q d) ns \<Longrightarrow>
      csim L' L (\<lambda>_. eval_opt_node E p (eval_node E p d) node) (\<lambda>_. eval_opt_node E q (eval_node E q d) node) n"
  shows "movable E p (Suc k) n e"
proof (rule movable_node [OF assms(1,2) movable_seqI [OF assms(3)]])
  show "sorted_wrt (\<lambda>q q'. seg (fst q) (snd q) \<inter> seg (fst q') (snd q') = {}) (zip ns es)" using assms(4) by (simp add: tiled_def)
  show "sorted_wrt apart es" using assms(5,6) by (simp add: children_scoped_apart)
  show "segs (zip ns es) \<subseteq> seg n e" by (rule tiled_segs [OF assms(4)])
  show "set (reads e) = set (concat (map reads es))" "set (writes e) = set (concat (map writes es))"
    using reads_node [OF assms(7)] writes_node [OF assms(8)] assms(6) by simp_all
qed (use assms(9,10) in blast)+

text \<open>Leaves and registers.\<close>

lemma movable_register:
  assumes "cp_node p n = Some (NRegister r)" "r < cp_register_count p"
  shows "movable E p (Suc k) n (ERegister r)"
  unfolding movable_def
proof (rule movedI)
  fix live tt
  assume inv: "live_invar (cp_register_count p) live"
  let ?A = live_members
  have rw: "set (reads (ERegister r :: 'a opt_expr)) = {r}" "set (writes (ERegister r :: 'a opt_expr)) = {}"
    by (simp_all add: reads.simps [of "ERegister r"] writes.simps [of "ERegister r"])
  obtain live' where l: "live_insert live r = Some live'" "live_invar (cp_register_count p) live'" "?A live' = insert r (?A live)"
    using live.add_ok [OF inv assms(2)] by blast
  let ?new = "if r \<in> ?A live then [] else [n]"
  have act: "analyze p (Suc k) n (live, tt) = Some (live', tt @ ?new)"
    using assms(1) live.contains_ok [OF inv assms(2)] l(1) by (simp add: analyze_node_def)
  have seg: "unat n \<in> seg n (ERegister r :: 'a opt_expr)" by (simp add: seg_def)
  have C: "csim (L \<union> {r} \<inter> ?A live') L (eval_node E p d) (eval_node E q d) n"
    if f: "flipped T p q" and m: "marks T (seg n (ERegister r :: 'a opt_expr)) ?new" and L: "(L - ?A live) \<inter> ({r} \<union> {}) = {}" for q T L d
  proof (cases d)
    case (Suc d')
    have "n \<in> T \<longleftrightarrow> r \<notin> ?A live" using m seg unfolding marks_def by auto
    then have q: "cp_node q n = Some (if r \<in> ?A live then NRegister r else NRegisterTake r)" "cp_register_count q = cp_register_count p"
      using f assms(1) unfolding flipped_def by simp_all
    have "r \<in> L \<Longrightarrow> r \<in> ?A live" using L by blast
    then show ?thesis using assms q l(3) unfolding csim_def Suc
      by (auto simp: eval_opt_node_def or_panic_def read_register_def sim_def)
  qed (simp add: csim_def)
  have pl: "placed p (seg n (ERegister r :: 'a opt_expr)) ?new" "?A live \<subseteq> ?A live'" "?A live' \<subseteq> ?A live \<union> {r}"
    using seg assms(1) l(3) by (auto simp: placed_def)
  show "\<exists>live' new. analyze p (Suc k) n (live, tt) = Some (live', tt @ new) \<and> live_invar (cp_register_count p) live' \<and>
      ?A live \<subseteq> ?A live' \<and> ?A live' \<subseteq> ?A live \<union> set (reads (ERegister r :: 'a opt_expr)) \<and> placed p (seg n (ERegister r :: 'a opt_expr)) new \<and>
      (\<forall>q T L. flipped T p q \<longrightarrow> marks T (seg n (ERegister r :: 'a opt_expr)) new \<longrightarrow>
        (L - ?A live) \<inter> (set (reads (ERegister r :: 'a opt_expr)) \<union> set (writes (ERegister r :: 'a opt_expr))) = {} \<longrightarrow>
        (\<forall>d. csim (L \<union> set (reads (ERegister r :: 'a opt_expr)) \<inter> ?A live') L (eval_node E p d) (eval_node E q d) n))"
    unfolding rw by (intro exI [of _ live'] exI [of _ ?new] conjI allI impI) ((fact act l(2) pl)+, rule C)
qed

text \<open>Branching.\<close>

lemma csim_eval_if:
  assumes "csim L' M f g c" "csim M L f g t" "csim M L f g e"
  shows "csim L' L (\<lambda>_. eval_opt_node E p f (NIf c t e)) (\<lambda>_. eval_opt_node E q g (NIf c t e)) n"
  using csim_if [OF assms, of n] unfolding csim_def by (simp add: eval_opt_node_def)

lemma movable_if:
  assumes "cp_node p n = Some (NIf i j l)" "movable E p k i c" "movable E p k j t" "movable E p k l e"
    and "tiled n (EIf c t e) [(i, c), (j, t), (l, e)]" "children_scoped (EIf c t e)"
  shows "movable E p (Suc k) n (EIf c t e)"
proof (rule movable_node [OF assms(1)])
  have s: "seg i c \<inter> seg j t = {}" "seg i c \<inter> seg l e = {}" "seg j t \<inter> seg l e = {}" using assms(5) by (simp_all add: tiled_def)
  have a: "apart c t" "apart c e" using assms(6) by (simp_all add: children_scoped_apart)
  have arms: "moved p (seg l e \<union> seg j t) (set (reads e) \<union> set (reads t)) (set (writes e) \<union> set (writes t))
      (\<lambda>(live, tt). Option.bind (analyze p k j (live, tt)) (\<lambda>(l2, tt2).
         Option.bind (analyze p k l (live, tt2)) (\<lambda>(l1, tt1). Some (live_union l2 l1, tt1))))
      (\<lambda>q L' L. \<forall>d. csim L' L (eval_node E p d) (eval_node E q d) j \<and> csim L' L (eval_node E p d) (eval_node E q d) l)"
    by (rule moved_join [OF assms(4,3) [unfolded movable_def], where un = "\<lambda>l1 l2. live_union l2 l1"])
      (use s(3) union_either(2) in \<open>auto intro: csim_mono\<close>)
  show "moved p (seg i c \<union> (seg l e \<union> seg j t)) (set (reads c) \<union> (set (reads e) \<union> set (reads t)))
      (set (writes c) \<union> (set (writes e) \<union> set (writes t)))
      (\<lambda>a. Option.bind ((\<lambda>(live, tt). Option.bind (analyze p k j (live, tt)) (\<lambda>(l2, tt2).
         Option.bind (analyze p k l (live, tt2)) (\<lambda>(l1, tt1). Some (live_union l2 l1, tt1)))) a) (analyze p k i))
      (\<lambda>q L' L. \<forall>d. csim L' L (\<lambda>_. eval_opt_node E p (eval_node E p d) (NIf i j l)) (\<lambda>_. eval_opt_node E q (eval_node E q d) (NIf i j l)) n)"
  proof (rule moved_seq [OF assms(2) [unfolded movable_def] arms])
    show "seg i c \<inter> (seg l e \<union> seg j t) = {}" using s by blast
    show "(set (reads e) \<union> set (reads t)) \<inter> set (writes c) = {}" using a by (auto simp: apart_def)
  qed (blast intro: csim_eval_if csim_mono)
  show "seg i c \<union> (seg l e \<union> seg j t) \<subseteq> seg n (EIf c t e)" using tiled_segs [OF assms(5)] by auto
  show "analyze p (Suc k) n a = Option.bind ((\<lambda>(live, tt). Option.bind (analyze p k j (live, tt)) (\<lambda>(l2, tt2).
         Option.bind (analyze p k l (live, tt2)) (\<lambda>(l1, tt1). Some (live_union l2 l1, tt1)))) a) (analyze p k i)" for a
    using assms(1) by (cases a) (auto simp: analyze_node_def bind_case split: option.split prod.split)
qed (auto simp: reads_node writes_node)

lemma chain_pairs_mono:
  assumes "chain_pairs M' L f g bs d" "M' \<subseteq> L'"
  shows "chain_pairs L' L f g bs d"
proof (cases bs)
  case Nil
  then show ?thesis using assms csim_mono [of M' L f g d L' L] by simp
next
  case (Cons b rest)
  obtain c v where b: "b = (c, v)" by fastforce
  then obtain M where M: "csim M' M f g c" "csim M L f g v" "chain_pairs M L f g rest d" using assms(1) Cons by auto
  have "csim L' M f g c" by (rule csim_mono [OF M(1) assms(2)]) simp
  then show ?thesis using M(2,3) Cons b by auto
qed

lemma moved_pairs:
  assumes "movable E p k kd d"
  shows "list_all2 (movable E p k) refs (concat (map (\<lambda>(c, v). [c, v]) bs)) \<Longrightarrow>
    sorted_wrt (\<lambda>q q'. seg (fst q) (snd q) \<inter> seg (fst q') (snd q') = {}) (zip refs (concat (map (\<lambda>(c, v). [c, v]) bs)) @ [(kd, d)]) \<Longrightarrow>
    sorted_wrt apart (concat (map (\<lambda>(c, v). [c, v]) bs) @ [d]) \<Longrightarrow>
    moved p (segs (zip refs (concat (map (\<lambda>(c, v). [c, v]) bs)) @ [(kd, d)]))
      (set (concat (map reads (concat (map (\<lambda>(c, v). [c, v]) bs) @ [d]))))
      (set (concat (map writes (concat (map (\<lambda>(c, v). [c, v]) bs) @ [d]))))
      (\<lambda>(live, tt). Option.bind (analyze p k kd (live, tt)) (analyze_pairs (analyze p k) live (pair_up refs)))
      (\<lambda>q L' L. \<forall>x. chain_pairs L' L (eval_node E p x) (eval_node E q x) (pair_up refs) kd)"
proof (induction bs arbitrary: refs)
  case Nil
  have "(\<lambda>(live, tt). Option.bind (analyze p k kd (live, tt)) (analyze_pairs (analyze p k) live [])) = analyze p k kd"
    by (rule ext) (auto simp: bind_case split: option.split)
  then show ?case using assms Nil(1) by (simp add: movable_def)
next
  case (Cons b bs)
  obtain c v where b: "b = (c, v)" by fastforce
  obtain i j rest where refs: "refs = i # j # rest" and m: "movable E p k i c" "movable E p k j v"
    and r: "list_all2 (movable E p k) rest (concat (map (\<lambda>(c, v). [c, v]) bs))"
    using Cons.prems(1) by (auto simp: b list_all2_Cons2)
  let ?cs = "concat (map (\<lambda>(c, v). [c, v]) bs)"
  let ?G = "\<lambda>(live, tt). Option.bind (analyze p k kd (live, tt)) (analyze_pairs (analyze p k) live (pair_up rest))"
  have IH: "moved p (segs (zip rest ?cs @ [(kd, d)])) (set (concat (map reads (?cs @ [d])))) (set (concat (map writes (?cs @ [d])))) ?G
      (\<lambda>q L' L. \<forall>x. chain_pairs L' L (eval_node E p x) (eval_node E q x) (pair_up rest) kd)"
    using Cons.IH [OF r] Cons.prems(2,3) by (simp add: b refs)
  let ?S = "segs (zip rest ?cs @ [(kd, d)])" and ?R = "set (concat (map reads (?cs @ [d])))" and ?W = "set (concat (map writes (?cs @ [d])))"
  have s: "seg i c \<inter> seg j v = {}" "seg i c \<inter> ?S = {}" "seg j v \<inter> ?S = {}" using Cons.prems(2) by (auto simp: b refs)
  have a: "apart c v" "\<forall>x \<in> set (?cs @ [d]). apart c x" using Cons.prems(3) by (auto simp: b)
  let ?J = "\<lambda>(live, tt). Option.bind (?G (live, tt)) (\<lambda>(l2, tt2). Option.bind (analyze p k j (live, tt2)) (\<lambda>(l1, tt1). Some (live_union l1 l2, tt1)))"
  have arms: "moved p (seg j v \<union> ?S) (set (reads v) \<union> ?R) (set (writes v) \<union> ?W) ?J
      (\<lambda>q L' L. \<forall>x. csim L' L (eval_node E p x) (eval_node E q x) j \<and> chain_pairs L' L (eval_node E p x) (eval_node E q x) (pair_up rest) kd)"
  proof (rule moved_join [OF m(2) [unfolded movable_def] IH s(3), where un = live_union])
    fix q :: "'a compact_program" and M1 M2 L' L
    assume "\<forall>x. csim M1 L (eval_node E p x) (eval_node E q x) j" "M1 \<subseteq> L'"
      "\<forall>x. chain_pairs M2 L (eval_node E p x) (eval_node E q x) (pair_up rest) kd" "M2 \<subseteq> L'"
    then show "\<forall>x. csim L' L (eval_node E p x) (eval_node E q x) j \<and> chain_pairs L' L (eval_node E p x) (eval_node E q x) (pair_up rest) kd"
      by (simp add: csim_mono [of M1 L _ _ j L' L] chain_pairs_mono [of M2 L _ _ "pair_up rest" kd L'])
  qed (rule union_either(1))
  have "moved p (seg i c \<union> (seg j v \<union> ?S)) (set (reads c) \<union> (set (reads v) \<union> ?R)) (set (writes c) \<union> (set (writes v) \<union> ?W))
      (\<lambda>a. Option.bind (?J a) (analyze p k i))
      (\<lambda>q L' L. \<forall>x. chain_pairs L' L (eval_node E p x) (eval_node E q x) (pair_up refs) kd)"
  proof (rule moved_seq [OF m(1) [unfolded movable_def] arms])
    show "seg i c \<inter> (seg j v \<union> ?S) = {}" using s by blast
    have "\<forall>x \<in> set (v # ?cs @ [d]). set (writes c) \<inter> set (reads x) = {}" using a by (auto simp: apart_def)
    then have "\<forall>x \<in> set (v # ?cs @ [d]). \<forall>r \<in> set (reads x). r \<notin> set (writes c)" by blast
    then show "(set (reads v) \<union> ?R) \<inter> set (writes c) = {}" unfolding set_concat by auto
    fix q :: "'a compact_program" and M' L' M L
    assume "\<forall>x. csim M' M (eval_node E p x) (eval_node E q x) i" "M' \<subseteq> L'"
      "\<forall>x. csim M L (eval_node E p x) (eval_node E q x) j \<and> chain_pairs M L (eval_node E p x) (eval_node E q x) (pair_up rest) kd"
    then show "\<forall>x. chain_pairs L' L (eval_node E p x) (eval_node E q x) (pair_up refs) kd"
      by (auto simp: refs csim_mono [of M' M _ _ i L' M] intro!: exI [of _ M])
  qed
  moreover have "Option.bind (?J a) (analyze p k i) =
      (case a of (live, tt) \<Rightarrow> Option.bind (analyze p k kd (live, tt)) (analyze_pairs (analyze p k) live (pair_up refs)))" for a
    by (cases a) (auto simp: refs bind_case split: option.split prod.split)
  moreover have "set (concat (map reads (concat (map (\<lambda>(c, v). [c, v]) (b # bs)) @ [d]))) = set (reads c) \<union> (set (reads v) \<union> ?R)"
    "set (concat (map writes (concat (map (\<lambda>(c, v). [c, v]) (b # bs)) @ [d]))) = set (writes c) \<union> (set (writes v) \<union> ?W)"
    "segs (zip refs (concat (map (\<lambda>(c, v). [c, v]) (b # bs))) @ [(kd, d)]) = seg i c \<union> (seg j v \<union> ?S)"
    by (simp_all only: b refs list.map concat.simps prod.case append.simps zip_Cons_Cons list.set set_append UN_insert fst_conv snd_conv)
  ultimately show ?case by (simp only: cong: prod.case_cong)
qed

lemma movable_multi_if:
  assumes "cp_node p n = Some (NMultiIf sl kd)" "cp_args p sl = Some refs" "movable E p k kd d"
    and "list_all2 (movable E p k) refs (concat (map (\<lambda>(c, v). [c, v]) bs))"
    and "tiled n (EMultiIf bs d) (zip refs (concat (map (\<lambda>(c, v). [c, v]) bs)) @ [(kd, d)])" "children_scoped (EMultiIf bs d)"
  shows "movable E p (Suc k) n (EMultiIf bs d)"
proof (rule movable_node [OF assms(1) _ moved_pairs [OF assms(3,4)]])
  show "sorted_wrt (\<lambda>q q'. seg (fst q) (snd q) \<inter> seg (fst q') (snd q') = {}) (zip refs (concat (map (\<lambda>(c, v). [c, v]) bs)) @ [(kd, d)])"
    using assms(5) by (simp only: tiled_def)
  show "sorted_wrt apart (concat (map (\<lambda>(c, v). [c, v]) bs) @ [d])" using assms(6) unfolding children_scoped_apart children.simps .
  show "segs (zip refs (concat (map (\<lambda>(c, v). [c, v]) bs)) @ [(kd, d)]) \<subseteq> seg n (EMultiIf bs d)" by (rule tiled_segs [OF assms(5)])
  show "analyze p (Suc k) n a =
      (case a of (live, tt) \<Rightarrow> Option.bind (analyze p k kd (live, tt)) (analyze_pairs (analyze p k) live (pair_up refs)))" for a
    using assms(1,2) by (cases a) (auto simp: analyze_node_def bind_case split: option.split)
  fix q :: "'a compact_program" and T L' L x
  assume "flipped T p q" and "\<forall>x. chain_pairs L' L (eval_node E p x) (eval_node E q x) (pair_up refs) kd"
  then have c: "chain_pairs L' L (eval_node E p x) (eval_node E q x) (pair_up refs) kd" "cp_args q = cp_args p"
    using flipped_get(1) by blast+
  show "csim L' L (\<lambda>_. eval_opt_node E p (eval_node E p x) (NMultiIf sl kd)) (\<lambda>_. eval_opt_node E q (eval_node E q x) (NMultiIf sl kd)) n"
    by (rule csimI) (simp add: eval_opt_node_def or_panic_def assms(2) c(2) csim_multi_if [OF c(1)])
qed (simp_all add: reads_node writes_node)

lemma analyze_arms_snoc:
  "analyze_arms f live (ns @ [n]) a =
     Option.bind (analyze_arms f live ns a) (\<lambda>(arms, tt). Option.bind (f n (live, tt)) (\<lambda>(l, tt'). Some (live_union arms l, tt')))"
  by (induction f live ns a rule: analyze_arms.induct) (auto simp: bind_case split: option.split prod.split)

lemma moved_arms:
  assumes "movable E p k kd d"
  shows "list_all2 (movable E p k) ns es \<Longrightarrow>
    sorted_wrt (\<lambda>q q'. seg (fst q) (snd q) \<inter> seg (fst q') (snd q') = {}) (zip ns es @ [(kd, d)]) \<Longrightarrow>
    moved p (segs (zip ns es @ [(kd, d)])) (set (concat (map reads (es @ [d])))) (set (concat (map writes (es @ [d]))))
      (\<lambda>(live, tt). Option.bind (analyze p k kd (live, tt)) (analyze_arms (analyze p k) live ns))
      (\<lambda>q L' L. \<forall>x. \<forall>v \<in> set (kd # ns). csim L' L (eval_node E p x) (eval_node E q x) v)"
proof (induction ns arbitrary: es rule: rev_induct)
  case Nil
  have "(\<lambda>(live, tt). Option.bind (analyze p k kd (live, tt)) (analyze_arms (analyze p k) live [])) = analyze p k kd"
    by (rule ext) (auto simp: bind_case split: option.split)
  then show ?case using assms Nil(1) by (simp add: movable_def)
next
  case (snoc n ns)
  obtain es' e where es: "es = es' @ [e]" using snoc.prems(1) by (cases es rule: rev_cases) auto
  then have len: "length ns = length es'" using list_all2_lengthD [OF snoc.prems(1)] by simp
  have m: "list_all2 (movable E p k) ns es'" "movable E p k n e"
    using snoc.prems(1) list_all2_append [OF len, of _ "[n]" "[e]"] by (auto simp: es)
  have z: "zip (ns @ [n]) es = zip ns es' @ [(n, e)]" using len by (simp add: es)
  let ?G = "\<lambda>(live, tt). Option.bind (analyze p k kd (live, tt)) (analyze_arms (analyze p k) live ns)"
  have "sorted_wrt (\<lambda>q q'. seg (fst q) (snd q) \<inter> seg (fst q') (snd q') = {}) (zip ns es' @ [(kd, d)])"
    using snoc.prems(2) unfolding z by (auto simp: sorted_wrt_append)
  note IH = snoc.IH [OF m(1) this]
  have s: "seg n e \<inter> segs (zip ns es' @ [(kd, d)]) = {}" using snoc.prems(2) unfolding z by (fastforce simp: sorted_wrt_append)
  have mv: "moved p (seg n e \<union> segs (zip ns es' @ [(kd, d)])) (set (reads e) \<union> set (concat (map reads (es' @ [d]))))
      (set (writes e) \<union> set (concat (map writes (es' @ [d]))))
      (\<lambda>(live, tt). Option.bind (?G (live, tt)) (\<lambda>(l2, tt2). Option.bind (analyze p k n (live, tt2)) (\<lambda>(l1, tt1). Some (live_union l2 l1, tt1))))
      (\<lambda>q L' L. \<forall>x. \<forall>v \<in> set (kd # ns @ [n]). csim L' L (eval_node E p x) (eval_node E q x) v)"
  proof (rule moved_join [OF m(2) [unfolded movable_def] IH s, where un = "\<lambda>l1 l2. live_union l2 l1"])
    fix q :: "'a compact_program" and M1 M2 L' L
    assume "\<forall>x. csim M1 L (eval_node E p x) (eval_node E q x) n" "M1 \<subseteq> L'"
      "\<forall>x. \<forall>v \<in> set (kd # ns). csim M2 L (eval_node E p x) (eval_node E q x) v" "M2 \<subseteq> L'"
    then show "\<forall>x. \<forall>v \<in> set (kd # ns @ [n]). csim L' L (eval_node E p x) (eval_node E q x) v"
      by (auto simp: csim_mono [of M1 L _ _ n L' L] csim_mono [of M2 L _ _ _ L' L])
  qed (rule union_either(2))
  have act: "(case a of (live, tt) \<Rightarrow>
        Option.bind (?G (live, tt)) (\<lambda>(l2, tt2). Option.bind (analyze p k n (live, tt2)) (\<lambda>(l1, tt1). Some (live_union l2 l1, tt1)))) =
      (case a of (live, tt) \<Rightarrow> Option.bind (analyze p k kd (live, tt)) (analyze_arms (analyze p k) live (ns @ [n])))" for a
    by (cases a) (auto simp: analyze_arms_snoc bind_case split: option.split)
  have sets: "set (concat (map reads (es @ [d]))) = set (reads e) \<union> set (concat (map reads (es' @ [d])))"
    "set (concat (map writes (es @ [d]))) = set (writes e) \<union> set (concat (map writes (es' @ [d])))"
    "segs (zip (ns @ [n]) es @ [(kd, d)]) = seg n e \<union> segs (zip ns es' @ [(kd, d)])"
    unfolding z by (auto simp: es)
  show ?case unfolding sets by (rule moved_mono [OF mv _ _ act [symmetric]]) auto
qed

lemma movable_switch:
  assumes "cp_node p n = Some (NSwitch sl t kd)" "cp_args p sl = Some refs" "cp_switch_table p t = Some tab"
    and "list_all2 (movable E p k) refs ins" "list_all2 (movable E p k) (map snd (table_map tab)) (map snd table)" "movable E p k kd d"
    and "tiled n (ESwitch ins table d) (zip (map snd (table_map tab)) (map snd table) @ [(kd, d)] @ zip refs ins)"
    and "children_scoped (ESwitch ins table d)"
  shows "movable E p (Suc k) n (ESwitch ins table d)"
proof (rule movable_node [OF assms(1)])
  let ?arms = "zip (map snd (table_map tab)) (map snd table) @ [(kd, d)]"
  have srt: "sorted_wrt (\<lambda>q q'. seg (fst q) (snd q) \<inter> seg (fst q') (snd q') = {}) (?arms @ zip refs ins)"
    using assms(7) unfolding tiled_def append_assoc by blast
  have ap: "sorted_wrt apart (ins @ map snd table @ [d])" using assms(8) unfolding children_scoped_apart children.simps .
  have s: "sorted_wrt (\<lambda>q q'. seg (fst q) (snd q) \<inter> seg (fst q') (snd q') = {}) ?arms"
    "sorted_wrt (\<lambda>q q'. seg (fst q) (snd q) \<inter> seg (fst q') (snd q') = {}) (zip refs ins)" "segs (zip refs ins) \<inter> segs ?arms = {}"
    using srt unfolding sorted_wrt_append [of _ ?arms] by (blast, blast, fastforce)
  have a: "sorted_wrt apart ins" "\<forall>x \<in> set ins. \<forall>y \<in> set (map snd table @ [d]). set (writes x) \<inter> set (reads y) = {}"
    using ap unfolding sorted_wrt_append [of _ ins] apart_def by blast+
  let ?G = "\<lambda>(live, tt). Option.bind (analyze p k kd (live, tt)) (analyze_arms (analyze p k) live (map snd (table_map tab)))"
  show "moved p (segs (zip refs ins) \<union> segs ?arms)
      (set (concat (map reads ins)) \<union> set (concat (map reads (map snd table @ [d]))))
      (set (concat (map writes ins)) \<union> set (concat (map writes (map snd table @ [d]))))
      (\<lambda>a. Option.bind (?G a) (analyze_sequential (analyze p k) refs))
      (\<lambda>q L' L. \<exists>M. \<forall>x. chain L' M (eval_node E p x) (eval_node E q x) refs \<and>
         (\<forall>v \<in> set (kd # map snd (table_map tab)). csim M L (eval_node E p x) (eval_node E q x) v))"
  proof (rule moved_seq [OF movable_seqI [OF assms(4) s(2) a(1)] moved_arms [OF assms(6,5) s(1)] s(3)])
    have "\<forall>x \<in> set ins. \<forall>r \<in> set (writes x). \<forall>y \<in> set (map snd table @ [d]). r \<notin> set (reads y)" using a(2) by blast
    then show "set (concat (map reads (map snd table @ [d]))) \<inter> set (concat (map writes ins)) = {}" unfolding set_concat by auto
    fix q :: "'a compact_program" and M' L' M L
    assume "\<forall>x. chain M' M (eval_node E p x) (eval_node E q x) refs" "M' \<subseteq> L'"
      "\<forall>x. \<forall>v \<in> set (kd # map snd (table_map tab)). csim M L (eval_node E p x) (eval_node E q x) v"
    then show "\<exists>M. \<forall>x. chain L' M (eval_node E p x) (eval_node E q x) refs \<and>
        (\<forall>v \<in> set (kd # map snd (table_map tab)). csim M L (eval_node E p x) (eval_node E q x) v)"
      by (intro exI [of _ M]) (auto simp: chain_mono [of M' M _ _ refs L'])
  qed
  show "segs (zip refs ins) \<union> segs ?arms \<subseteq> seg n (ESwitch ins table d)"
    using tiled_segs [OF assms(7)] unfolding append_assoc [symmetric] set_append [of ?arms] by blast
  show "analyze p (Suc k) n a = Option.bind (?G a) (analyze_sequential (analyze p k) refs)" for a
    using assms(1-3) by (cases a) (auto simp: analyze_node_def bind_case split: option.split)
  fix q :: "'a compact_program" and T L' L x
  assume "flipped T p q"
  then have q: "cp_args q = cp_args p" "cp_switch_table q = cp_switch_table p" using flipped_get by blast+
  assume "\<exists>M. \<forall>x. chain L' M (eval_node E p x) (eval_node E q x) refs \<and>
      (\<forall>v \<in> set (kd # map snd (table_map tab)). csim M L (eval_node E p x) (eval_node E q x) v)"
  then obtain M where M: "chain L' M (eval_node E p x) (eval_node E q x) refs"
    "\<forall>v \<in> set (kd # map snd (table_map tab)). csim M L (eval_node E p x) (eval_node E q x) v" by blast
  show "csim L' L (\<lambda>_. eval_opt_node E p (eval_node E p x) (NSwitch sl t kd)) (\<lambda>_. eval_opt_node E q (eval_node E q x) (NSwitch sl t kd)) n"
    by (rule csimI) (simp add: eval_opt_node_def or_panic_def assms(2,3) q csim_switch [OF M])
qed (simp_all add: reads_node writes_node)

text \<open>Let-bindings.\<close>

lemma writes_block_bind:
  "set (writes (EBlock ((x, e) # ss) r)) = insert x (set (writes e) \<union> set (writes (EBlock ss r)))" "set (writes (EBlock [] r)) = set (writes r)"
  by (auto simp: writes.simps [of "EBlock ((x, e) # ss) r"] writes.simps [of "EBlock ss r"] writes.simps [of "EBlock [] r"])

lemma csim_bind:
  assumes "csim M' M f g i" "csim (insert x M) L f g b" "x < cp_register_count p" "cp_register_count q = cp_register_count p"
  shows "csim M' L (\<lambda>_. eval_opt_node E p f (NBind x i b)) (\<lambda>_. eval_opt_node E q g (NBind x i b)) n"
proof (rule csimI)
  fix s s' :: "('a, 'b) eval_state"
  assume s: "sim M' s s'"
  have "osim L (f b ((fst s1)(x := v), snd s1)) (g b ((fst s1')(x := v), snd s1'))" if "sim M s1 s1'" for v s1 s1'
    by (rule csimD [OF assms(2), of "insert x M"]) (use that in \<open>auto simp: sim_def\<close>)
  then have "osim L (bind_res (f i s) (\<lambda>(v, s1). f b ((fst s1)(x := v), snd s1))) (bind_res (g i s') (\<lambda>(v, s1). g b ((fst s1)(x := v), snd s1)))"
    by (intro osim_bind [OF csimD [OF assms(1) s order_refl]]) simp
  then show "osim L (eval_opt_node E p f (NBind x i b) s) (eval_opt_node E q g (NBind x i b) s')"
    using assms(3,4) by (simp add: eval_opt_node_def or_panic_def read_register_def)
qed

lemma movable_bind:
  assumes "cp_node p n = Some (NBind x i b)" "x < cp_register_count p" "movable E p k i e" "movable E p k b (EBlock ss r)"
    and "tiled n (EBlock ((x, e) # ss) r) [(b, EBlock ss r), (i, e)]" "set (reads (EBlock ss r)) \<inter> set (writes e) = {}"
  shows "movable E p (Suc k) n (EBlock ((x, e) # ss) r)"
proof -
  let ?A = live_members and ?B = "EBlock ss r"
  let ?act = "\<lambda>a. Option.bind (analyze p k b a) (\<lambda>(live, tt). Option.bind (live_remove live x) (\<lambda>live'. analyze p k i (live', tt)))"
  let ?R = "set (reads e) \<union> set (reads ?B)" and ?W = "insert x (set (writes e) \<union> set (writes ?B))"
  let ?C = "\<lambda>q L' L. \<exists>M' M. M' \<subseteq> L' \<and> (\<forall>d. csim M' M (eval_node E p d) (eval_node E q d) i) \<and>
    (\<forall>d. csim (insert x M) L (eval_node E p d) (eval_node E q d) b)"
  have "moved p (seg i e \<union> seg b ?B) ?R ?W ?act ?C"
  proof (rule movedI)
    fix live tt
    assume live: "live_invar (cp_register_count p) live" "?A live \<inter> ?W = {}"
    have live2: "?A live \<inter> set (writes ?B) = {}" "x \<notin> ?A live" using live(2) by blast+
    obtain lb nb where B: "analyze p k b (live, tt) = Some (lb, tt @ nb)" "live_invar (cp_register_count p) lb"
      "?A live \<subseteq> ?A lb" "?A lb \<subseteq> ?A live \<union> set (reads ?B)" "placed p (seg b ?B) nb"
      and CB: "\<And>q T L. flipped T p q \<Longrightarrow> marks T (seg b ?B) nb \<Longrightarrow> (L - ?A live) \<inter> (set (reads ?B) \<union> set (writes ?B)) = {} \<Longrightarrow>
        \<forall>d. csim (L \<union> set (reads ?B) \<inter> ?A lb) L (eval_node E p d) (eval_node E q d) b"
      by (rule movedE [OF assms(4) [unfolded movable_def] live(1) live2(1), of tt]) blast
    obtain lr where R: "live_remove lb x = Some lr" "live_invar (cp_register_count p) lr" "?A lr = ?A lb - {x}"
      using live.delete_ok [OF B(2) assms(2)] by blast
    have liver: "?A lr \<inter> set (writes e) = {}" using R(3) B(4) live(2) assms(6) by blast
    obtain lv nv where V: "analyze p k i (lr, tt @ nb) = Some (lv, (tt @ nb) @ nv)" "live_invar (cp_register_count p) lv"
      "?A lr \<subseteq> ?A lv" "?A lv \<subseteq> ?A lr \<union> set (reads e)" "placed p (seg i e) nv"
      and CV: "\<And>q T L. flipped T p q \<Longrightarrow> marks T (seg i e) nv \<Longrightarrow> (L - ?A lr) \<inter> (set (reads e) \<union> set (writes e)) = {} \<Longrightarrow>
        \<forall>d. csim (L \<union> set (reads e) \<inter> ?A lv) L (eval_node E p d) (eval_node E q d) i"
      by (rule movedE [OF assms(3) [unfolded movable_def] R(2) liver, of "tt @ nb"]) blast
    have act: "?act (live, tt) = Some (lv, tt @ (nb @ nv))" using B(1) R(1) V(1) by simp
    have b: "?A live \<subseteq> ?A lv" "?A lv \<subseteq> ?A live \<union> ?R" using B(3,4) R(3) V(3,4) live2(2) by blast+
    have pl: "placed p (seg i e \<union> seg b ?B) (nb @ nv)" by (rule placed_append [OF V(5) B(5)])
    have C: "?C q (L \<union> ?R \<inter> ?A lv) L"
      if f: "flipped T p q" and m: "marks T (seg i e \<union> seg b ?B) (nb @ nv)" and L: "(L - ?A live) \<inter> (?R \<union> ?W) = {}" for q T L
    proof -
      have "seg i e \<inter> seg b ?B = {}" using assms(5) by (auto simp: tiled_def)
      note m12 = marks_split [OF m V(5) B(5) this]
      let ?M = "L \<union> set (reads ?B) \<inter> ?A lb - {x}"
      have "(L - ?A live) \<inter> (set (reads ?B) \<union> set (writes ?B)) = {}" "(?M - ?A lr) \<inter> (set (reads e) \<union> set (writes e)) = {}"
        using L B(3) R(3) by blast+
      note c = CB [OF f m12(2) this(1)] CV [OF f m12(1) this(2)]
      have sub: "L \<union> set (reads ?B) \<inter> ?A lb \<subseteq> insert x ?M" by blast
      have "csim (insert x ?M) L (eval_node E p d) (eval_node E q d) b" for d
        by (rule csim_mono [OF c(1) [rule_format] sub order_refl])
      moreover have "?M \<union> set (reads e) \<inter> ?A lv \<subseteq> L \<union> ?R \<inter> ?A lv" using V(3) R(3) by blast
      ultimately show ?thesis using c(2) by blast
    qed
    show "\<exists>live' new. ?act (live, tt) = Some (live', tt @ new) \<and> live_invar (cp_register_count p) live' \<and>
        ?A live \<subseteq> ?A live' \<and> ?A live' \<subseteq> ?A live \<union> ?R \<and> placed p (seg i e \<union> seg b ?B) new \<and>
        (\<forall>q T L. flipped T p q \<longrightarrow> marks T (seg i e \<union> seg b ?B) new \<longrightarrow> (L - ?A live) \<inter> (?R \<union> ?W) = {} \<longrightarrow> ?C q (L \<union> ?R \<inter> ?A live') L)"
      by (intro exI [of _ lv] exI [of _ "nb @ nv"] conjI allI impI) ((fact act V(2) b pl)+, rule C)
  qed
  then show ?thesis
  proof (rule movable_node [OF assms(1), rotated])
    show "seg i e \<union> seg b ?B \<subseteq> seg n (EBlock ((x, e) # ss) r)" using tiled_segs [OF assms(5)] by auto
    show "set (reads (EBlock ((x, e) # ss) r)) = ?R" by (simp add: reads_block_bind)
    show "set (writes (EBlock ((x, e) # ss) r)) = ?W" by (simp add: writes_block_bind)
    show "analyze p (Suc k) n a = ?act a" for a using assms(1) by (simp add: analyze_node_def)
    fix q :: "'a compact_program" and T L' L d
    assume "flipped T p q" "?C q L' L"
    then obtain M' M where "M' \<subseteq> L'" "csim M' M (eval_node E p d) (eval_node E q d) i" "csim (insert x M) L (eval_node E p d) (eval_node E q d) b"
      and rc: "cp_register_count q = cp_register_count p" using flipped_get(6) by blast
    then have "csim M' L (\<lambda>_. eval_opt_node E p (eval_node E p d) (NBind x i b)) (\<lambda>_. eval_opt_node E q (eval_node E q d) (NBind x i b)) n"
      by (intro csim_bind [OF _ _ assms(2) rc])
    then show "csim L' L (\<lambda>_. eval_opt_node E p (eval_node E p d) (NBind x i b)) (\<lambda>_. eval_opt_node E q (eval_node E q d) (NBind x i b)) n"
      by (rule csim_mono [OF _ \<open>M' \<subseteq> L'\<close> order_refl])
  qed simp
qed

end
