(* ===== verification/MoveCalls.thy ===== *)
theory MoveCalls
  imports MoveProps
begin

text \<open>
  Calls under the move annotator. The arguments are pushed from left to right and a register
  passed as it is is read when the function runs, after all of them; the aliasing guard keeps
  every register alive that the call reads twice.
\<close>

section \<open>Pushed arguments\<close>

definition untake :: "'x arg_item \<Rightarrow> 'x arg_item" where
  "untake item = (case item of ArgRegisterTake r \<Rightarrow> ArgRegister r | _ \<Rightarrow> item)"

lemma untake_simps [simp]:
  "untake (ArgValue v) = ArgValue v" "untake (ArgConst i) = ArgConst i" "untake (ArgRegister r) = ArgRegister r"
  "untake (ArgRegisterTake r) = ArgRegister r"
  by (simp_all add: untake_def)

lemma read_untake [simp]: "read_item p regs (untake item) = read_item p regs item"
  by (cases item) simp_all

text \<open>A push up to the kind of a register slot.\<close>

definition push_item ::
  "'x compact_program \<Rightarrow> (node_ref \<Rightarrow> ('x, 'w) eval_state \<Rightarrow> ('x, 'w) outcome) \<Rightarrow> node_ref \<Rightarrow> ('x, 'w) eval_state \<Rightarrow>
   eval_error + 'x arg_item \<times> ('x, 'w) eval_state" where
  "push_item p f n s = bind_res (push_arg p f n s) (\<lambda>(item, s1). Inr (untake item, s1))"

lemma bind_res_assoc: "bind_res (bind_res x f) g = bind_res x (\<lambda>r. bind_res (f r) g)"
  by (cases x) simp_all

lemma push_items: "eval_args (push_item p f) ns s = bind_res (eval_args (push_arg p f) ns s) (\<lambda>(items, s1). Inr (map untake items, s1))"
proof (induction ns arbitrary: s)
  case (Cons n ns)
  have "push_item p f n s = bind_res (push_arg p f n s) (\<lambda>(item, s1). Inr (untake item, s1))" by (rule push_item_def)
  then show ?case by (cases "push_arg p f n s") (simp_all add: Cons bind_res_assoc split_def)
qed simp

text \<open>The slots say which nodes they come from.\<close>

definition item_of :: "'x compact_program \<Rightarrow> node_ref \<Rightarrow> 'x arg_item \<Rightarrow> bool" where
  "item_of p n item =
     (case item of
        ArgValue v \<Rightarrow> True
      | ArgConst i \<Rightarrow> cp_node p n = Some (NConst i)
      | ArgRegister r \<Rightarrow> cp_node p n = Some (NRegister r)
      | ArgRegisterTake r \<Rightarrow> cp_node p n = Some (NRegisterTake r))"

lemma push_arg_item: "push_arg p f n s = Inr (item, s1) \<Longrightarrow> item_of p n item"
  unfolding push_arg_def item_of_def
  by (auto simp: bind_res_Inr_iff split: option.splits opt_node.splits)

lemma push_args_items: "eval_args (push_arg p f) ns s = Inr (items, s1) \<Longrightarrow> list_all2 (item_of p) ns items"
  by (induction ns arbitrary: s items) (auto simp: bind_res_Inr_iff push_arg_item)

text \<open>Pushing a direct operand touches no register; a nested one evaluates.\<close>

lemma flipped_node:
  "flipped T p q \<Longrightarrow> cp_node p n = Some (NRegister r) \<Longrightarrow> cp_node q n = Some (if n \<in> T then NRegisterTake r else NRegister r)"
  "flipped T p q \<Longrightarrow> cp_node p n = Some node \<Longrightarrow> (\<And>r. node \<noteq> NRegister r) \<Longrightarrow> cp_node q n = Some node"
  unfolding flipped_def by (auto split: opt_node.split)

lemma push_direct:
  assumes "flipped T p q" "cp_node p n = Some (NRegister r) \<or> cp_node p n = Some (NConst i)" "L \<subseteq> L'"
  shows "csim L' L (push_item p f) (push_item q g) n"
  using assms(2)
proof
  assume "cp_node p n = Some (NRegister r)"
  then show ?thesis using flipped_node(1) [OF assms(1)] assms(3)
    by (intro csimI) (auto simp: push_item_def push_arg_def intro: sim_mono)
next
  assume c: "cp_node p n = Some (NConst i)"
  then have "cp_node q n = Some (NConst i)" by (rule flipped_node(2) [OF assms(1)]) simp
  with c show ?thesis using assms(3) by (intro csimI) (auto simp: push_item_def push_arg_def intro: sim_mono)
qed

lemma push_nested:
  assumes "flipped T p q" "\<And>i. cp_node p n \<noteq> Some (NConst i)" "\<And>r. cp_node p n \<noteq> Some (NRegister r)"
    and "\<And>r. cp_node p n \<noteq> Some (NRegisterTake r)" "csim L' L f g n"
  shows "csim L' L (push_item p f) (push_item q g) n"
proof -
  have "cp_node q n = cp_node p n" using assms(1,3) unfolding flipped_def by (cases "cp_node p n") (auto split: opt_node.split)
  then have "push_item p f n s = bind_res (f n s) (\<lambda>(v, s1). Inr (ArgValue v, s1))"
    "push_item q g n s = bind_res (g n s) (\<lambda>(v, s1). Inr (ArgValue v, s1))" for s
    using assms(2-4) by (simp_all add: push_item_def push_arg_value bind_res_assoc split_def)
  moreover have "osim L (bind_res (f n s) (\<lambda>(v, s1). Inr (ArgValue v, s1))) (bind_res (g n s') (\<lambda>(v, s1). Inr (ArgValue v, s1)))"
    if "sim L' s s'" for s s' by (rule osim_bind [OF csimD [OF assms(5) that]]) simp_all
  ultimately show ?thesis by (simp add: csim_def)
qed

section \<open>The arguments of a call\<close>

lemma analyze_register:
  assumes "cp_node p n = Some (NRegister r)" "r < cp_register_count p" "live_invar (cp_register_count p) live"
  obtains live' where "analyze p (Suc k) n (live, tt) = Some (live', tt @ (if r \<in> live_members live then [] else [n]))"
    "live_invar (cp_register_count p) live'" "live_members live' = insert r (live_members live)"
proof -
  obtain live' where l: "live_insert live r = Some live'" "live_invar (cp_register_count p) live'" "live_members live' = insert r (live_members live)"
    using live.add_ok [OF assms(3,2)] by blast
  moreover have "analyze p (Suc k) n (live, tt) = Some (live', tt @ (if r \<in> live_members live then [] else [n]))"
    using assms(1) live.contains_ok [OF assms(3,2)] l(1) by (simp add: analyze_node_def)
  ultimately show thesis using that by blast
qed

text \<open>\<open>D\<close> are the registers that a call passes as they are; two runs agree on them when the function runs.\<close>

definition pushes ::
  "('x, 'k, 'w) eval_env \<Rightarrow> 'x compact_program \<Rightarrow> 'x compact_program \<Rightarrow> u16 set \<Rightarrow> u16 set \<Rightarrow> node_ref list \<Rightarrow> bool" where
  "pushes E p q L' L ns \<longleftrightarrow> (\<forall>d. chain L' L (push_item p (eval_node E p d)) (push_item q (eval_node E q d)) ns)"

text \<open>The analysis of the arguments from the registers \<open>A\<close>, live after the call or aliased.\<close>

definition args_moved ::
  "('x, 'k, 'w) eval_env \<Rightarrow> 'x compact_program \<Rightarrow> nat \<Rightarrow> u16 set \<Rightarrow> live_set \<Rightarrow> node_ref list \<Rightarrow> 'x opt_expr list \<Rightarrow> bool" where
  "args_moved E p k D live ns es \<longleftrightarrow>
     (\<forall>tt. \<exists>live' new. analyze_sequential (analyze p k) ns (live, tt) = Some (live', tt @ new) \<and> live_invar (cp_register_count p) live' \<and>
        live_members live \<subseteq> live_members live' \<and> live_members live' \<subseteq> live_members live \<union> set (concat (map reads es)) \<and>
        placed p (segs (zip ns es)) new \<and> (\<forall>n \<in> set ns. \<forall>r. cp_node p n = Some (NRegister r) \<longrightarrow> r \<in> live_members live') \<and>
        (\<forall>q T. flipped T p q \<longrightarrow> marks T (segs (zip ns es)) new \<longrightarrow>
           (\<forall>n \<in> set ns. \<forall>r. cp_node p n = Some (NRegister r) \<longrightarrow> n \<in> T \<longrightarrow> r \<notin> live_members live) \<and>
           (\<forall>L. (L - live_members live) \<inter> (set (concat (map reads es)) \<union> set (concat (map writes es))) = {} \<longrightarrow>
              pushes E p q (L \<union> D \<union> set (concat (map reads es)) \<inter> live_members live') (L \<union> D) ns)))"

lemma args_movedE:
  assumes "args_moved E p k D live ns es"
  obtains live' new where "analyze_sequential (analyze p k) ns (live, tt) = Some (live', tt @ new)" "live_invar (cp_register_count p) live'"
    "live_members live \<subseteq> live_members live'" "live_members live' \<subseteq> live_members live \<union> set (concat (map reads es))"
    "placed p (segs (zip ns es)) new"
    "\<And>n r. n \<in> set ns \<Longrightarrow> cp_node p n = Some (NRegister r) \<Longrightarrow> r \<in> live_members live'"
    "\<And>q T n r. flipped T p q \<Longrightarrow> marks T (segs (zip ns es)) new \<Longrightarrow> n \<in> set ns \<Longrightarrow> cp_node p n = Some (NRegister r) \<Longrightarrow> n \<in> T \<Longrightarrow>
      r \<notin> live_members live"
    "\<And>q T L. flipped T p q \<Longrightarrow> marks T (segs (zip ns es)) new \<Longrightarrow>
      (L - live_members live) \<inter> (set (concat (map reads es)) \<union> set (concat (map writes es))) = {} \<Longrightarrow>
      pushes E p q (L \<union> D \<union> set (concat (map reads es)) \<inter> live_members live') (L \<union> D) ns"
  using assms [unfolded args_moved_def, THEN spec, of tt] by (elim exE conjE) (rule that; (assumption | blast))

text \<open>One argument before the others.\<close>

lemma pushes_Cons:
  assumes "\<And>d. csim L' M (push_item p (eval_node E p d)) (push_item q (eval_node E q d)) n" "L \<subseteq> M" "pushes E p q M L ns"
  shows "pushes E p q L' L (n # ns)"
  using assms unfolding pushes_def by auto

lemma args_movedI:
  assumes "\<And>tt. \<exists>live' new. analyze_sequential (analyze p k) ns (live, tt) = Some (live', tt @ new) \<and> live_invar (cp_register_count p) live' \<and>
        live_members live \<subseteq> live_members live' \<and> live_members live' \<subseteq> live_members live \<union> set (concat (map reads es)) \<and>
        placed p (segs (zip ns es)) new \<and> (\<forall>n \<in> set ns. \<forall>r. cp_node p n = Some (NRegister r) \<longrightarrow> r \<in> live_members live') \<and>
        (\<forall>q T. flipped T p q \<longrightarrow> marks T (segs (zip ns es)) new \<longrightarrow>
           (\<forall>n \<in> set ns. \<forall>r. cp_node p n = Some (NRegister r) \<longrightarrow> n \<in> T \<longrightarrow> r \<notin> live_members live) \<and>
           (\<forall>L. (L - live_members live) \<inter> (set (concat (map reads es)) \<union> set (concat (map writes es))) = {} \<longrightarrow>
              pushes E p q (L \<union> D \<union> set (concat (map reads es)) \<inter> live_members live') (L \<union> D) ns))"
  shows "args_moved E p k D live ns es"
  unfolding args_moved_def using assms by blast

lemma args_moved_Nil: "live_invar (cp_register_count p) live \<Longrightarrow> args_moved E p k D live [] []"
  by (rule args_movedI) (auto simp: placed_def pushes_def)

text \<open>One argument, after whatever follows it left \<open>l\<close> live.\<close>

definition arg_moved ::
  "('x, 'k, 'w) eval_env \<Rightarrow> 'x compact_program \<Rightarrow> nat \<Rightarrow> u16 set \<Rightarrow> live_set \<Rightarrow> node_ref \<Rightarrow> 'x opt_expr \<Rightarrow> bool" where
  "arg_moved E p k D live n e \<longleftrightarrow>
     (\<forall>l tt. live_invar (cp_register_count p) l \<longrightarrow> live_members live \<subseteq> live_members l \<longrightarrow> live_members l \<inter> set (writes e) = {} \<longrightarrow>
        (\<exists>l' new. analyze p k n (l, tt) = Some (l', tt @ new) \<and> live_invar (cp_register_count p) l' \<and>
           live_members l \<subseteq> live_members l' \<and> live_members l' \<subseteq> live_members l \<union> set (reads e) \<and> placed p (seg n e) new \<and>
           (\<forall>r. cp_node p n = Some (NRegister r) \<longrightarrow> r \<in> live_members l') \<and>
           (\<forall>q T. flipped T p q \<longrightarrow> marks T (seg n e) new \<longrightarrow>
              (\<forall>r. cp_node p n = Some (NRegister r) \<longrightarrow> n \<in> T \<longrightarrow> r \<notin> live_members l) \<and>
              (\<forall>L M. (L - live_members live) \<inter> (set (reads e) \<union> set (writes e)) = {} \<longrightarrow> M - live_members l \<subseteq> L \<union> D \<longrightarrow>
                 (\<forall>d. csim (M \<union> set (reads e) \<inter> live_members l') M (push_item p (eval_node E p d)) (push_item q (eval_node E q d)) n)))))"

lemma arg_moved_register:
  assumes "cp_node p n = Some (NRegister r)" "r < cp_register_count p" "set (reads e) = {r}" "unat n \<in> seg n e"
  shows "arg_moved E p (Suc k) D live n e"
  unfolding arg_moved_def
proof (intro allI impI)
  fix l tt
  let ?A = live_members
  assume inv: "live_invar (cp_register_count p) l"
  let ?new = "if r \<in> ?A l then [] else [n]"
  obtain l' where 1: "analyze p (Suc k) n (l, tt) = Some (l', tt @ ?new)" "live_invar (cp_register_count p) l'" "?A l' = insert r (?A l)"
    by (rule analyze_register [OF assms(1,2) inv])
  have 2: "?A l \<subseteq> ?A l'" "?A l' \<subseteq> ?A l \<union> set (reads e)" "placed p (seg n e) ?new"
    "\<forall>r. cp_node p n = Some (NRegister r) \<longrightarrow> r \<in> ?A l'"
    using 1(3) assms(1,3,4) by (auto simp: placed_def)
  have C: "\<forall>q T. flipped T p q \<longrightarrow> marks T (seg n e) ?new \<longrightarrow>
      (\<forall>r. cp_node p n = Some (NRegister r) \<longrightarrow> n \<in> T \<longrightarrow> r \<notin> ?A l) \<and>
      (\<forall>L M. (L - ?A live) \<inter> (set (reads e) \<union> set (writes e)) = {} \<longrightarrow> M - ?A l \<subseteq> L \<union> D \<longrightarrow>
         (\<forall>d. csim (M \<union> set (reads e) \<inter> ?A l') M (push_item p (eval_node E p d)) (push_item q (eval_node E q d)) n))"
    using assms(1,4) unfolding marks_def by (auto intro!: push_direct split: if_splits)
  show "\<exists>l' new. analyze p (Suc k) n (l, tt) = Some (l', tt @ new) \<and> live_invar (cp_register_count p) l' \<and>
      ?A l \<subseteq> ?A l' \<and> ?A l' \<subseteq> ?A l \<union> set (reads e) \<and> placed p (seg n e) new \<and> (\<forall>r. cp_node p n = Some (NRegister r) \<longrightarrow> r \<in> ?A l') \<and>
      (\<forall>q T. flipped T p q \<longrightarrow> marks T (seg n e) new \<longrightarrow>
         (\<forall>r. cp_node p n = Some (NRegister r) \<longrightarrow> n \<in> T \<longrightarrow> r \<notin> ?A l) \<and>
         (\<forall>L M. (L - ?A live) \<inter> (set (reads e) \<union> set (writes e)) = {} \<longrightarrow> M - ?A l \<subseteq> L \<union> D \<longrightarrow>
            (\<forall>d. csim (M \<union> set (reads e) \<inter> ?A l') M (push_item p (eval_node E p d)) (push_item q (eval_node E q d)) n)))"
    by (intro exI [of _ l'] exI [of _ ?new] conjI) (fact 1(1,2) 2 C)+
qed

lemma push_other:
  assumes "flipped T p q" "\<And>r. cp_node p n \<noteq> Some (NRegister r)" "\<And>r. cp_node p n \<noteq> Some (NRegisterTake r)" "csim L' L f g n" "L \<subseteq> L'"
  shows "csim L' L (push_item p f) (push_item q g) n"
proof (cases "\<exists>i. cp_node p n = Some (NConst i)")
  case True
  then show ?thesis using push_direct [OF assms(1) _ assms(5)] by blast
qed (use push_nested [OF assms(1) _ assms(2-4)] in blast)

lemma arg_moved_nested:
  assumes "movable E p k n e" "\<And>r. cp_node p n \<noteq> Some (NRegister r)" "\<And>r. cp_node p n \<noteq> Some (NRegisterTake r)"
    and "D \<inter> set (reads e) \<subseteq> live_members live" "D \<inter> set (writes e) = {}"
  shows "arg_moved E p k D live n e"
  unfolding arg_moved_def
proof (intro allI impI)
  fix l tt
  let ?A = live_members
  assume inv: "live_invar (cp_register_count p) l" and sub: "?A live \<subseteq> ?A l" and w: "?A l \<inter> set (writes e) = {}"
  obtain l' new where 1: "analyze p k n (l, tt) = Some (l', tt @ new)" "live_invar (cp_register_count p) l'"
    "?A l \<subseteq> ?A l'" "?A l' \<subseteq> ?A l \<union> set (reads e)" "placed p (seg n e) new"
    and C1: "\<And>q T L. flipped T p q \<Longrightarrow> marks T (seg n e) new \<Longrightarrow> (L - ?A l) \<inter> (set (reads e) \<union> set (writes e)) = {} \<Longrightarrow>
      \<forall>d. csim (L \<union> set (reads e) \<inter> ?A l') L (eval_node E p d) (eval_node E q d) n"
    by (rule movedE [OF assms(1) [unfolded movable_def] inv w, of tt]) blast
  have R: "\<forall>r. cp_node p n = Some (NRegister r) \<longrightarrow> r \<in> ?A l'" using assms(2) by blast
  have "csim (M \<union> set (reads e) \<inter> ?A l') M (push_item p (eval_node E p d)) (push_item q (eval_node E q d)) n"
    if f: "flipped T p q" and m: "marks T (seg n e) new" and L: "(L - ?A live) \<inter> (set (reads e) \<union> set (writes e)) = {}" "M - ?A l \<subseteq> L \<union> D"
    for q T L M d
  proof -
    have "(M - ?A l) \<inter> (set (reads e) \<union> set (writes e)) = {}" using L assms(4,5) sub by blast
    then have "csim (M \<union> set (reads e) \<inter> ?A l') M (eval_node E p d) (eval_node E q d) n" using C1 [OF f m] by blast
    then show ?thesis by (intro push_other [OF f assms(2,3)]) auto
  qed
  then have C: "\<forall>q T. flipped T p q \<longrightarrow> marks T (seg n e) new \<longrightarrow>
      (\<forall>r. cp_node p n = Some (NRegister r) \<longrightarrow> n \<in> T \<longrightarrow> r \<notin> ?A l) \<and>
      (\<forall>L M. (L - ?A live) \<inter> (set (reads e) \<union> set (writes e)) = {} \<longrightarrow> M - ?A l \<subseteq> L \<union> D \<longrightarrow>
         (\<forall>d. csim (M \<union> set (reads e) \<inter> ?A l') M (push_item p (eval_node E p d)) (push_item q (eval_node E q d)) n))"
    using assms(2) by blast
  show "\<exists>l' new. analyze p k n (l, tt) = Some (l', tt @ new) \<and> live_invar (cp_register_count p) l' \<and>
      ?A l \<subseteq> ?A l' \<and> ?A l' \<subseteq> ?A l \<union> set (reads e) \<and> placed p (seg n e) new \<and> (\<forall>r. cp_node p n = Some (NRegister r) \<longrightarrow> r \<in> ?A l') \<and>
      (\<forall>q T. flipped T p q \<longrightarrow> marks T (seg n e) new \<longrightarrow>
         (\<forall>r. cp_node p n = Some (NRegister r) \<longrightarrow> n \<in> T \<longrightarrow> r \<notin> ?A l) \<and>
         (\<forall>L M. (L - ?A live) \<inter> (set (reads e) \<union> set (writes e)) = {} \<longrightarrow> M - ?A l \<subseteq> L \<union> D \<longrightarrow>
            (\<forall>d. csim (M \<union> set (reads e) \<inter> ?A l') M (push_item p (eval_node E p d)) (push_item q (eval_node E q d)) n)))"
    by (intro exI [of _ l'] exI [of _ new] conjI) (fact 1 R C)+
qed

lemma arg_movedE:
  assumes "arg_moved E p k D live n e" "live_invar (cp_register_count p) l" "live_members live \<subseteq> live_members l"
    "live_members l \<inter> set (writes e) = {}"
  obtains l' new where "analyze p k n (l, tt) = Some (l', tt @ new)" "live_invar (cp_register_count p) l'"
    "live_members l \<subseteq> live_members l'" "live_members l' \<subseteq> live_members l \<union> set (reads e)" "placed p (seg n e) new"
    "\<And>r. cp_node p n = Some (NRegister r) \<Longrightarrow> r \<in> live_members l'"
    "\<And>q T r. flipped T p q \<Longrightarrow> marks T (seg n e) new \<Longrightarrow> cp_node p n = Some (NRegister r) \<Longrightarrow> n \<in> T \<Longrightarrow> r \<notin> live_members l"
    "\<And>q T L M d. flipped T p q \<Longrightarrow> marks T (seg n e) new \<Longrightarrow>
      (L - live_members live) \<inter> (set (reads e) \<union> set (writes e)) = {} \<Longrightarrow> M - live_members l \<subseteq> L \<union> D \<Longrightarrow>
      csim (M \<union> set (reads e) \<inter> live_members l') M (push_item p (eval_node E p d)) (push_item q (eval_node E q d)) n"
  using assms(1) [unfolded arg_moved_def, THEN spec, THEN spec, THEN mp, OF assms(2), THEN mp, OF assms(3), THEN mp, OF assms(4), of tt]
  by (elim exE conjE) (rule that; (assumption | blast))

lemma args_moved_Cons:
  assumes IH: "args_moved E p k D live ns es" and arg: "arg_moved E p k D live n e" and s: "seg n e \<inter> segs (zip ns es) = {}"
    and w: "live_members live \<inter> set (writes e) = {}" "set (concat (map reads es)) \<inter> set (writes e) = {}"
  shows "args_moved E p k D live (n # ns) (e # es)"
proof (rule args_movedI)
  fix tt
  let ?A = live_members and ?R = "set (concat (map reads es))" and ?W = "set (concat (map writes es))" and ?S = "segs (zip ns es)"
  obtain l1 new1 where 1: "analyze_sequential (analyze p k) ns (live, tt) = Some (l1, tt @ new1)" "live_invar (cp_register_count p) l1"
    "?A live \<subseteq> ?A l1" "?A l1 \<subseteq> ?A live \<union> ?R" "placed p ?S new1"
    and R1: "\<And>m x. m \<in> set ns \<Longrightarrow> cp_node p m = Some (NRegister x) \<Longrightarrow> x \<in> ?A l1"
    and T1: "\<And>q T m x. flipped T p q \<Longrightarrow> marks T ?S new1 \<Longrightarrow> m \<in> set ns \<Longrightarrow> cp_node p m = Some (NRegister x) \<Longrightarrow> m \<in> T \<Longrightarrow> x \<notin> ?A live"
    and C1: "\<And>q T L. flipped T p q \<Longrightarrow> marks T ?S new1 \<Longrightarrow> (L - ?A live) \<inter> (?R \<union> ?W) = {} \<Longrightarrow> pushes E p q (L \<union> D \<union> ?R \<inter> ?A l1) (L \<union> D) ns"
    by (rule args_movedE [OF IH, of tt]) blast
  have w1: "?A l1 \<inter> set (writes e) = {}" using 1(4) w by blast
  obtain l2 new2 where 2: "analyze p k n (l1, tt @ new1) = Some (l2, (tt @ new1) @ new2)" "live_invar (cp_register_count p) l2"
    "?A l1 \<subseteq> ?A l2" "?A l2 \<subseteq> ?A l1 \<union> set (reads e)" "placed p (seg n e) new2"
    and R2: "\<And>r. cp_node p n = Some (NRegister r) \<Longrightarrow> r \<in> ?A l2"
    and T2: "\<And>q T r. flipped T p q \<Longrightarrow> marks T (seg n e) new2 \<Longrightarrow> cp_node p n = Some (NRegister r) \<Longrightarrow> n \<in> T \<Longrightarrow> r \<notin> ?A l1"
    and C2: "\<And>q T L M d. flipped T p q \<Longrightarrow> marks T (seg n e) new2 \<Longrightarrow> (L - ?A live) \<inter> (set (reads e) \<union> set (writes e)) = {} \<Longrightarrow>
      M - ?A l1 \<subseteq> L \<union> D \<Longrightarrow> csim (M \<union> set (reads e) \<inter> ?A l2) M (push_item p (eval_node E p d)) (push_item q (eval_node E q d)) n"
    by (rule arg_movedE [OF arg 1(2,3) w1, of "tt @ new1"]) blast
  have act: "analyze_sequential (analyze p k) (n # ns) (live, tt) = Some (l2, tt @ (new1 @ new2))" using 1(1) 2(1) by simp
  have bounds: "?A live \<subseteq> ?A l2" "?A l2 \<subseteq> ?A live \<union> set (concat (map reads (e # es)))" "placed p (segs (zip (n # ns) (e # es))) (new1 @ new2)"
    using 1(3,4) 2(3,4) placed_append [OF 2(5) 1(5)] by auto
  have R: "\<forall>n \<in> set (n # ns). \<forall>r. cp_node p n = Some (NRegister r) \<longrightarrow> r \<in> ?A l2" using R1 R2 2(3) by auto
  have "(\<forall>m \<in> set (n # ns). \<forall>x. cp_node p m = Some (NRegister x) \<longrightarrow> m \<in> T \<longrightarrow> x \<notin> ?A live) \<and>
      (\<forall>L. (L - ?A live) \<inter> (set (concat (map reads (e # es))) \<union> set (concat (map writes (e # es)))) = {} \<longrightarrow>
         pushes E p q (L \<union> D \<union> set (concat (map reads (e # es))) \<inter> ?A l2) (L \<union> D) (n # ns))"
    if f: "flipped T p q" and m: "marks T (segs (zip (n # ns) (e # es))) (new1 @ new2)" for q T
  proof (intro conjI ballI allI impI)
    have "marks T (seg n e \<union> ?S) (new1 @ new2)" using m by simp
    note m12 = marks_split [OF this 2(5) 1(5) s]
    show "x \<notin> ?A live" if "m \<in> set (n # ns)" "cp_node p m = Some (NRegister x)" "m \<in> T" for m x
      using that T1 [OF f m12(2), of m x] T2 [OF f m12(1), of x] 1(3) by auto
    fix L
    assume L: "(L - ?A live) \<inter> (set (concat (map reads (e # es))) \<union> set (concat (map writes (e # es)))) = {}"
    then have L12: "(L - ?A live) \<inter> (?R \<union> ?W) = {}" "(L - ?A live) \<inter> (set (reads e) \<union> set (writes e)) = {}" by auto
    let ?M = "L \<union> D \<union> ?R \<inter> ?A l1"
    have "csim (?M \<union> set (reads e) \<inter> ?A l2) ?M (push_item p (eval_node E p d)) (push_item q (eval_node E q d)) n" for d
      by (rule C2 [OF f m12(1) L12(2)]) blast
    moreover have "?M \<union> set (reads e) \<inter> ?A l2 \<subseteq> L \<union> D \<union> set (concat (map reads (e # es))) \<inter> ?A l2" using 2(3) by auto
    ultimately show "pushes E p q (L \<union> D \<union> set (concat (map reads (e # es))) \<inter> ?A l2) (L \<union> D) (n # ns)"
      by (intro pushes_Cons [OF csim_mono _ C1 [OF f m12(2) L12(1)]]) auto
  qed
  then have C: "\<forall>q T. flipped T p q \<longrightarrow> marks T (segs (zip (n # ns) (e # es))) (new1 @ new2) \<longrightarrow>
      (\<forall>m \<in> set (n # ns). \<forall>x. cp_node p m = Some (NRegister x) \<longrightarrow> m \<in> T \<longrightarrow> x \<notin> ?A live) \<and>
      (\<forall>L. (L - ?A live) \<inter> (set (concat (map reads (e # es))) \<union> set (concat (map writes (e # es)))) = {} \<longrightarrow>
         pushes E p q (L \<union> D \<union> set (concat (map reads (e # es))) \<inter> ?A l2) (L \<union> D) (n # ns))"
    by (intro allI) (rule impI, rule impI)
  show "\<exists>live' new. analyze_sequential (analyze p k) (n # ns) (live, tt) = Some (live', tt @ new) \<and> live_invar (cp_register_count p) live' \<and>
        ?A live \<subseteq> ?A live' \<and> ?A live' \<subseteq> ?A live \<union> set (concat (map reads (e # es))) \<and> placed p (segs (zip (n # ns) (e # es))) new \<and>
        (\<forall>n \<in> set (n # ns). \<forall>r. cp_node p n = Some (NRegister r) \<longrightarrow> r \<in> ?A live') \<and>
        (\<forall>q T. flipped T p q \<longrightarrow> marks T (segs (zip (n # ns) (e # es))) new \<longrightarrow>
           (\<forall>n \<in> set (n # ns). \<forall>r. cp_node p n = Some (NRegister r) \<longrightarrow> n \<in> T \<longrightarrow> r \<notin> ?A live) \<and>
           (\<forall>L. (L - ?A live) \<inter> (set (concat (map reads (e # es))) \<union> set (concat (map writes (e # es)))) = {} \<longrightarrow>
              pushes E p q (L \<union> D \<union> set (concat (map reads (e # es))) \<inter> ?A live') (L \<union> D) (n # ns)))"
    by (intro exI [of _ l2] exI [of _ "new1 @ new2"] conjI) (fact act 2(2) bounds R C)+
qed

lemma args_moved_list:
  assumes "list_all2 (\<lambda>n e. arg_moved E p k D live n e) ns es" "live_invar (cp_register_count p) live"
    and "sorted_wrt (\<lambda>q q'. seg (fst q) (snd q) \<inter> seg (fst q') (snd q') = {}) (zip ns es)" "sorted_wrt apart es"
    and "live_members live \<inter> set (concat (map writes es)) = {}"
  shows "args_moved E p k D live ns es"
  using assms(1,3-5)
proof (induction ns es rule: list_all2_induct)
  case (Cons n ns e es)
  have "sorted_wrt (\<lambda>q q'. seg (fst q) (snd q) \<inter> seg (fst q') (snd q') = {}) (zip ns es)" "sorted_wrt apart es"
    "live_members live \<inter> set (concat (map writes es)) = {}"
    using Cons.prems by (simp_all add: Int_Un_distrib)
  then have IH: "args_moved E p k D live ns es" by (rule Cons.IH)
  show ?case
  proof (rule args_moved_Cons [OF IH Cons.hyps(1)])
    show "seg n e \<inter> segs (zip ns es) = {}" using Cons.prems(1) by auto
    show "live_members live \<inter> set (writes e) = {}" using Cons.prems(3) by (simp add: Int_Un_distrib)
    show "set (concat (map reads es)) \<inter> set (writes e) = {}" using Cons.prems(2) by (auto simp: apart_def)
  qed
qed (simp add: args_moved_Nil assms(2))

section \<open>The aliasing guard\<close>

lemma count_two:
  "i < length xss \<Longrightarrow> j < length xss \<Longrightarrow> i \<noteq> j \<Longrightarrow> r \<in> set (xss ! i) \<Longrightarrow> r \<in> set (xss ! j) \<Longrightarrow> 2 \<le> count_list (concat xss) r"
proof (induction xss arbitrary: i j)
  case (Cons xs xss)
  have one: "1 \<le> count_list (concat xss) r" if "m < length xss" "r \<in> set (xss ! m)" for m
    using that nth_mem [OF that(1)] by (auto simp: Suc_le_eq zero_less_iff_neq_zero count_list_0_iff)
  have here: "1 \<le> count_list xs r" if "r \<in> set xs" using that by (simp add: Suc_le_eq zero_less_iff_neq_zero count_list_0_iff)
  show ?case
  proof (cases i; cases j)
    fix i' j'
    assume "i = Suc i'" "j = Suc j'"
    then show ?thesis using Cons.IH [of i' j'] Cons.prems by simp
  qed (use Cons.prems one here in \<open>force simp: add_mono [of 1 _ 1, simplified]\<close>)+
qed simp

lemma keep_aliased_ok:
  assumes "\<forall>n \<in> set ns. cp_node p n \<noteq> None \<and> (\<forall>r. cp_node p n = Some (NRegister r) \<longrightarrow> r < cp_register_count p) \<and>
      (\<forall>r. cp_node p n \<noteq> Some (NRegisterTake r))"
    and "length counts = unat (cp_register_count p)" "live_invar (cp_register_count p) live"
  shows "\<exists>live'. keep_aliased p counts ns live = Some live' \<and> live_invar (cp_register_count p) live' \<and>
    live_members live' = live_members live \<union> {r. 2 \<le> counts ! unat r \<and> (\<exists>n \<in> set ns. cp_node p n = Some (NRegister r))}"
  using assms(1,3)
proof (induction ns arbitrary: live)
  case (Cons n ns)
  let ?B = "\<lambda>ns. {r. 2 \<le> counts ! unat r \<and> (\<exists>n \<in> set ns. cp_node p n = Some (NRegister r))}"
  obtain node where node: "cp_node p n = Some node" "\<And>r. node = NRegister r \<Longrightarrow> r < cp_register_count p" "\<And>r. node \<noteq> NRegisterTake r"
    using Cons.prems(1) by auto
  have "\<exists>l1. (case node of NRegister r \<Rightarrow> if unat r < length counts then if counts ! unat r \<ge> 2 then live_insert live r else Some live else None
        | NRegisterTake r \<Rightarrow> if unat r < length counts then if counts ! unat r \<ge> 2 then live_insert live r else Some live else None
        | _ \<Rightarrow> Some live) = Some l1 \<and> live_invar (cp_register_count p) l1 \<and> live_members l1 = live_members live \<union> ?B [n]"
  proof (cases "\<exists>r. node = NRegister r")
    case True
    then obtain r where r: "node = NRegister r" by blast
    then have "unat r < length counts" using node(2) assms(2) by (simp add: word_less_nat_alt)
    then show ?thesis using r node(1) live.add_ok [OF Cons.prems(2) node(2) [OF r]] Cons.prems(2) by auto
  qed (use node Cons.prems(2) in \<open>auto split: opt_node.split\<close>)
  then obtain l1 where l1: "(case node of NRegister r \<Rightarrow> if unat r < length counts then if counts ! unat r \<ge> 2 then live_insert live r else Some live else None
        | NRegisterTake r \<Rightarrow> if unat r < length counts then if counts ! unat r \<ge> 2 then live_insert live r else Some live else None
        | _ \<Rightarrow> Some live) = Some l1" "live_invar (cp_register_count p) l1" "live_members l1 = live_members live \<union> ?B [n]"
    by blast
  have "keep_aliased p counts (n # ns) live = keep_aliased p counts ns l1" using node(1) l1(1) by (simp add: Let_def)
  moreover obtain l2 where "keep_aliased p counts ns l1 = Some l2" "live_invar (cp_register_count p) l2" "live_members l2 = live_members l1 \<union> ?B ns"
    using Cons.IH [OF _ l1(2)] Cons.prems(1) by auto
  ultimately show ?case using l1(3) by auto
qed simp

lemma direct_register_facts:
  assumes "direct_register e = Some r"
  shows "reads e = [r]" "writes e = []" "unat n \<in> seg n e"
proof -
  have "reads e = [r] \<and> writes e = [] \<and> arena_size e = 1"
    using assms
  proof (induction e rule: direct_register.induct)
    case (1 r')
    then show ?case by (simp add: reads.simps [of "ERegister r"] writes.simps [of "ERegister r"])
  next
    case (2 e)
    then show ?case by (simp add: reads_block_bind writes.simps [of "EBlock [] e"])
  qed simp_all
  then show "reads e = [r]" "writes e = []" "unat n \<in> seg n e" by (simp_all add: seg_def)
qed

section \<open>Calls\<close>

lemma csim_call:
  assumes "flipped T p q" "pushes E p q L' (L \<union> D) ns" "windows_ok E"
    and arity: "\<And>fn. get_by_ref (env_registry E) g = Some fn \<Longrightarrow> arity_ok fn (length ns)"
    and direct: "\<And>n r. n \<in> set ns \<Longrightarrow> cp_node p n = Some (NRegister r) \<Longrightarrow> r < cp_register_count p \<and> r \<in> D \<and> (n \<in> T \<longrightarrow> r \<notin> L)"
    and const: "\<And>n i. n \<in> set ns \<Longrightarrow> cp_node p n = Some (NConst i) \<Longrightarrow> cp_constant p i \<noteq> None"
    and fresh: "\<And>n r. n \<in> set ns \<Longrightarrow> cp_node p n \<noteq> Some (NRegisterTake r)"
    and unshared: "\<And>i j r. i < length ns \<Longrightarrow> j < length ns \<Longrightarrow> i \<noteq> j \<Longrightarrow> ns ! i \<in> T \<Longrightarrow> cp_node p (ns ! i) = Some (NRegister r) \<Longrightarrow>
      cp_node p (ns ! j) \<noteq> Some (NRegister r)"
  shows "csim L' L (\<lambda>_. eval_call E p (eval_node E p d) g ns) (\<lambda>_. eval_call E q (eval_node E q d) g ns) m"
proof (rule csimI)
  fix s s' :: "('a, 'c) eval_state"
  assume s: "sim L' s s'"
  let ?P = "eval_args (push_arg p (eval_node E p d)) ns s" and ?Q = "eval_args (push_arg q (eval_node E q d)) ns s'"
  have "osim (L \<union> D) (eval_args (push_item p (eval_node E p d)) ns s) (eval_args (push_item q (eval_node E q d)) ns s')"
    using assms(2) unfolding pushes_def by (blast intro: chain_args [OF _ s])
  then have o: "osim (L \<union> D) (bind_res ?P (\<lambda>(items, s1). Inr (map untake items, s1))) (bind_res ?Q (\<lambda>(items, s1). Inr (map untake items, s1)))"
    unfolding push_items .
  show "osim L (eval_call E p (eval_node E p d) g ns s) (eval_call E q (eval_node E q d) g ns s')"
  proof (cases ?P; cases ?Q)
    fix a b
    assume ab: "?P = Inr a" "?Q = Inr b"
    obtain its s1 its' s1' where a: "a = (its, s1)" and b: "b = (its', s1')" by (cases a; cases b) blast
    have un: "map untake its = map untake its'" and s1: "sim (L \<union> D) s1 s1'" using o ab a b by simp_all
    have io: "list_all2 (item_of p) ns its" "list_all2 (item_of q) ns its'" using ab a b push_args_items by blast+
    have len: "length its = length ns" "length its' = length ns" using io list_all2_lengthD by metis+
    have read: "\<exists>v. read_item p (fst s1) (its ! i) = Some v \<and> read_item q (fst s1') (its' ! i) = Some v" if "i < length ns" for i
    proof -
      have "ns ! i \<in> set ns" "item_of p (ns ! i) (its ! i)" using that io(1) by (auto simp: list_all2_conv_all_nth)
      moreover have "untake (its ! i) = untake (its' ! i)" using un that len by (metis nth_map)
      then have "read_item q (fst s1') (its' ! i) = read_item q (fst s1') (its ! i)" by (metis read_untake)
      ultimately show ?thesis
        using direct [of "ns ! i"] const [of "ns ! i"] fresh [of "ns ! i"] s1 flipped_get(4,6) [OF assms(1)]
        by (cases "its ! i") (auto simp: item_of_def read_register_def sim_def)
    qed
    define f where "f i = the (read_item p (fst s1) (its ! i))" for i
    have f: "read_item p (fst s1) (its ! i) = Some (f i)" "read_item q (fst s1') (its' ! i) = Some (f i)" if "i < length ns" for i
      using read [OF that] by (auto simp: f_def)
    let ?vs = "map f [0..<length ns]"
    have vs: "those (map (read_item p (fst s1)) its) = Some ?vs" "those (map (read_item q (fst s1')) its') = Some ?vs"
      using f len by (simp_all add: those_Some_nth)
    have no: "its ! i \<noteq> ArgRegisterTake r" if "i < length ns" for i r
      using that io(1) fresh [of "ns ! i" r] by (auto simp: list_all2_conv_all_nth item_of_def)
    have ua: "unaliased {} its" using no len unfolding unaliased_def by simp
    have node: "cp_node p (ns ! i) = Some (NRegister r)" if "i < length ns" "its' ! i = ArgRegister r \<or> its' ! i = ArgRegisterTake r" for i r
    proof -
      have "untake (its ! i) = untake (its' ! i)" using un that(1) len by (metis nth_map)
      then have "its ! i = ArgRegister r" using that no [OF that(1)] by (cases "its ! i") auto
      then show ?thesis using io(1) that(1) by (auto simp: list_all2_conv_all_nth item_of_def)
    qed
    have taken: "ns ! i \<in> T" if "i < length ns" "its' ! i = ArgRegisterTake r" for i r
    proof -
      have "cp_node q (ns ! i) = Some (NRegisterTake r)" using io(2) that by (auto simp: list_all2_conv_all_nth item_of_def)
      then show ?thesis using flipped_node(1) [OF assms(1) node [of i r]] that by (auto split: if_splits)
    qed
    have ua': "unaliased {} its'"
      unfolding unaliased_def len(2)
    proof (intro allI impI)
      fix i j r
      assume ij: "i < length ns" "j < length ns" "i \<noteq> j" "its' ! i = ArgRegisterTake r"
      have "cp_node p (ns ! j) \<noteq> Some (NRegister r)" by (rule unshared [OF ij(1-3) taken node]) (use ij in simp_all)
      then show "its' ! j \<noteq> ArgRegister r \<and> its' ! j \<noteq> ArgRegisterTake r" using node [OF ij(2)] by blast
    qed
    have keep: "r \<notin> L" if t: "ArgRegisterTake r \<in> set its'" for r
    proof -
      obtain i where "i < length ns" "its' ! i = ArgRegisterTake r" using t len(2) by (metis in_set_conv_nth)
      then show ?thesis using taken node direct [of "ns ! i" r] by auto
    qed
    show ?thesis
    proof (cases "get_by_ref (env_registry E) g")
      case None
      then show ?thesis using ab a b by (simp add: eval_call_def or_panic_def)
    next
      case (Some fn)
      note ok = windows_okD [OF assms(3) Some]
      have ar: "arity_ok fn (length ?vs)" using arity [OF Some] by simp
      let ?r = "fn_evaluate fn ?vs (env_context E) (snd s1)"
      have w: "snd s1' = snd s1" using s1 by (simp add: sim_def)
      obtain r1 where r1: "window_run p (fn_window fn (length its) (env_context E) (snd s1)) its (fst s1) = Some (fst ?r, snd ?r, r1)"
        "\<forall>x. ArgRegisterTake x \<notin> set its \<longrightarrow> r1 x = fst s1 x"
        using call_window [OF ok ar vs(1) ua] by blast
      obtain r2 where r2: "window_run q (fn_window fn (length its') (env_context E) (snd s1)) its' (fst s1') = Some (fst ?r, snd ?r, r2)"
        "\<forall>x. ArgRegisterTake x \<notin> set its' \<longrightarrow> r2 x = fst s1' x"
        using call_window [OF ok ar vs(2) ua'] by blast
      have "r1 x = r2 x" if "x \<in> L" for x
      proof -
        have "ArgRegisterTake x \<notin> set its" using no len(1) by (metis in_set_conv_nth)
        moreover have "ArgRegisterTake x \<notin> set its'" "fst s1 x = fst s1' x" using keep that s1 by (auto simp: sim_def)
        ultimately show ?thesis using r1(2) r2(2) by simp
      qed
      then have "sim L (r1, snd ?r) (r2, snd ?r)" by (simp add: sim_def)
      then show ?thesis using ab a b Some r1(1) r2(1) w by (simp add: eval_call_def or_panic_def split: sum.split)
    qed
  qed (use o in \<open>auto simp: eval_call_def\<close>)
qed

end
