(* ===== verification/MoveCorrect.thy ===== *)
theory MoveCorrect
  imports MoveCalls
begin

text \<open>
  The move annotator over whole programs: every node of a compacted program is analysed
  correctly, so the annotated program evaluates as the program it comes from.
\<close>

section \<open>Calls\<close>

lemma reps_some: "reps p n e \<Longrightarrow> cp_node p n \<noteq> None"
  by (induction rule: reps.induct) simp_all

lemma call_counts:
  assumes "list_all2 (reps p) refs es" "\<forall>e \<in> set es. size e < Suc k" "\<forall>e \<in> set es. \<forall>r \<in> set (reads e). r < cp_register_count p"
  obtains counts where "count_all (count_register_reads p (Suc k)) refs (replicate (unat (cp_register_count p)) 0) = Some counts"
    "length counts = unat (cp_register_count p)"
    "\<And>i j r. i < length es \<Longrightarrow> j < length es \<Longrightarrow> i \<noteq> j \<Longrightarrow> r \<in> set (reads (es ! i)) \<Longrightarrow> r \<in> set (reads (es ! j)) \<Longrightarrow> 2 \<le> counts ! unat r"
proof -
  let ?rc = "cp_register_count p"
  have one: "counts_ok (unat ?rc) (count_register_reads p (Suc k)) m e" if "reps p m e" "e \<in> set es" for m e
    using count_reads_correct [OF that(1)] assms(2,3) that(2) unfolding counted_def by blast
  have "list_all2 (counts_ok (unat ?rc) (count_register_reads p (Suc k))) refs es"
    using assms(1) by (rule list.rel_mono_strong) (rule one)
  from count_all_reads [OF this, of "replicate (unat ?rc) 0"]
  obtain counts where cnt: "count_all (count_register_reads p (Suc k)) refs (replicate (unat ?rc) 0) = Some counts" "length counts = unat ?rc"
    "\<forall>r. unat r < unat ?rc \<longrightarrow> counts ! unat r = count_list (concat (map reads es)) r" by auto
  have "2 \<le> counts ! unat r" if "i < length es" "j < length es" "i \<noteq> j" "r \<in> set (reads (es ! i))" "r \<in> set (reads (es ! j))" for i j r
  proof -
    have "unat r < unat ?rc" using assms(3) that(1,4) nth_mem by (metis word_less_nat_alt)
    then show ?thesis using cnt(3) count_two [of i "map reads es" j r] that by simp
  qed
  then show thesis using that cnt(1,2) by blast
qed

text \<open>What holds of the arguments of a call in a compacted program.\<close>

definition call_site :: "('x, 'k, 'w) eval_env \<Rightarrow> 'x compact_program \<Rightarrow> func_ref \<Rightarrow> node_ref list \<Rightarrow> 'x opt_expr list \<Rightarrow> bool" where
  "call_site E p g refs es \<longleftrightarrow> list_all2 (reps p) refs es \<and> compactable E (cp_register_count p) (ECall g es)"

definition call_registers :: "'x compact_program \<Rightarrow> node_ref list \<Rightarrow> u16 set" where
  "call_registers p refs = {r. \<exists>n \<in> set refs. cp_node p n = Some (NRegister r)}"

lemma call_site_nth:
  assumes "call_site E p g refs es" "n \<in> set refs"
  obtains i where "i < length es" "n = refs ! i" "reps p (refs ! i) (es ! i)" "compactable E (cp_register_count p) (es ! i)"
proof -
  have "length refs = length es" using assms(1) list_all2_lengthD unfolding call_site_def by blast
  then obtain i where i: "i < length es" "n = refs ! i" using assms(2) by (metis in_set_conv_nth)
  moreover have "reps p (refs ! i) (es ! i)" using assms(1) i(1) by (simp add: call_site_def list_all2_conv_all_nth)
  moreover have "compactable E (cp_register_count p) (es ! i)" using assms(1) i(1) compactable_step [of E _ "ECall g es"] by (simp add: call_site_def)
  ultimately show thesis using that by blast
qed

lemma call_site_register:
  assumes "call_site E p g refs es" "i < length es" "cp_node p (refs ! i) = Some (NRegister r)"
  shows "direct_register (es ! i) = Some r" "r < cp_register_count p"
proof -
  have "reps p (refs ! i) (es ! i)" "compactable E (cp_register_count p) (es ! i)"
    using assms(1,2) compactable_step [of E _ "ECall g es"] by (simp_all add: call_site_def list_all2_conv_all_nth)
  then show "direct_register (es ! i) = Some r" "r < cp_register_count p" using register_node assms(3) direct_register_range by blast+
qed

lemma call_registers_nth:
  assumes "call_site E p g refs es" "r \<in> call_registers p refs"
  obtains i where "i < length es" "cp_node p (refs ! i) = Some (NRegister r)" "direct_register (es ! i) = Some r"
proof -
  obtain n where n: "n \<in> set refs" "cp_node p n = Some (NRegister r)" using assms(2) unfolding call_registers_def by blast
  obtain i where "i < length es" "n = refs ! i" by (rule call_site_nth [OF assms(1) n(1)])
  then show thesis using that call_site_register(1) [OF assms(1)] n(2) by blast
qed

lemma call_registers_scope:
  assumes "call_site E p g refs es"
  shows "call_registers p refs \<subseteq> set (concat (map reads es))" "call_registers p refs \<inter> set (concat (map writes es)) = {}"
proof -
  show "call_registers p refs \<subseteq> set (concat (map reads es))"
  proof
    fix r
    assume r: "r \<in> call_registers p refs"
    obtain i where i: "i < length es" "direct_register (es ! i) = Some r" by (rule call_registers_nth [OF assms r])
    then have "r \<in> set (reads (es ! i))" by (simp add: direct_register_facts(1))
    then show "r \<in> set (concat (map reads es))" using nth_mem [OF i(1)] by auto
  qed
  have ok: "node_ok E (cp_register_count p) (ECall g es)" using assms compactable_step unfolding call_site_def by blast
  have "r \<notin> set (concat (map writes es))" if r: "r \<in> call_registers p refs" for r
  proof -
    obtain i where i: "i < length es" "direct_register (es ! i) = Some r" by (rule call_registers_nth [OF assms r])
    have "list_all (\<lambda>a. case direct_register a of None \<Rightarrow> True | Some r \<Rightarrow> r \<notin> set (concat (map writes es))) es"
      using ok by (simp only: node_ok_def opt_expr.case)
    then have "case direct_register (es ! i) of None \<Rightarrow> True | Some r \<Rightarrow> r \<notin> set (concat (map writes es))"
      using i(1) by (simp only: list_all_length)
    then show ?thesis unfolding i(2) option.case .
  qed
  then show "call_registers p refs \<inter> set (concat (map writes es)) = {}" by blast
qed

lemma call_site_nodes:
  assumes "call_site E p g refs es" "n \<in> set refs"
  shows "cp_node p n \<noteq> None" "cp_node p n = Some (NRegister r) \<Longrightarrow> r < cp_register_count p \<and> r \<in> call_registers p refs"
    "cp_node p n \<noteq> Some (NRegisterTake r)" "cp_node p n = Some (NConst c) \<Longrightarrow> cp_constant p c \<noteq> None"
proof -
  obtain i where i: "i < length es" "n = refs ! i" "reps p (refs ! i) (es ! i)" by (rule call_site_nth [OF assms])
  show "cp_node p n \<noteq> None" using reps_some [OF i(3)] i(2) by simp
  show "cp_node p n \<noteq> Some (NRegisterTake r)" using reps_no_take [OF i(3)] i(2) by simp
  show "cp_constant p c \<noteq> None" if "cp_node p n = Some (NConst c)" using const_node [OF i(3)] that i(2) by fastforce
  show "r < cp_register_count p \<and> r \<in> call_registers p refs" if "cp_node p n = Some (NRegister r)"
    using call_site_register(2) [OF assms(1) i(1)] that i(2) assms(2) unfolding call_registers_def by auto
qed

text \<open>A register read twice by the arguments, once as an argument itself.\<close>

definition shared :: "'x compact_program \<Rightarrow> node_ref list \<Rightarrow> 'x opt_expr list \<Rightarrow> u16 set \<Rightarrow> bool" where
  "shared p refs es A \<longleftrightarrow>
     (\<forall>i < length es. \<forall>j < length es. \<forall>r. i \<noteq> j \<longrightarrow> cp_node p (refs ! i) = Some (NRegister r) \<longrightarrow> r \<in> set (reads (es ! j)) \<longrightarrow> r \<in> A)"

lemma sharedD: "shared p refs es A \<Longrightarrow> i < length es \<Longrightarrow> j < length es \<Longrightarrow> i \<noteq> j \<Longrightarrow> cp_node p (refs ! i) = Some (NRegister r) \<Longrightarrow>
    r \<in> set (reads (es ! j)) \<Longrightarrow> r \<in> A"
  unfolding shared_def by blast

lemma call_guard:
  assumes "call_site E p g refs es" "\<forall>e \<in> set es. size e < Suc k" "\<forall>e \<in> set es. \<forall>r \<in> set (reads e). r < cp_register_count p"
    and "live_invar (cp_register_count p) live"
  obtains counts l where "count_all (count_register_reads p (Suc k)) refs (replicate (unat (cp_register_count p)) 0) = Some counts"
    "keep_aliased p counts refs live = Some l" "live_invar (cp_register_count p) l" "live_members live \<subseteq> live_members l"
    "live_members l \<subseteq> live_members live \<union> call_registers p refs" "shared p refs es (live_members l)"
proof -
  have rep: "list_all2 (reps p) refs es" and len: "length refs = length es"
    using assms(1) list_all2_lengthD unfolding call_site_def by blast+
  obtain counts where cnt: "count_all (count_register_reads p (Suc k)) refs (replicate (unat (cp_register_count p)) 0) = Some counts"
      "length counts = unat (cp_register_count p)"
    and two: "\<And>i j r. i < length es \<Longrightarrow> j < length es \<Longrightarrow> i \<noteq> j \<Longrightarrow> r \<in> set (reads (es ! i)) \<Longrightarrow> r \<in> set (reads (es ! j)) \<Longrightarrow> 2 \<le> counts ! unat r"
    by (rule call_counts [OF rep assms(2,3)]) blast
  have "\<forall>n \<in> set refs. cp_node p n \<noteq> None \<and> (\<forall>r. cp_node p n = Some (NRegister r) \<longrightarrow> r < cp_register_count p) \<and>
      (\<forall>r. cp_node p n \<noteq> Some (NRegisterTake r))"
    using call_site_nodes [OF assms(1)] by blast
  from keep_aliased_ok [OF this cnt(2) assms(4)]
  obtain l where l: "keep_aliased p counts refs live = Some l" "live_invar (cp_register_count p) l"
    "live_members l = live_members live \<union> {r. 2 \<le> counts ! unat r \<and> r \<in> call_registers p refs}"
    unfolding call_registers_def by auto
  have "shared p refs es (live_members l)"
    unfolding shared_def
  proof (intro allI impI)
    fix i j r
    assume ij: "i < length es" "j < length es" "i \<noteq> j" "cp_node p (refs ! i) = Some (NRegister r)" "r \<in> set (reads (es ! j))"
    then have "2 \<le> counts ! unat r"
      using two [OF ij(1-3) _ ij(5)] direct_register_facts(1) [OF call_site_register(1) [OF assms(1) ij(1,4)]] by simp
    moreover have "r \<in> call_registers p refs" using ij(1,4) len unfolding call_registers_def by auto
    ultimately show "r \<in> live_members l" using l(3) by simp
  qed
  then show thesis using that [OF cnt(1) l(1,2)] l(3) by blast
qed

lemma call_args_moved:
  assumes site: "call_site E p g refs es" and mv: "list_all2 (movable E p (Suc k)) refs es"
    and l: "live_invar (cp_register_count p) l" "shared p refs es (live_members l)" "live_members l \<inter> set (concat (map writes es)) = {}"
    and tl: "tiled n (ECall g es) (zip refs es)" "children_scoped (ECall g es)"
  shows "args_moved E p (Suc k) (call_registers p refs) l refs es"
proof (rule args_moved_list [OF _ l(1) _ _ l(3)])
  show "sorted_wrt (\<lambda>q q'. seg (fst q) (snd q) \<inter> seg (fst q') (snd q') = {}) (zip refs es)" "sorted_wrt apart es"
    using tl by (simp_all add: tiled_def children_scoped_apart)
  have len: "length refs = length es" using mv by (rule list_all2_lengthD)
  have "arg_moved E p (Suc k) (call_registers p refs) l (refs ! i) (es ! i)" if i: "i < length es" for i
  proof (cases "\<exists>r. cp_node p (refs ! i) = Some (NRegister r)")
    case True
    then obtain r where r: "cp_node p (refs ! i) = Some (NRegister r)" by blast
    note d = call_site_register [OF site i r]
    show ?thesis by (rule arg_moved_register [OF r d(2)]) (simp_all add: direct_register_facts [OF d(1)])
  next
    case False
    have "r \<in> live_members l" if r: "r \<in> call_registers p refs" "r \<in> set (reads (es ! i))" for r
    proof -
      obtain j where "j < length es" "cp_node p (refs ! j) = Some (NRegister r)" by (rule call_registers_nth [OF site r(1)])
      then show ?thesis using sharedD [OF l(2) _ i _ _ r(2)] False by blast
    qed
    moreover have "call_registers p refs \<inter> set (writes (es ! i)) = {}" using call_registers_scope(2) [OF site] i by fastforce
    moreover have "movable E p (Suc k) (refs ! i) (es ! i)" using mv i by (simp add: list_all2_conv_all_nth)
    ultimately show ?thesis using False call_site_nodes(3) [OF site, of "refs ! i"] i len by (intro arg_moved_nested) auto
  qed
  then show "list_all2 (arg_moved E p (Suc k) (call_registers p refs) l) refs es" using len by (simp add: list_all2_conv_all_nth)
qed

lemma call_site_sim:
  assumes site: "call_site E p g refs es" and f: "flipped T p q" and pu: "pushes E p q L' (L \<union> call_registers p refs) refs" and ok: "windows_ok E"
    and sh: "shared p refs es A" and T: "\<And>n r. n \<in> set refs \<Longrightarrow> cp_node p n = Some (NRegister r) \<Longrightarrow> n \<in> T \<Longrightarrow> r \<notin> A"
    and L: "(L - A) \<inter> set (concat (map reads es)) = {}"
  shows "csim L' L (\<lambda>_. eval_call E p (eval_node E p d) g refs) (\<lambda>_. eval_call E q (eval_node E q d) g refs) m"
proof (rule csim_call [OF f pu ok])
  have len: "length refs = length es" using site list_all2_lengthD unfolding call_site_def by blast
  have nok: "node_ok E (cp_register_count p) (ECall g es)" using site compactable_step unfolding call_site_def by blast
  show "arity_ok fn (length refs)" if "get_by_ref (env_registry E) g = Some fn" for fn using nok that len by (simp add: node_ok_def)
  show "r < cp_register_count p \<and> r \<in> call_registers p refs \<and> (n \<in> T \<longrightarrow> r \<notin> L)" if n: "n \<in> set refs" "cp_node p n = Some (NRegister r)" for n r
    using call_site_nodes(2) [OF site n] T [OF n] L call_registers_scope(1) [OF site] by blast
  show "cp_constant p i \<noteq> None" if "n \<in> set refs" "cp_node p n = Some (NConst i)" for n i using call_site_nodes(4) [OF site that] .
  show "cp_node p n \<noteq> Some (NRegisterTake r)" if "n \<in> set refs" for n r using call_site_nodes(3) [OF site that] .
  show "cp_node p (refs ! j) \<noteq> Some (NRegister r)"
    if i: "i < length refs" "j < length refs" "i \<noteq> j" "refs ! i \<in> T" "cp_node p (refs ! i) = Some (NRegister r)" for i j r
  proof
    assume j: "cp_node p (refs ! j) = Some (NRegister r)"
    then have "r \<in> set (reads (es ! j))" using call_site_register(1) [OF site _ j] direct_register_facts(1) [of "es ! j" r] i(2) len by simp
    then show False using sharedD [OF sh _ _ i(3,5)] T [OF _ i(5,4)] i(1,2) len by simp
  qed
qed

lemma movable_call:
  assumes node: "cp_node p n = Some (NCall g sl)" "cp_args p sl = Some refs"
    and site: "call_site E p g refs es" and mv: "list_all2 (movable E p (Suc k)) refs es"
    and tl: "tiled n (ECall g es) (zip refs es)" "children_scoped (ECall g es)" and ok: "windows_ok E"
    and k: "\<forall>e \<in> set es. size e < Suc k" "\<forall>e \<in> set es. \<forall>r \<in> set (reads e). r < cp_register_count p"
  shows "movable E p (Suc (Suc k)) n (ECall g es)"
proof (rule movable_node [OF node(1)])
  let ?A = live_members and ?R = "set (concat (map reads es))" and ?W = "set (concat (map writes es))" and ?rc = "cp_register_count p"
  let ?D = "call_registers p refs" and ?S = "segs (zip refs es)"
  let ?act = "analyze_call_args p (count_register_reads p (Suc k)) (analyze p (Suc k)) refs"
  let ?C = "\<lambda>q L' L. \<forall>d. csim L' L (\<lambda>_. eval_call E p (eval_node E p d) g refs) (\<lambda>_. eval_call E q (eval_node E q d) g refs) n"
  note D = call_registers_scope [OF site]
  show "moved p ?S ?R ?W ?act ?C"
  proof (rule movedI)
    fix live tt
    assume live: "live_invar ?rc live" "?A live \<inter> ?W = {}"
    obtain counts l where g: "count_all (count_register_reads p (Suc k)) refs (replicate (unat ?rc) 0) = Some counts"
      "keep_aliased p counts refs live = Some l" "live_invar ?rc l" "?A live \<subseteq> ?A l" "?A l \<subseteq> ?A live \<union> ?D" "shared p refs es (?A l)"
      by (rule call_guard [OF site k live(1)])
    have "?A l \<inter> ?W = {}" using g(5) live(2) D(2) by blast
    note args = call_args_moved [OF site mv g(3,6) this tl]
    obtain l' new where 1: "analyze_sequential (analyze p (Suc k)) refs (l, tt) = Some (l', tt @ new)" "live_invar ?rc l'"
      "?A l \<subseteq> ?A l'" "?A l' \<subseteq> ?A l \<union> ?R" "placed p ?S new"
      and RD: "\<And>n r. n \<in> set refs \<Longrightarrow> cp_node p n = Some (NRegister r) \<Longrightarrow> r \<in> ?A l'"
      and T1: "\<And>q T n r. flipped T p q \<Longrightarrow> marks T ?S new \<Longrightarrow> n \<in> set refs \<Longrightarrow> cp_node p n = Some (NRegister r) \<Longrightarrow> n \<in> T \<Longrightarrow> r \<notin> ?A l"
      and C1: "\<And>q T L. flipped T p q \<Longrightarrow> marks T ?S new \<Longrightarrow> (L - ?A l) \<inter> (?R \<union> ?W) = {} \<Longrightarrow> pushes E p q (L \<union> ?D \<union> ?R \<inter> ?A l') (L \<union> ?D) refs"
      by (rule args_movedE [OF args, of tt]) blast
    have act: "?act (live, tt) = Some (l', tt @ new)" using g(1,2) 1(1) by (simp add: analyze_call_args_def)
    have b: "?A live \<subseteq> ?A l'" "?A l' \<subseteq> ?A live \<union> ?R" using 1(3,4) g(4,5) D(1) by blast+
    have C: "?C q (L \<union> ?R \<inter> ?A l') L"
      if f: "flipped T p q" and m: "marks T ?S new" and L: "(L - ?A live) \<inter> (?R \<union> ?W) = {}" for q T L
    proof -
      have L': "(L - ?A l) \<inter> (?R \<union> ?W) = {}" using L g(4) by blast
      have "?D \<subseteq> ?A l'" using RD unfolding call_registers_def by blast
      then have "L \<union> ?D \<union> ?R \<inter> ?A l' = L \<union> ?R \<inter> ?A l'" using D(1) by blast
      then have pu: "pushes E p q (L \<union> ?R \<inter> ?A l') (L \<union> ?D) refs" using C1 [OF f m L'] by simp
      have "(L - ?A l) \<inter> ?R = {}" using L' by blast
      then show ?thesis by (intro allI call_site_sim [OF site f pu ok g(6)]) (rule T1 [OF f m])
    qed
    show "\<exists>live' new. ?act (live, tt) = Some (live', tt @ new) \<and> live_invar ?rc live' \<and> ?A live \<subseteq> ?A live' \<and> ?A live' \<subseteq> ?A live \<union> ?R \<and>
        placed p ?S new \<and> (\<forall>q T L. flipped T p q \<longrightarrow> marks T ?S new \<longrightarrow> (L - ?A live) \<inter> (?R \<union> ?W) = {} \<longrightarrow> ?C q (L \<union> ?R \<inter> ?A live') L)"
      by (intro exI [of _ l'] exI [of _ new] conjI allI impI) ((fact act 1(2) b 1(5))+, rule C [THEN spec])
  qed
qed (use tiled_segs [OF tl(1)] node in \<open>simp_all add: reads_node writes_node analyze_node_def eval_opt_node_def or_panic_def flipped_get csim_def\<close>)

section \<open>Every node\<close>

lemma compactable_reads: "compactable E rc e \<Longrightarrow> r \<in> set (reads e) \<Longrightarrow> r < rc"
proof (induction e rule: measure_induct_rule [where f = size])
  case (less e)
  have ok: "node_ok E rc e" "\<forall>c \<in> set (children e). compactable E rc c" using less.prems(1) compactable_step by blast+
  from less.prems(2) consider "e = ERegister r" | c where "c \<in> set (children e)" "r \<in> set (reads c)"
    by (subst (asm) reads.simps) (auto split: opt_expr.splits)
  then show ?case
  proof cases
    case 1
    then show ?thesis using ok(1) by (simp add: node_ok_def)
  qed (use less.IH children_size ok(2) in blast)
qed

definition analyzed :: "('x, 'k, 'w) eval_env \<Rightarrow> 'x compact_program \<Rightarrow> node_ref \<Rightarrow> 'x opt_expr \<Rightarrow> bool" where
  "analyzed E p n e \<longleftrightarrow> (compactable E (cp_register_count p) e \<longrightarrow> scoped e \<longrightarrow> (\<forall>k > size e. movable E p k n e))"

lemma analyzedD: "analyzed E p n e \<Longrightarrow> compactable E (cp_register_count p) e \<Longrightarrow> scoped e \<Longrightarrow> size e < k \<Longrightarrow> movable E p k n e"
  unfolding analyzed_def by blast

lemma analyzedI:
  assumes "\<And>k. compactable E (cp_register_count p) e \<Longrightarrow> children_scoped e \<Longrightarrow> \<forall>c \<in> set (children e). compactable E (cp_register_count p) c \<and> scoped c \<and> size c < k \<Longrightarrow>
      movable E p (Suc k) n e"
  shows "analyzed E p n e"
  unfolding analyzed_def
proof (intro allI impI)
  fix k
  assume e: "compactable E (cp_register_count p) e" "scoped e" and "size e < k"
  then obtain k' where k: "k = Suc k'" "size e \<le> k'" by (cases k) auto
  have "\<forall>c \<in> set (children e). compactable E (cp_register_count p) c \<and> scoped c \<and> size c < k'"
  proof
    fix c
    assume c: "c \<in> set (children e)"
    then have "size c < k'" using children_size [OF c] k(2) by simp
    then show "compactable E (cp_register_count p) c \<and> scoped c \<and> size c < k'" using c e compactable_step scoped_step by blast
  qed
  moreover have "children_scoped e" using e(2) scoped_step by blast
  ultimately show "movable E p k n e" unfolding k(1) using assms e(1) by blast
qed

lemma analyzed_list:
  assumes "list_all2 (\<lambda>n e. reps p n e \<and> analyzed E p n e) ns es" "\<forall>c \<in> set es. compactable E (cp_register_count p) c \<and> scoped c \<and> size c < k"
  shows "list_all2 (movable E p k) ns es"
  using assms(1) by (rule list.rel_mono_strong) (use assms(2) analyzedD in blast)

text \<open>Nodes that evaluate their children one after the other.\<close>

definition same_tables :: "'x compact_program \<Rightarrow> 'x compact_program \<Rightarrow> bool" where
  "same_tables p q \<longleftrightarrow> cp_args q = cp_args p \<and> cp_keys q = cp_keys p \<and> cp_key_name q = cp_key_name p \<and> cp_constant q = cp_constant p"

lemma flipped_tables: "flipped T p q \<Longrightarrow> same_tables p q"
  unfolding same_tables_def using flipped_get(1-4) by blast

lemma analyzed_run:
  assumes "cp_node p n = Some node" "\<And>r. node \<noteq> NRegister r" "list_all2 (\<lambda>n e. reps p n e \<and> analyzed E p n e) ns es"
    and "tiled n e (zip ns es)" "children e = es" "\<And>r. e \<noteq> ERegister r" "\<And>ss r. e \<noteq> EBlock ss r"
    and "\<And>a k. analyze p (Suc k) n a = analyze_sequential (analyze p k) ns a"
    and "\<And>q L' L d. same_tables p q \<Longrightarrow> chain L' L (eval_node E p d) (eval_node E q d) ns \<Longrightarrow>
      csim L' L (\<lambda>_. eval_opt_node E p (eval_node E p d) node) (\<lambda>_. eval_opt_node E q (eval_node E q d) node) n"
  shows "analyzed E p n e"
proof (rule analyzedI)
  fix k
  assume s: "children_scoped e" and c: "\<forall>c \<in> set (children e). compactable E (cp_register_count p) c \<and> scoped c \<and> size c < k"
  show "movable E p (Suc k) n e"
    by (rule movable_run [OF assms(1,2) analyzed_list [OF assms(3)] assms(4) s assms(5-8)]) (use c assms(5,9) flipped_tables in blast)+
qed

lemma analyzed_leaf:
  assumes "cp_node p n = Some node" "\<And>r. node \<noteq> NRegister r" "children e = []" "\<And>r. e \<noteq> ERegister r" "\<And>ss r. e \<noteq> EBlock ss r"
    and "\<And>a k. analyze p (Suc k) n a = Some a"
    and "\<And>q s s' L d. same_tables p q \<Longrightarrow> sim L s s' \<Longrightarrow>
      osim L (eval_opt_node E p (eval_node E p d) node s) (eval_opt_node E q (eval_node E q d) node s')"
  shows "analyzed E p n e"
proof (rule analyzed_run [OF assms(1,2), where ns = "[]" and es = "[]"])
  show "tiled n e (zip [] [])" by (simp add: tiled_def)
  fix q L' L d
  assume "same_tables p q" "chain L' L (eval_node E p d) (eval_node E q d) []"
  then show "csim L' L (\<lambda>_. eval_opt_node E p (eval_node E p d) node) (\<lambda>_. eval_opt_node E q (eval_node E q d) node) n"
    by (intro csimI assms(7)) (auto intro: sim_mono)
qed (use assms(3-6) in simp_all)


text \<open>The same nodes, in the terms of the combinators.\<close>

lemma eval_opt_node_simps:
  "eval_opt_node E p f (NIfNull i j) = eval_if_null f i j" "eval_opt_node E p f (NNullIf i j) = eval_null_if (env_prim E) f i j"
  "eval_opt_node E p f (NAnd i j) = eval_and f i j" "eval_opt_node E p f (NOr i j) = eval_or f i j"
  "eval_opt_node E p f (NTypeAssert i cls CYieldIdentity) = eval_type_assert f i cls YieldIdentity"
  "cp_constant p c = Some v \<Longrightarrow> eval_opt_node E p f (NTypeAssert i cls (CYieldConst c)) = eval_type_assert f i cls (YieldConst v)"
  "cp_args p sl = Some refs \<Longrightarrow> eval_opt_node E p f (NInterpolation sl) = eval_interpolation (env_render E) f refs []"
  "cp_args p sl = Some refs \<Longrightarrow> eval_opt_node E p f (NArray sl) = (\<lambda>s. bind_res (eval_args f refs s) (\<lambda>(vs, s1). Inr (VArray vs, s1)))"
  by (rule ext, simp add: eval_opt_node_def or_panic_def)+

lemma csim_args: "chain L' L f g ns \<Longrightarrow> csim L' L (\<lambda>_ s. bind_res (eval_args f ns s) (\<lambda>(vs, s1). Inr (h vs, s1))) (\<lambda>_ s. bind_res (eval_args g ns s) (\<lambda>(vs, s1). Inr (h vs, s1))) n"
  by (rule csimI, rule osim_bind [OF chain_args]) simp_all

lemma csim_two:
  assumes "chain L' L f g [i, j]"
  shows "csim L' L (\<lambda>_. eval_if_null f i j) (\<lambda>_. eval_if_null g i j) n" "csim L' L (\<lambda>_. eval_null_if P f i j) (\<lambda>_. eval_null_if P g i j) n"
    "csim L' L (\<lambda>_. eval_and f i j) (\<lambda>_. eval_and g i j) n" "csim L' L (\<lambda>_. eval_or f i j) (\<lambda>_. eval_or g i j) n"
  using chain_two [OF assms] csim_if_null [of L' _ f g i L j n] csim_null_if [of L' _ f g i L j P n] csim_and [of L' _ f g i L j n] csim_or [of L' _ f g i L j n]
  by blast+

lemma csim_one:
  assumes "chain L' L f g [i]"
  shows "csim L' L (\<lambda>_. eval_type_assert f i cls y) (\<lambda>_. eval_type_assert g i cls y) n"
  by (rule csim_type_assert [OF chain_one [OF assms]])

lemma csim_interpolation: "chain L' L f g ns \<Longrightarrow> csim L' L (\<lambda>_. eval_interpolation render f ns acc) (\<lambda>_. eval_interpolation render g ns acc) n"
  by (rule csimI) (rule chain_interpolation)

lemma analyze_correct:
  assumes "windows_ok E"
  shows "reps p n e \<Longrightarrow> analyzed E p n e"
proof (induction rule: reps.induct)
  case (reps_const n i v)
  show ?case
    by (rule analyzed_leaf [OF reps_const(1)]) (use reps_const in \<open>simp_all add: analyze_node_def eval_opt_node_def or_panic_def same_tables_def\<close>)
next
  case (reps_register n r)
  show ?case
  proof (rule analyzedI)
    fix k
    assume "compactable E (cp_register_count p) (ERegister r)"
    then have "r < cp_register_count p" using compactable_step [of E _ "ERegister r"] by (simp add: node_ok_def)
    then show "movable E p (Suc k) n (ERegister r)" by (rule movable_register [OF reps_register])
  qed
next
  case (reps_source n f)
  show ?case
    by (rule analyzed_leaf [OF reps_source]) (use reps_source in \<open>simp_all add: analyze_node_def eval_opt_node_def bind_res_def split: sum.split\<close>)
next
  case (reps_field n i e)
  have "\<not> compactable E (cp_register_count p) (EField e)" by (subst compactable_step) (simp add: node_ok_def)
  then show ?case by (simp add: analyzed_def)
next
  case (reps_fields n sel)
  show ?case
    by (rule analyzed_leaf [OF reps_fields]) (use reps_fields in \<open>simp_all add: analyze_node_def eval_opt_node_def bind_res_def split: sum.split\<close>)
next
  case (reps_call n g sl refs es)
  show ?case
    unfolding analyzed_def
  proof (intro allI impI)
    fix k
    assume ok: "compactable E (cp_register_count p) (ECall g es)" "scoped (ECall g es)" "size (ECall g es) < k"
    then obtain k' where k: "k = Suc (Suc k')" "size (ECall g es) \<le> Suc k'" by (cases k; cases "k - 1") auto
    have sub: "\<forall>e \<in> set es. compactable E (cp_register_count p) e \<and> scoped e \<and> size e < Suc k'"
      using ok compactable_step [of E _ "ECall g es"] scoped_step [of "ECall g es"] children_size [of _ "ECall g es"] k(2) by fastforce
    have "list_all2 (reps p) refs es" using reps_call.IH by (auto elim: list_all2_mono)
    then have "call_site E p g refs es" using ok(1) by (simp add: call_site_def)
    then show "movable E p k n (ECall g es)"
      unfolding k(1)
      by (rule movable_call [OF reps_call.hyps(1,2) _ analyzed_list [OF reps_call.IH sub] reps_call.hyps(3) _ assms])
        (use sub ok(2) scoped_step compactable_reads in blast)+
  qed
next
  case (reps_if n i j l c t e)
  show ?case
    by (rule analyzedI, rule movable_if [OF reps_if.hyps(1)]) (use reps_if.IH reps_if.hyps in \<open>auto intro: analyzedD\<close>)
next
  case (reps_multi_if n sl l refs bs d)
  show ?case
    by (rule analyzedI, rule movable_multi_if [OF reps_multi_if.hyps(1,2) _ analyzed_list [OF reps_multi_if.IH(1)]])
      (use reps_multi_if.IH(2) reps_multi_if.hyps in \<open>auto intro: analyzedD\<close>)
next
  case (reps_if_null n i j a b)
  show ?case
    by (rule analyzed_run [OF reps_if_null.hyps(1), where ns = "[i, j]" and es = "[a, b]"])
      (use reps_if_null in \<open>simp_all add: analyze_node_def eval_opt_node_simps csim_two\<close>)
next
  case (reps_null_if n i j a b)
  show ?case
    by (rule analyzed_run [OF reps_null_if.hyps(1), where ns = "[i, j]" and es = "[a, b]"])
      (use reps_null_if in \<open>simp_all add: analyze_node_def eval_opt_node_simps csim_two\<close>)
next
  case (reps_and n i j a b)
  show ?case
    by (rule analyzed_run [OF reps_and.hyps(1), where ns = "[i, j]" and es = "[a, b]"])
      (use reps_and in \<open>simp_all add: analyze_node_def eval_opt_node_simps csim_two\<close>)
next
  case (reps_or n i j a b)
  show ?case
    by (rule analyzed_run [OF reps_or.hyps(1), where ns = "[i, j]" and es = "[a, b]"])
      (use reps_or in \<open>simp_all add: analyze_node_def eval_opt_node_simps csim_two\<close>)
next
  case (reps_interpolation n sl refs es)
  show ?case
    by (rule analyzed_run [OF reps_interpolation.hyps(1) _ reps_interpolation.IH reps_interpolation.hyps(3)])
      (use reps_interpolation.hyps in \<open>simp_all add: analyze_node_def same_tables_def eval_opt_node_simps csim_interpolation\<close>)
next
  case (reps_object n ks sl refs es ids)
  have len: "length ids = length refs" using reps_object.hyps(4) list_all2_lengthD [OF reps_object.IH] by (metis length_map)
  show ?case
  proof (rule analyzed_run [OF reps_object.hyps(1) _ reps_object.IH reps_object.hyps(5)])
    fix q L' L d
    assume q: "same_tables p q" and c: "chain L' L (eval_node E p d) (eval_node E q d) refs"
    show "csim L' L (\<lambda>_. eval_opt_node E p (eval_node E p d) (NObject ks sl)) (\<lambda>_. eval_opt_node E q (eval_node E q d) (NObject ks sl)) n"
    proof (rule csimI)
      fix s s' :: "('a, 'c) eval_state"
      assume "sim L' s s'"
      note o = chain_args [OF c this]
      show "osim L (eval_opt_node E p (eval_node E p d) (NObject ks sl) s) (eval_opt_node E q (eval_node E q d) (NObject ks sl) s')"
        using q reps_object.hyps(2,3) len
        by (auto simp: eval_opt_node_def or_panic_def same_tables_def split: option.split intro!: osim_bind [OF o])
    qed
  qed (use reps_object.hyps in \<open>simp_all add: analyze_node_def\<close>)
next
  case (reps_array n sl refs es)
  show ?case
    by (rule analyzed_run [OF reps_array.hyps(1) _ reps_array.IH reps_array.hyps(3)])
      (use reps_array.hyps in \<open>simp_all add: analyze_node_def same_tables_def eval_opt_node_simps csim_args\<close>)
next
  case (reps_switch n sl t l refs ins T table d)
  show ?case
  proof (rule analyzedI)
    fix k
    assume s: "children_scoped (ESwitch ins table d)"
      and c: "\<forall>c \<in> set (children (ESwitch ins table d)). compactable E (cp_register_count p) c \<and> scoped c \<and> size c < k"
    have "list_all2 (\<lambda>n e. reps p n e \<and> analyzed E p n e) (map snd (table_map T)) (map snd table)"
      using reps_switch.IH(2) by (auto simp: list_all2_map1 list_all2_map2 elim: list_all2_mono)
    from analyzed_list [OF this, of k] have t: "list_all2 (movable E p k) (map snd (table_map T)) (map snd table)" using c by auto
    show "movable E p (Suc k) n (ESwitch ins table d)"
      by (rule movable_switch [OF reps_switch.hyps(1,2,3) analyzed_list [OF reps_switch.IH(1)] t analyzedD [OF reps_switch.IH(3)] reps_switch.hyps(5) s])
        (use c in auto)
  qed
next
  case (reps_assert n i cls e)
  show ?case
    by (rule analyzed_run [OF reps_assert.hyps(1), where ns = "[i]" and es = "[e]"])
      (use reps_assert in \<open>simp_all add: analyze_node_def eval_opt_node_simps csim_one\<close>)
next
  case (reps_assert_const n i cls j v e)
  show ?case
    by (rule analyzed_run [OF reps_assert_const.hyps(1), where ns = "[i]" and es = "[e]"])
      (use reps_assert_const in \<open>simp_all add: analyze_node_def same_tables_def eval_opt_node_simps csim_one\<close>)
next
  case (reps_block n r)
  have "compactable E (cp_register_count p) (EBlock [] r) \<Longrightarrow> compactable E (cp_register_count p) r" "scoped (EBlock [] r) \<Longrightarrow> scoped r"
    using compactable_step [of E _ "EBlock [] r"] scoped_step [of "EBlock [] r"] by simp_all
  then show ?case using reps_block.IH
    by (auto simp: analyzed_def movable_def reads_block_bind writes_block_bind seg_def)
next
  case (reps_bind n x i b e ss r)
  let ?B = "EBlock ((x, e) # ss) r"
  show ?case
    unfolding analyzed_def
  proof (intro allI impI)
    fix k
    assume ok: "compactable E (cp_register_count p) ?B" "scoped ?B" "size ?B < k"
    then obtain k' where k: "k = Suc k'" "size e < k'" "size (EBlock ss r) < k'" by (cases k) auto
    have x: "x < cp_register_count p" "compactable E (cp_register_count p) e" "compactable E (cp_register_count p) (EBlock ss r)"
      using ok(1) compactable_step [of E _ ?B] compactable_step [of _ _ "EBlock ss r"] by (auto simp: node_ok_def)
    have s: "sorted_wrt apart (e # map snd ss @ [r])" "\<forall>c \<in> set (e # map snd ss @ [r]). scoped c"
      using ok(2) scoped_step [of ?B] by (auto simp: children_scoped_apart)
    then have "scoped e" "scoped (EBlock ss r)" using scoped_step [of "EBlock ss r"] by (auto simp: children_scoped_apart)
    moreover have "set (reads (EBlock ss r)) \<inter> set (writes e) = {}" using s(1) by (auto simp: reads_node apart_def)
    ultimately show "movable E p k n ?B"
      unfolding k(1) using x(2,3) k(2,3)
      by (intro movable_bind [OF reps_bind.hyps(1) x(1)] analyzedD [OF reps_bind.IH(1)] analyzedD [OF reps_bind.IH(2)] reps_bind.hyps(4))
  qed
qed

section \<open>Programs\<close>

text \<open>
  The statements and the result form one block in single-assignment form: no register is read
  outside the part of the tree that binds it, and no statement reads its own register.
\<close>

definition program_scoped :: "'x opt_program \<Rightarrow> bool" where
  "program_scoped prog \<longleftrightarrow>
     scoped (EBlock (prog_statements prog) (prog_result prog)) \<and> list_all (\<lambda>(x, e). x \<notin> set (reads e)) (prog_statements prog)"

text \<open>What the annotator's fuel has to cover: the depth of every tree.\<close>

definition annotate_fuel :: "'x opt_program \<Rightarrow> nat" where
  "annotate_fuel prog = Suc (max_list (map size (prog_result prog # map snd (prog_statements prog))))"

lemma annotate_fuel: "e \<in> set (prog_result prog # map snd (prog_statements prog)) \<Longrightarrow> annotate_fuel prog \<le> k \<Longrightarrow> size e < k"
  using max_list_ge [of "size e" "map size (prog_result prog # map snd (prog_statements prog))"]
  by (simp add: annotate_fuel_def le_imp_less_Suc less_le_trans del: list.map) (meson image_eqI le_trans less_eq_Suc_le not_less_eq_eq)

definition stmts_moved ::
  "('x, 'k, 'w) eval_env \<Rightarrow> 'x compact_program \<Rightarrow> nat \<Rightarrow> (u16 \<times> node_ref) list \<Rightarrow> (u16 \<times> 'x opt_expr) list \<Rightarrow> 'x opt_expr \<Rightarrow> bool" where
  "stmts_moved E p k ns ss r \<longleftrightarrow>
     (\<exists>live new. Option.bind (analyze p k (cp_result p) (live_new (cp_register_count p), [])) (analyze_statements p k ns) = Some (live, new) \<and>
        live_invar (cp_register_count p) live \<and> live_members live \<subseteq> set (reads (EBlock ss r)) \<and>
        placed p (segs (zip (map snd ns) (map snd ss) @ [(cp_result p, r)])) new \<and>
        (\<forall>q T s s'. flipped T p q \<longrightarrow> cp_result q = cp_result p \<longrightarrow> marks T (segs (zip (map snd ns) (map snd ss) @ [(cp_result p, r)])) new \<longrightarrow>
           sim (live_members live) s s' \<longrightarrow> osim {} (eval_statements E p ns s) (eval_statements E q ns s')))"

lemma stmts_moved_Nil:
  assumes "movable E p k (cp_result p) r"
  shows "stmts_moved E p k [] [] r"
proof -
  let ?A = live_members and ?rc = "cp_register_count p"
  obtain live new where 1: "analyze p k (cp_result p) (live_new ?rc, []) = Some (live, [] @ new)" "live_invar ?rc live"
    "?A live \<subseteq> ?A (live_new ?rc) \<union> set (reads r)" "placed p (seg (cp_result p) r) new"
    and C: "\<And>q T L. flipped T p q \<Longrightarrow> marks T (seg (cp_result p) r) new \<Longrightarrow> (L - ?A (live_new ?rc)) \<inter> (set (reads r) \<union> set (writes r)) = {} \<Longrightarrow>
      \<forall>d. csim (L \<union> set (reads r) \<inter> ?A live) L (eval_node E p d) (eval_node E q d) (cp_result p)"
    by (rule movedE [OF assms [unfolded movable_def], of "live_new ?rc" "[]"]) (use live.empty_ok in auto)
  have "osim {} (eval_statements E p [] s) (eval_statements E q [] s')"
    if "flipped T p q" "cp_result q = cp_result p" "marks T (seg (cp_result p) r) new" "sim (?A live) s s'" for q T s s'
  proof -
    have "csim ({} \<union> set (reads r) \<inter> ?A live) {} (eval_node E p (MAX_EXPR_DEPTH + 1)) (eval_node E q (MAX_EXPR_DEPTH + 1)) (cp_result p)"
      using C [OF that(1,3), of "{}"] by blast
    from csimD [OF this that(4)] show ?thesis by (simp add: that(2))
  qed
  then show ?thesis
    unfolding stmts_moved_def using 1 live.empty_ok(2)
    by (intro exI [of _ live] exI [of _ new]) (simp add: reads_block_bind)
qed

lemma stmts_moved_Cons:
  assumes IH: "stmts_moved E p k ns ss r" and n: "movable E p k n e" "x < cp_register_count p" "x \<notin> set (reads e)"
    and w: "set (reads (EBlock ss r)) \<inter> set (writes e) = {}" and s: "seg n e \<inter> segs (zip (map snd ns) (map snd ss) @ [(cp_result p, r)]) = {}"
  shows "stmts_moved E p k ((x, n) # ns) ((x, e) # ss) r"
proof -
  let ?A = live_members and ?rc = "cp_register_count p" and ?S = "segs (zip (map snd ns) (map snd ss) @ [(cp_result p, r)])"
  obtain l1 new1 where 1: "Option.bind (analyze p k (cp_result p) (live_new ?rc, [])) (analyze_statements p k ns) = Some (l1, new1)"
      "live_invar ?rc l1" "?A l1 \<subseteq> set (reads (EBlock ss r))" "placed p ?S new1"
    and C1: "\<And>q T s s'. flipped T p q \<Longrightarrow> cp_result q = cp_result p \<Longrightarrow> marks T ?S new1 \<Longrightarrow> sim (?A l1) s s' \<Longrightarrow>
      osim {} (eval_statements E p ns s) (eval_statements E q ns s')"
    using IH unfolding stmts_moved_def by (elim exE conjE) (rule that; (assumption | blast))
  have "?A l1 \<inter> set (writes e) = {}" using 1(3) w by blast
  then obtain l2 new2 where 2: "analyze p k n (l1, new1) = Some (l2, new1 @ new2)" "live_invar ?rc l2" "?A l1 \<subseteq> ?A l2"
      "?A l2 \<subseteq> ?A l1 \<union> set (reads e)" "placed p (seg n e) new2"
    and C2: "\<And>q T L. flipped T p q \<Longrightarrow> marks T (seg n e) new2 \<Longrightarrow> (L - ?A l1) \<inter> (set (reads e) \<union> set (writes e)) = {} \<Longrightarrow>
      \<forall>d. csim (L \<union> set (reads e) \<inter> ?A l2) L (eval_node E p d) (eval_node E q d) n"
    by (rule movedE [OF n(1) [unfolded movable_def] 1(2), of new1]) blast
  obtain l3 where 3: "live_remove l2 x = Some l3" "live_invar ?rc l3" "?A l3 = ?A l2 - {x}" using live.delete_ok [OF 2(2) n(2)] by blast
  have act: "Option.bind (analyze p k (cp_result p) (live_new ?rc, [])) (analyze_statements p k ((x, n) # ns)) = Some (l3, new1 @ new2)"
    using 1(1) 2(1) 3(1) by (auto simp: bind_case split: option.splits)
  have sub: "?A l3 \<subseteq> set (reads (EBlock ((x, e) # ss) r))" using 1(3) 2(4) 3(3) by (auto simp: reads_block_bind)
  have seg: "segs (zip (map snd ((x, n) # ns)) (map snd ((x, e) # ss)) @ [(cp_result p, r)]) = seg n e \<union> ?S" by simp
  have "osim {} (eval_statements E p ((x, n) # ns) s) (eval_statements E q ((x, n) # ns) s')"
    if f: "flipped T p q" "cp_result q = cp_result p" and m: "marks T (seg n e \<union> ?S) (new1 @ new2)" and t: "sim (?A l3) s s'" for q T s s'
  proof -
    note m12 = marks_split [OF m 2(5) 1(4) s]
    let ?L = "?A l1 - {x}"
    have "csim (?L \<union> set (reads e) \<inter> ?A l2) ?L (eval_node E p (MAX_EXPR_DEPTH + 1)) (eval_node E q (MAX_EXPR_DEPTH + 1)) n"
      using C2 [OF f(1) m12(1), of ?L] by blast
    from csimD [OF this t] have o: "osim ?L (eval_node E p (MAX_EXPR_DEPTH + 1) n s) (eval_node E q (MAX_EXPR_DEPTH + 1) n s')"
      using 2(3) 3(3) n(3) by blast
    have "osim {} (eval_statements E p ns ((fst s1)(x := v), snd s1)) (eval_statements E q ns ((fst s1')(x := v), snd s1'))"
      if "sim ?L s1 s1'" for v s1 s1' by (rule C1 [OF f m12(2)]) (use that in \<open>auto simp: sim_def\<close>)
    then have "osim {} (bind_res (eval_node E p (MAX_EXPR_DEPTH + 1) n s) (\<lambda>(v, s1). eval_statements E p ns ((fst s1)(x := v), snd s1)))
        (bind_res (eval_node E q (MAX_EXPR_DEPTH + 1) n s') (\<lambda>(v, s1). eval_statements E q ns ((fst s1)(x := v), snd s1)))"
      by (intro osim_bind [OF o]) simp
    then show ?thesis using n(2) flipped_get(6) [OF f(1)] by (simp add: or_panic_def read_register_def)
  qed
  then show ?thesis
    unfolding stmts_moved_def seg using act 3(2) sub placed_append [OF 2(5) 1(4)] by blast
qed

lemma stmts_moved_list:
  assumes "list_all2 (\<lambda>q q'. fst q = fst q' \<and> reps p (snd q) (snd q')) ns ss" "reps p (cp_result p) r" "windows_ok E"
    and "\<forall>e \<in> insert r (snd ` set ss). compactable E (cp_register_count p) e \<and> size e < k" "\<forall>(x, e) \<in> set ss. x < cp_register_count p \<and> x \<notin> set (reads e)"
    and "scoped (EBlock ss r)" "sorted_wrt (\<lambda>q q'. seg (fst q) (snd q) \<inter> seg (fst q') (snd q') = {}) (zip (map snd ns) (map snd ss) @ [(cp_result p, r)])"
  shows "stmts_moved E p k ns ss r"
  using assms(1,4-7)
proof (induction ns ss rule: list_all2_induct)
  case Nil
  have "scoped r" using Nil.prems(3) scoped_step [of "EBlock [] r"] by simp
  then show ?case using analyzedD [OF analyze_correct [OF assms(3,2)]] Nil.prems(1) by (intro stmts_moved_Nil) auto
next
  case (Cons q ns q' ss)
  obtain x n e where q: "q = (x, n)" "q' = (x, e)" "reps p n e" using Cons.hyps(1) by (cases q; cases q') auto
  have sc: "sorted_wrt apart (e # map snd ss @ [r])" "\<forall>c \<in> set (e # map snd ss @ [r]). scoped c"
    using Cons.prems(3) scoped_step [of "EBlock ((x, e) # ss) r"] q by (auto simp: children_scoped_apart)
  then have b: "scoped e" "scoped (EBlock ss r)" using scoped_step [of "EBlock ss r"] by (auto simp: children_scoped_apart)
  have IH: "stmts_moved E p k ns ss r" using Cons.IH [OF _ _ b(2)] Cons.prems q by simp
  have "movable E p k n e" using analyzedD [OF analyze_correct [OF assms(3) q(3)] _ b(1)] Cons.prems(1) q by auto
  then show ?case
    unfolding q
    by (rule stmts_moved_Cons [OF IH]) (use Cons.prems q sc(1) in \<open>auto simp: reads_node apart_def\<close>)
qed

text \<open>The second phase marks the reads that the first one found.\<close>

definition mark_node :: "bool \<Rightarrow> opt_node \<Rightarrow> opt_node" where
  "mark_node b node = (case node of NRegister r \<Rightarrow> if b then NRegisterTake r else NRegister r | _ \<Rightarrow> node)"

lemma mark_node_simps: "mark_node False node = node" "mark_node b (mark_node a node) = mark_node (a \<or> b) node"
  by (cases node; auto simp: mark_node_def)+

lemma flip_node_mark: "unat n < length nodes \<Longrightarrow> flip_node nodes n = nodes[unat n := mark_node True (nodes ! unat n)]"
  by (auto simp: flip_node_def arena_get_def mark_node_def split: opt_node.split dest: sym [of "nodes ! unat n"])

lemma flip_nodes:
  assumes "\<forall>m \<in> set tt. unat m < length nodes"
  shows "arena_get (foldl flip_node nodes tt) m = map_option (mark_node (m \<in> set tt)) (arena_get nodes m)"
  using assms
proof (induction tt arbitrary: nodes)
  case Nil
  have "mark_node False = id" by (rule ext) (simp add: mark_node_simps)
  then show ?case by (simp add: option.map_ident id_def)
next
  case (Cons n tt)
  have n: "unat n < length nodes" using Cons.prems by simp
  have one: "arena_get (flip_node nodes n) m = map_option (mark_node (m = n)) (arena_get nodes m)"
    unfolding flip_node_mark [OF n] using n by (auto simp: arena_get_def nth_list_update mark_node_simps word_unat_eq_iff)
  have "\<forall>m \<in> set tt. unat m < length (flip_node nodes n)" using Cons.prems by (simp add: flip_node_mark [OF n])
  then show ?case using Cons.IH one by (simp add: option.map_comp o_def mark_node_simps)
qed

lemma flip_nodes_flipped:
  assumes "placed p S tt"
  shows "flipped (set tt) p (p\<lparr>st_nodes := foldl flip_node (st_nodes p) tt\<rparr>)"
proof -
  have "\<forall>m \<in> set tt. unat m < length (st_nodes p)"
    using assms by (auto simp: placed_def cp_node_def arena_get_def split: if_splits)
  from flip_nodes [OF this] show ?thesis
    by (simp add: flipped_def cp_node_def cp_args_def cp_keys_def cp_key_name_def cp_constant_def cp_switch_table_def mark_node_def [abs_def])
qed

lemma annotate_represented:
  assumes "represents cp prog" "program_ok E prog" "program_scoped prog" "windows_ok E" "annotate_fuel prog \<le> k"
  shows "\<exists>cp'. annotate k cp = Some cp' \<and> evaluate E cp' w = evaluate E cp w"
proof (cases "cp_register_count cp = 0")
  case False
  have rep: "list_all2 (\<lambda>q q'. fst q = fst q' \<and> reps cp (snd q) (snd q')) (cp_statements cp) (prog_statements prog)"
    "reps cp (cp_result cp) (prog_result prog)" "cp_register_count cp = prog_register_count prog"
    "sorted_wrt (\<lambda>q q'. seg (fst q) (snd q) \<inter> seg (fst q') (snd q') = {})
       (zip (map snd (cp_statements cp)) (map snd (prog_statements prog)) @ [(cp_result cp, prog_result prog)])"
    using assms(1) unfolding represents_def by blast+
  have "stmts_moved E cp k (cp_statements cp) (prog_statements prog) (prog_result prog)"
    by (rule stmts_moved_list [OF rep(1,2) assms(4) _ _ _ rep(4)])
      (use assms(2,3) annotate_fuel [OF _ assms(5)] rep(3) in \<open>auto simp: program_ok_def program_scoped_def list_all_iff\<close>)
  then obtain live tt where t: "Option.bind (analyze cp k (cp_result cp) (live_new (cp_register_count cp), [])) (analyze_statements cp k (cp_statements cp)) = Some (live, tt)"
      "placed cp (segs (zip (map snd (cp_statements cp)) (map snd (prog_statements prog)) @ [(cp_result cp, prog_result prog)])) tt"
    and C: "\<And>q T s s'. flipped T cp q \<Longrightarrow> cp_result q = cp_result cp \<Longrightarrow>
      marks T (segs (zip (map snd (cp_statements cp)) (map snd (prog_statements prog)) @ [(cp_result cp, prog_result prog)])) tt \<Longrightarrow>
      sim (live_members live) s s' \<Longrightarrow> osim {} (eval_statements E cp (cp_statements cp) s) (eval_statements E q (cp_statements cp) s')"
    unfolding stmts_moved_def by (elim exE conjE) (rule that; (assumption | blast))
  let ?q = "cp\<lparr>st_nodes := foldl flip_node (st_nodes cp) tt\<rparr>"
  have "annotate k cp = Some ?q" using t(1) False by (auto simp: annotate_def bind_case split: option.splits)
  moreover have "osim {} (eval_statements E cp (cp_statements cp) (\<lambda>_. VNull, w)) (eval_statements E ?q (cp_statements cp) (\<lambda>_. VNull, w))"
    by (rule C [OF flip_nodes_flipped [OF t(2)]]) (simp_all add: marks_def sim_def)
  then have "evaluate E ?q w = evaluate E cp w"
    by (cases "eval_statements E cp (cp_statements cp) (\<lambda>_. VNull, w)"; cases "eval_statements E ?q (cp_statements cp) (\<lambda>_. VNull, w)")
      (auto simp: evaluate_def sim_def)
  ultimately show ?thesis by blast
qed (simp add: annotate_def)

text \<open>
  C32: a compacted program can be annotated with fuel for its deepest tree, and turning reads
  into moves changes nothing: the annotated program returns the same value, or the same error,
  and leaves the same world, whatever the functions do with the arguments they own. Hypotheses: what the
  converter guarantees of a program (\<open>program_ok\<close>: registers in range, a register passed to a
  call not bound inside the call, arities in range, no \<open>Field\<close> node left, distinct switch
  keys; \<open>program_scoped\<close>: single assignment), connector values that compare equal are
  interchangeable (\<open>exact_customs\<close>), and functions keep the contract of their argument window
  (\<open>windows_ok\<close>: a taken argument is not read again).
\<close>

theorem annotate_correct:
  assumes "compact (env_prim E) prog = Inr cp" "program_ok E prog" "program_scoped prog" "exact_customs (env_prim E)" "windows_ok E"
    and "annotate_fuel prog \<le> k"
  shows "\<exists>cp'. annotate k cp = Some cp' \<and> evaluate E cp' w = evaluate E cp w"
  using annotate_represented [OF compact_represents [OF assms(1,2,4)] assms(2,3,5,6)] .

text \<open>\<open>{ r0 = 7; r1 = r0 / r0; ifnull(r1, 0) }\<close>: the division owns neither of its arguments, the last read of \<open>r1\<close> moves.\<close>

definition annotate_sample :: "num_payload opt_program" where
  "annotate_sample =
     \<lparr> prog_statements = [(0, EConst (VInt64 7)), (1, ECall 2 [ERegister 0, ERegister 0])],
       prog_result = EIfNull (ERegister 1) (EConst (VInt64 0)),
       prog_register_count = 2 \<rparr>"

lemmas sample_scopes =
  scoped_step [of "EConst v" for v] scoped_step [of "ERegister r" for r] scoped_step [of "ECall g es" for g es]
  scoped_step [of "EIfNull a b" for a b] scoped_step [of "EBlock ss r" for ss r]
  reads.simps [of "EConst v" for v] reads.simps [of "ERegister r" for r] reads.simps [of "ECall g es" for g es] reads.simps [of "EIfNull a b" for a b]
  writes.simps [of "EConst v" for v] writes.simps [of "ERegister r" for r] writes.simps [of "ECall g es" for g es] writes.simps [of "EIfNull a b" for a b]

lemma annotate_sample_ok: "program_ok (row_env row) annotate_sample" "program_scoped annotate_sample" "annotate_fuel annotate_sample \<le> 9"
  by (simp_all add: annotate_sample_def program_ok_def compactable_def scan.simps node_ok_def arity_ok_def row_env_def divide_func_def
    max_list_def program_scoped_def children_scoped_def sample_scopes annotate_fuel_def)

lemma annotate_sample_compacts: "compact num_ops annotate_sample = Inr
    \<lparr>st_nodes = [NConst 0, NRegister 0, NRegister 0, NCall 2 \<lparr>slice_start = 0, slice_len = 2\<rparr>, NRegister 1, NConst 1, NIfNull 4 5],
     st_args = [1, 2], st_key_runs = [], st_key_pool = [], st_consts = [VInt64 7, VInt64 0], st_tables = [],
     cp_register_count = 2, cp_statements = [(0, 0), (1, 3)], cp_result = 6\<rparr>"
  by (simp add: annotate_sample_def compact_def compactor_create_def intern_const_def push_const_def alloc_node_def
    compact_run_def arena_alloc_def alloc_run_def open_slice_def slice_push_def U16_MAX_def exact_dedup_key_def
    same_dedup_key_def key_from_value_def key_single_def ok_option_def canonicalise_def key_eq_def eq_element_def compare_values_scalar cmp_some_def)

lemma annotate_sample_moves: "annotate 9
    \<lparr>st_nodes = [NConst 0, NRegister 0, NRegister 0, NCall 2 \<lparr>slice_start = 0, slice_len = 2\<rparr>, NRegister 1, NConst 1, NIfNull 4 5],
     st_args = [1, 2], st_key_runs = [], st_key_pool = [], st_consts = [VInt64 7, VInt64 0], st_tables = [],
     cp_register_count = 2, cp_statements = [(0, 0), (1, 3)], cp_result = 6\<rparr> = Some
    \<lparr>st_nodes = [NConst 0, NRegister 0, NRegister 0, NCall 2 \<lparr>slice_start = 0, slice_len = 2\<rparr>, NRegisterTake 1, NConst 1, NIfNull 4 5],
     st_args = [1, 2], st_key_runs = [], st_key_pool = [], st_consts = [VInt64 7, VInt64 0 :: num_payload val], st_tables = [],
     cp_register_count = 2, cp_statements = [(0, 0), (1, 3)], cp_result = 6\<rparr>"
  by code_simp

theorem annotate_correct_witness:
  "\<exists>cp cp'. compact num_ops annotate_sample = Inr cp \<and> annotate 9 cp = Some cp' \<and> st_nodes cp' ! 4 = NRegisterTake 1 \<and> st_nodes cp' ! 2 = NRegister 0 \<and>
     evaluate (row_env (\<lambda>_. VNull)) cp' () = evaluate (row_env (\<lambda>_. VNull)) cp ()"
proof -
  have "env_prim (row_env (\<lambda>_. VNull)) = num_ops" by (simp add: row_env_def)
  then show ?thesis
    using annotate_correct [of "row_env (\<lambda>_. VNull)" annotate_sample _ 9 "()"] annotate_sample_compacts annotate_sample_ok exact_customs_num_ops windows_ok_row annotate_sample_moves
    by (auto simp: eval_nat_numeral)
qed

end
