(* ===== verification/Spec2Isabelle.thy ===== *)
theory Spec2Isabelle
  imports NumericFit UnionTypes Schedule PgComplete OptProps CompactSize MoveCorrect
begin

text \<open>
  \<^bold>\<open>air-elt\<close> moves rows from a source database to a sink database, flow by flow. A flow reads a
  batch after a persisted cursor, transforms it, writes it to the sink and then persists the
  new cursor; column types are checked against each other before a flow starts, and computed
  columns are programs of an expression language that an optimizer rewrites and compacts.
  This development models the parts that carry that logic and proves what makes them correct.
  Paths below are relative to \<open>src/crates\<close>.

  \<^bold>\<open>The parts and their theories.\<close>

  \<^item> \<open>Prelude\<close>: results with the \<open>?\<close> operator, \<open>std::cmp::Ordering\<close>, the contract of a lawful \<open>Ord\<close>
    as a locale, sorting and deduplication by such an order.
  \<^item> \<open>DataTypes\<close> (\<open>types/src/data_type.rs\<close>, \<open>dynamic.rs\<close>): the canonical types with their
    equality, order and JSON form. A connector descriptor is an element of a type parameter
    and its trait methods are a record \<open>dyn_ops\<close>. \<open>ConnTypes\<close> (\<open>commons/*/src/types\<close>) has fifteen
    descriptors of the connectors as that parameter.
  \<^item> \<open>Matrix\<close> (\<open>types/src/matrix.rs\<close>): which type may be written to which column, without and with
    truncation. \<open>NumericFit\<close> gives the numeric types their value sets and compares the matrix
    with inclusion. \<open>UnionTypes\<close> (\<open>union_types.rs\<close>): the folding of observed types.
  \<^item> \<open>Schemas\<close> (\<open>types/src/schema.rs\<close>): fields and the index by name.
  \<^item> \<open>ExprValue\<close> (\<open>types/src/value.rs\<close>, \<open>compare.rs\<close>, \<open>key.rs\<close>): values, their cross-numeric comparison
    and hashable keys. \<open>ValueText\<close> (\<open>json_encode.rs\<close>, \<open>convert/to_text.rs\<close>): plain JSON and text.
    \<open>ValueCodec\<close> (\<open>value.rs\<close>, \<open>data_type.rs\<close>): the tagged JSON of cursors and its typed reading.
  \<^item> \<open>Keyset\<close> (\<open>sources/postgres/src/sql_statements.rs\<close>, \<open>pg_source.rs\<close>): the batch query. The WHERE
    clause is the list of tokens the code writes, read with SQL's precedence and three-valued
    logic.
  \<^item> \<open>Runner\<close> (\<open>core/src/flow/runner.rs\<close>, \<open>transform/transform.rs\<close>, \<open>error.rs\<close>): one flow. The state is a
    record of the runner and a world; the connectors are a record \<open>ports\<close> of operations on the
    world that may fail, time out or be cancelled. \<open>RunnerProps\<close> adds the backoff, the contexts,
    the dry run, the engine (\<open>flow/engine.rs\<close>) and the probe retry (\<open>util/retry.rs\<close>); \<open>Schedule\<close>
    the grid of ticks; \<open>Delivery\<close> the contract between runner and connectors and what follows
    from it.
  \<^item> \<open>PgStorage\<close> (\<open>core/src/model/cursor.rs\<close>, \<open>storages/postgres/src/pg_storage.rs\<close>): the persisted
    cursor. \<open>PgFlow\<close> puts runner, source and storage together over a table of 64-bit integers
    and an appending sink, with a script of faults; \<open>PgComplete\<close> runs such a flow to its end.
  \<^item> \<open>OptExpr\<close> (\<open>expr/optimize/src/model/opt_expr.rs\<close>, \<open>util\<close>, \<open>expr/funcs/src/registry.rs\<close>,
    \<open>signature.rs\<close>): the expression tree, functions, and the meaning of a tree. \<open>OptRefine\<close>: what
    a rewrite has to preserve. \<open>OptRules\<close>, \<open>OptSwitch\<close>, \<open>OptFuncRules\<close> (\<open>rules/*.rs\<close>): the twenty
    fixpoint rules and the two finalize rules; \<open>OptDriver\<close> (\<open>rules/rewrite_driver.rs\<close>): the walk.
    \<open>OptProps\<close>: what the passes preserve, with a model of the builtins \<open>not\<close>, \<open>equals\<close> and
    \<open>divide\<close>.
  \<^item> \<open>Arena\<close> (\<open>commons/arena/src/arena.rs\<close>), \<open>OptCompact\<close> (\<open>engines/compact.rs\<close>, \<open>model/program.rs\<close>) and
    \<open>ArenaEval\<close> (\<open>engines/evaluator.rs\<close>): 16-bit arenas, the compaction of a tree into them and
    the evaluator that runs the result; \<open>CompactLayout\<close>, \<open>CompactProps\<close> and \<open>CompactSize\<close> relate
    the two sides.
  \<^item> \<open>LiveSet\<close>, \<open>MoveAnnot\<close>, \<open>MoveSim\<close>, \<open>MoveProps\<close>, \<open>MoveCalls\<close>, \<open>MoveCorrect\<close>
    (\<open>engines/move_annotator.rs\<close>): the liveness pass that turns the last read of a register into
    a move, and the simulation that shows it safe.

  \<^bold>\<open>How they meet.\<close> The runner calls the source, the sink and the storage through \<open>ports\<close>, as the
  code does through its traits; the locale of \<open>Delivery\<close> states what it relies on and \<open>PgFlow\<close>
  interprets it on the PostgreSQL model. The cursor goes from \<open>Keyset\<close> through the envelope of
  \<open>PgStorage\<close> and the codec of \<open>ValueCodec\<close> and back. The matrix uses the types and calls back into
  the descriptors. A rewritten tree keeps the meaning of \<open>OptExpr\<close>, compaction carries that
  meaning to \<open>ArenaEval\<close>, and the move annotator keeps it there.

  \<^bold>\<open>What is shown.\<close> Types: the JSON form is read back exactly; the order is total where a kind
  identifies a descriptor; the lossless matrix admits only pairs where every value fits, with
  one exception that is exhibited; truncation admits more; folding gives the widest member of
  each family. Flows: the WHERE clause selects exactly the rows after the cursor, no row is
  skipped, every row at or before the persisted cursor is in the sink at every moment and
  under every fault, a run to the end delivers the whole table; contexts and plans agree, a
  dry tick never touches sink or storage, the backoff and the grid follow their
  specification; a cursor value is read back exactly or refused. Expressions: equal keys hash
  alike; the structural rules preserve meaning; the walk over all the rules returns; switch
  and membership lowering are equivalences under stated conditions; compaction preserves
  meaning and fails only on size; the move annotator preserves meaning. Theorems of kind
  error exhibit inputs on which the code departs from what its comments promise.

  \<^bold>\<open>Fuel.\<close> Recursion that is not structural in the code's data takes fuel, and a theorem says how
  much is enough: \<open>run_loop\<close> one unit per batch (\<open>PgComplete\<close> gives the number of batches of a
  table, and a daemon has no bound); \<open>optimize_expr\<close> the \<open>weight\<close> of the tree, since no rule makes
  a tree heavier and every child is lighter than its parent; \<open>eval_node\<close> the depth that the
  code itself counts down from \<open>MAX_EXPR_DEPTH\<close>; \<open>analyze\<close> and \<open>annotate\<close> the size of the deepest
  tree. \<open>local_fixpoint\<close> has the code's own bound \<open>MAX_LOCAL_ITERS\<close>.

  \<^bold>\<open>Hypotheses.\<close> What comes from other crates is an argument, and its documented behaviour a
  locale or a named predicate with an instance: \<open>prim_laws\<close> (floats, decimals, connector values;
  instance \<open>num_ops\<close>), \<open>codec_laws\<close> (printing and parsing; instance \<open>json_codec\<close>), \<open>rule_env\<close> and
  \<open>windows_ok\<close> (purity flags and argument windows of registered functions). \<open>exact_customs\<close> says
  that connector values which compare equal are interchangeable. \<open>dyn_identity\<close> (a kind
  identifies a descriptor) holds for descriptors without parameters and fails for some with
  parameters, which is stated where it is used. \<open>pg_flow_ok\<close> and \<open>exact_flow\<close> are
  conditions on a flow (unique cursor keys, 64-bit cells, an order the keyset query supports).
  \<open>program_ok\<close> and \<open>program_scoped\<close> are what the converter guarantees of a program: registers in
  range and assigned once, no unresolved field, distinct switch keys.

  \<^bold>\<open>What is not modelled.\<close> The connectors' clients, codecs, probes and SQL other than the batch
  query (I/O with third-party drivers); the other sources, sinks and storages; configuration,
  validation and the compilation of mappings; the conversion of values; the parser, the
  converter and the type check of expressions; most builtin functions; guard propagation, the
  second pass and the typed rules of the optimizer; metrics, logs and the command line.
  Messages of errors are shortened, node ids are left out (no modelled pass reads them), and
  hash maps are association lists under the equality they use.
\<close>

end
